(* ===== verification/Prelude.thy ===== *)
theory Prelude
  imports Main "HOL-Library.Word" "HOL-Library.AList" "HOL-Library.Multiset"
begin

text \<open>
  What every part of the Edgewit development shares: the machine integers, the result of a
  Rust call that may panic, the collections the proofs hand to the simplifier, the laws of
  hash maps kept as association lists, and four interfaces as locales: a machine whose steps
  keep an invariant, the same for a process that may end, a process that implements an abstract
  machine, and a loop over a collection whose iteration order Rust leaves open.
\<close>

section \<open>Machine integers\<close>

type_synonym u8 = "8 word"
type_synonym u16 = "16 word"
type_synonym u32 = "32 word"
type_synonym u64 = "64 word"

named_theorems run_simps \<open>equations of calls that may panic\<close>
named_theorems keeps \<open>an operation keeps the invariant of its component\<close>

section \<open>Calls that may panic\<close>

text \<open>
  A Rust call returns a value or panics. The release profile of the program sets
  \<open>panic = "abort"\<close>, so a panic ends the process and no caller handles it.
\<close>

datatype 'a run = Panicked | Ret 'a

primrec run_bind :: "'a run \<Rightarrow> ('a \<Rightarrow> 'b run) \<Rightarrow> 'b run" where
  "run_bind Panicked f = Panicked"
| "run_bind (Ret x) f = f x"

lemma run_bind_Ret_iff [run_simps]:
  "run_bind m f = Ret y \<longleftrightarrow> (\<exists>x. m = Ret x \<and> f x = Ret y)"
  by (cases m) auto

lemma run_bind_Panicked_iff [run_simps]:
  "run_bind m f = Panicked \<longleftrightarrow> m = Panicked \<or> (\<exists>x. m = Ret x \<and> f x = Panicked)"
  by (cases m) auto

lemma run_bind_case: "run_bind m f = (case m of Panicked \<Rightarrow> Panicked | Ret x \<Rightarrow> f x)"
  by (cases m) simp_all

lemma run_neq_Panicked [run_simps]: "m \<noteq> Panicked \<longleftrightarrow> (\<exists>x. m = Ret x)"
  by (cases m) auto

section \<open>Hash maps as association lists\<close>

text \<open>
  A Rust \<open>HashMap\<close> is an association list with distinct keys; the list's order stands for
  the iteration order, which Rust does not fix.
\<close>

definition hm_wf :: "('k \<times> 'v) list \<Rightarrow> bool" where
  "hm_wf m \<longleftrightarrow> distinct (map fst m)"

definition hm_contains_key :: "('k \<times> 'v) list \<Rightarrow> 'k \<Rightarrow> bool" where
  "hm_contains_key m k \<longleftrightarrow> map_of m k \<noteq> None"

lemma hm_wf_Nil [simp]: "hm_wf []"
  by (simp add: hm_wf_def)

lemma hm_wf_update [simp]: "hm_wf m \<Longrightarrow> hm_wf (AList.update k v m)"
  by (simp add: hm_wf_def distinct_update)

lemma hm_wf_delete [simp]: "hm_wf m \<Longrightarrow> hm_wf (AList.delete k m)"
  by (simp add: hm_wf_def distinct_delete)

lemma hm_contains_key_iff: "hm_contains_key m k \<longleftrightarrow> k \<in> fst ` set m"
  by (auto simp: hm_contains_key_def map_of_eq_None_iff)

lemma hm_set_iff: "hm_wf m \<Longrightarrow> (k, v) \<in> set m \<longleftrightarrow> map_of m k = Some v"
  by (simp add: hm_wf_def)

lemma set_update_cases:
  "(a, b) \<in> set (AList.update k v m) \<Longrightarrow> (a = k \<and> b = v) \<or> (a, b) \<in> set m"
  by (induction m) (auto split: if_splits)

lemma set_delete_subset: "(a, b) \<in> set (AList.delete k m) \<Longrightarrow> (a, b) \<in> set m \<and> a \<noteq> k"
  by (auto simp: AList.delete_eq)

section \<open>Machines whose steps keep an invariant\<close>

text \<open>
  The interface of a component that runs for ever: a step on its state, and an invariant the
  step keeps. What a whole run keeps is proved here once.
\<close>

locale invariant_machine =
  fixes step :: "'s \<Rightarrow> 'e \<Rightarrow> 's"
    and inv :: "'s \<Rightarrow> bool"
  assumes step_inv: "inv s \<Longrightarrow> inv (step s e)"
begin

lemma run_inv: "inv s \<Longrightarrow> inv (foldl step s es)"
  by (induction es arbitrary: s) (simp_all add: step_inv)

lemma prefix_inv: "inv s \<Longrightarrow> inv (foldl step s (take n es))"
  by (rule run_inv)

end

section \<open>Runs that may end early\<close>

text \<open>
  A step that may fail, run over a list: the loop body of a function with early returns, or a
  process that may end.
\<close>

fun try_fold :: "('s \<Rightarrow> 'e \<Rightarrow> 's option) \<Rightarrow> 's \<Rightarrow> 'e list \<Rightarrow> 's option" where
  "try_fold f s [] = Some s"
| "try_fold f s (e # es) = (case f s e of None \<Rightarrow> None | Some s' \<Rightarrow> try_fold f s' es)"

lemma try_fold_append:
  "try_fold f s (xs @ ys) = (case try_fold f s xs of None \<Rightarrow> None | Some s' \<Rightarrow> try_fold f s' ys)"
  by (induction xs arbitrary: s) (auto split: option.splits)

text \<open>
  The interface of a process that may end: what each of its steps keeps, every state it reaches
  satisfies.
\<close>

locale ending_machine =
  fixes step :: "'s \<Rightarrow> 'e \<Rightarrow> 's option"
    and inv :: "'s \<Rightarrow> bool"
  assumes step_inv: "inv s \<Longrightarrow> step s e = Some s' \<Longrightarrow> inv s'"
begin

lemma run_inv: "inv s \<Longrightarrow> try_fold step s es = Some s' \<Longrightarrow> inv s'"
  by (induction es arbitrary: s) (auto split: option.splits intro: step_inv)

end

text \<open>
  The interface of a process that implements an abstract machine: from related states every
  admissible event is handled without ending the process, and leads to related states.
\<close>

locale refining_machine =
  fixes step :: "'c \<Rightarrow> 'e \<Rightarrow> 'c option"
    and spec :: "'a \<Rightarrow> 'e \<Rightarrow> 'a"
    and rel :: "'a \<Rightarrow> 'c \<Rightarrow> bool"
    and ok :: "'e \<Rightarrow> bool"
  assumes simulates: "rel a c \<Longrightarrow> ok e \<Longrightarrow> \<exists>c'. step c e = Some c' \<and> rel (spec a e) c'"
begin

lemma run_simulates:
  "rel a c \<Longrightarrow> list_all ok es \<Longrightarrow> \<exists>c'. try_fold step c es = Some c' \<and> rel (foldl spec a es) c'"
proof (induction es arbitrary: a c)
  case (Cons e es)
  then obtain c' where c': "step c e = Some c'" "rel (spec a e) c'"
    using simulates [of a c e] by auto
  then show ?case using Cons.IH [OF c'(2)] Cons.prems(2) by simp
qed simp

end

section \<open>Loops over a hash map\<close>

text \<open>
  The interface of a loop body that may fail, run over the entries of a hash map: two entries
  with different keys may be swapped without changing a successful result, and without
  turning a success into a failure. The result then does not depend on the iteration order.
\<close>

locale unordered_loop =
  fixes body :: "'s \<Rightarrow> 'e \<Rightarrow> 's option"
    and indep :: "'e \<Rightarrow> 'e \<Rightarrow> bool"
  assumes swap: "indep d e \<Longrightarrow> try_fold body s [d, e] = try_fold body s [e, d]"
begin

lemma move_front:
  "(\<And>d. d \<in> set xs \<Longrightarrow> indep d e) \<Longrightarrow>
   try_fold body s (xs @ e # ys) = try_fold body s (e # xs @ ys)"
proof (induction xs arbitrary: s)
  case Nil
  then show ?case by simp
next
  case (Cons d xs)
  have "try_fold body s ((d # xs) @ e # ys) = try_fold body s (d # e # xs @ ys)"
    using Cons by (auto split: option.splits)
  also have "\<dots> = try_fold body s (e # d # xs @ ys)"
    using swap [of d e s] Cons.prems
    by (auto simp: try_fold_append [of body s "[d, e]" "xs @ ys", simplified]
          try_fold_append [of body s "[e, d]" "xs @ ys", simplified] split: option.splits)
  finally show ?case by simp
qed

lemma order_irrelevant:
  "mset xs = mset ys \<Longrightarrow> pairwise indep (set xs) \<Longrightarrow> distinct xs \<Longrightarrow>
   try_fold body s xs = try_fold body s ys"
proof (induction xs arbitrary: s ys)
  case Nil
  then show ?case by simp
next
  case (Cons e xs)
  then have "e \<in> set ys"
    by (metis list.set_intros(1) mset_eq_setD)
  then obtain us vs where ys: "ys = us @ e # vs"
    by (meson split_list)
  have eq: "mset xs = mset (us @ vs)"
    using Cons.prems(1) by (simp add: ys)
  have "set us \<subseteq> set xs"
    using eq by (metis Un_upper1 mset_eq_setD set_append)
  then have "\<And>d. d \<in> set us \<Longrightarrow> indep d e"
    using Cons.prems(2,3) by (auto simp: pairwise_def)
  then have "try_fold body s ys = try_fold body s (e # us @ vs)"
    unfolding ys by (rule move_front)
  moreover have "try_fold body t xs = try_fold body t (us @ vs)" for t
    using Cons.IH [OF eq] Cons.prems(2,3) by (simp add: pairwise_insert)
  ultimately show ?case by (simp split: option.splits)
qed

end

end
