(* ===== verification/Rust_Str.thy ===== *)
theory Rust_Str
  imports Prelude "HOL-Library.Char_ord" "HOL-Library.List_Lexorder"
begin

text \<open>
  The part of Rust's \<open>str\<close> the program uses. A \<open>str\<close> is its UTF-8 bytes, one
  \<open>char\<close> of HOL per byte, so \<open>length\<close> is \<open>str::len\<close> and the
  order of strings is Rust's. Splitting inside a character panics, as in Rust. Numbers are
  parsed as \<open>from_str_radix\<close> does it: an optional sign, then at least one digit, then
  a range check.
\<close>

unbundle bit_operations_syntax

section \<open>Bytes and UTF-8\<close>

definition as_bytes :: "string \<Rightarrow> u8 list" where
  "as_bytes s = map of_char s"

definition str_of_bytes :: "u8 list \<Rightarrow> string" where
  "str_of_bytes bs = map (\<lambda>b. char_of (unat b)) bs"

definition continuation :: "u8 \<Rightarrow> bool" where
  "continuation b \<longleftrightarrow> 0x80 \<le> b \<and> b \<le> 0xBF"

fun valid_utf8 :: "u8 list \<Rightarrow> bool" where
  "valid_utf8 [] \<longleftrightarrow> True"
| "valid_utf8 (a # r) \<longleftrightarrow>
     (if a < 0x80 then valid_utf8 r
      else if 0xC2 \<le> a \<and> a \<le> 0xDF then
        (case r of b # r' \<Rightarrow> continuation b \<and> valid_utf8 r' | _ \<Rightarrow> False)
      else if 0xE0 \<le> a \<and> a \<le> 0xEF then
        (case r of b # c # r' \<Rightarrow>
           continuation b \<and> (a = 0xE0 \<longrightarrow> 0xA0 \<le> b) \<and> (a = 0xED \<longrightarrow> b \<le> 0x9F) \<and>
           continuation c \<and> valid_utf8 r'
         | _ \<Rightarrow> False)
      else if 0xF0 \<le> a \<and> a \<le> 0xF4 then
        (case r of b # c # d # r' \<Rightarrow>
           continuation b \<and> (a = 0xF0 \<longrightarrow> 0x90 \<le> b) \<and> (a = 0xF4 \<longrightarrow> b \<le> 0x8F) \<and>
           continuation c \<and> continuation d \<and> valid_utf8 r'
         | _ \<Rightarrow> False)
      else False)"

definition from_utf8 :: "u8 list \<Rightarrow> string option" where
  "from_utf8 bs = (if valid_utf8 bs then Some (str_of_bytes bs) else None)"

text \<open>A value of type \<open>String\<close> is valid UTF-8; this is the type's invariant.\<close>

definition is_str :: "string \<Rightarrow> bool" where
  "is_str s \<longleftrightarrow> valid_utf8 (as_bytes s)"

lemma length_as_bytes [simp]: "length (as_bytes s) = length s"
  by (simp add: as_bytes_def)

lemma as_bytes_append [simp]: "as_bytes (s @ t) = as_bytes s @ as_bytes t"
  by (simp add: as_bytes_def)

lemma as_bytes_Nil [simp]: "as_bytes [] = []"
  by (simp add: as_bytes_def)

lemma of_char_less_256: "(of_char c :: nat) < 256"
  using mod_less_divisor [of 256 "of_char c :: nat"] by simp

lemma unat_of_char_u8: "unat (of_char c :: u8) = of_char c"
proof -
  have "unat (of_nat (of_char c) :: u8) = of_char c"
    using of_char_less_256 [of c] by (simp add: unat_of_nat)
  then show ?thesis by (simp only: of_nat_of_char)
qed

lemma str_of_bytes_as_bytes [simp]: "str_of_bytes (as_bytes s) = s"
  by (simp add: as_bytes_def str_of_bytes_def comp_def unat_of_char_u8)

lemma from_utf8_as_bytes: "is_str s \<Longrightarrow> from_utf8 (as_bytes s) = Some s"
  by (simp add: from_utf8_def is_str_def)

text \<open>ASCII text is valid.\<close>

definition is_ascii :: "string \<Rightarrow> bool" where
  "is_ascii s \<longleftrightarrow> (\<forall>c \<in> set s. (of_char c :: nat) < 128)"

lemma of_char_u8_less: "(of_char c :: u8) < 0x80 \<longleftrightarrow> (of_char c :: nat) < 128"
  by (simp add: word_less_nat_alt unat_of_char_u8)

lemma is_ascii_is_str: "is_ascii s \<Longrightarrow> is_str s"
  by (induction s) (auto simp: is_ascii_def is_str_def as_bytes_def of_char_u8_less)

section \<open>Splitting\<close>

text \<open>
  \<open>is_char_boundary\<close>: the two ends, and every byte that is not a UTF-8 continuation byte.
\<close>

definition is_char_boundary :: "string \<Rightarrow> nat \<Rightarrow> bool" where
  "is_char_boundary s i \<longleftrightarrow>
     i = 0 \<or> i = length s \<or> (i < length s \<and> \<not> continuation (of_char (s ! i)))"

definition split_at :: "string \<Rightarrow> nat \<Rightarrow> (string \<times> string) run" where
  "split_at s i = (if is_char_boundary s i then Ret (take i s, drop i s) else Panicked)"

lemma split_at_last:
  assumes "s \<noteq> []"
  shows "split_at s (length s - 1) =
    (if length s = 1 \<or> \<not> continuation (of_char (last s)) then Ret (butlast s, [last s])
     else Panicked)"
proof -
  have "drop (length s - 1) s = [last s]"
    by (cases s rule: rev_cases) (use assms in auto)
  moreover have "take (length s - 1) s = butlast s"
    by (simp add: butlast_conv_take)
  moreover have "is_char_boundary s (length s - 1) \<longleftrightarrow>
      length s = 1 \<or> \<not> continuation (of_char (last s))"
    using assms by (cases s rule: rev_cases) (auto simp: is_char_boundary_def nth_append)
  ultimately show ?thesis
    by (simp add: split_at_def)
qed

text \<open>A valid string never starts with a continuation byte.\<close>

lemma is_str_single: "is_str [c] \<Longrightarrow> \<not> continuation (of_char c)"
  by (auto simp: is_str_def as_bytes_def continuation_def split: if_splits list.splits)

section \<open>Numbers\<close>

definition digit_val :: "char \<Rightarrow> nat option" where
  "digit_val c =
     (let n = of_char c :: nat in
      if 48 \<le> n \<and> n \<le> 57 then Some (n - 48)
      else if 97 \<le> n \<and> n \<le> 122 then Some (n - 87)
      else if 65 \<le> n \<and> n \<le> 90 then Some (n - 55)
      else None)"

definition to_digit :: "nat \<Rightarrow> char \<Rightarrow> nat option" where
  "to_digit radix c = (case digit_val c of None \<Rightarrow> None | Some d \<Rightarrow> if d < radix then Some d else None)"

fun digits_value :: "nat \<Rightarrow> nat \<Rightarrow> string \<Rightarrow> nat option" where
  "digits_value radix acc [] = Some acc"
| "digits_value radix acc (c # cs) =
     (case to_digit radix c of None \<Rightarrow> None | Some d \<Rightarrow> digits_value radix (acc * radix + d) cs)"

definition magnitude :: "nat \<Rightarrow> string \<Rightarrow> nat option" where
  "magnitude radix s = (if s = [] then None else digits_value radix 0 s)"

definition strip_plus :: "string \<Rightarrow> string" where
  "strip_plus s = (case s of c # cs \<Rightarrow> if c = CHR ''+'' then cs else s | [] \<Rightarrow> s)"

definition from_str_radix_u64 :: "nat \<Rightarrow> string \<Rightarrow> u64 option" where
  "from_str_radix_u64 radix s =
     (case magnitude radix (strip_plus s) of
        Some n \<Rightarrow> if n < 2 ^ 64 then Some (of_nat n) else None
      | None \<Rightarrow> None)"

definition parse_u64 :: "string \<Rightarrow> u64 option" where
  "parse_u64 s = from_str_radix_u64 10 s"

text \<open>\<open>i64\<close> values are kept as integers between \<open>-2^63\<close> and \<open>2^63 - 1\<close>.\<close>

definition parse_i64 :: "string \<Rightarrow> int option" where
  "parse_i64 s =
     (case s of
        c # cs \<Rightarrow>
          if c = CHR ''-'' then
            (case magnitude 10 cs of
               Some n \<Rightarrow> if n \<le> 2 ^ 63 then Some (- int n) else None
             | None \<Rightarrow> None)
          else
            (case magnitude 10 (strip_plus s) of
               Some n \<Rightarrow> if n < 2 ^ 63 then Some (int n) else None
             | None \<Rightarrow> None)
      | [] \<Rightarrow> None)"

text \<open>Multiplication of two \<open>i64\<close> values wraps in a release build.\<close>

definition wrap_i64 :: "int \<Rightarrow> int" where
  "wrap_i64 i = (i + 2 ^ 63) mod 2 ^ 64 - 2 ^ 63"

lemma wrap_i64_id: "- (2 ^ 63) \<le> i \<Longrightarrow> i < 2 ^ 63 \<Longrightarrow> wrap_i64 i = i"
  by (simp add: wrap_i64_def)

text \<open>The values a parse can return, by the text that was parsed.\<close>

lemma magnitude_minus [simp]: "magnitude 10 (CHR ''-'' # cs) = None"
  by (simp add: magnitude_def to_digit_def digit_val_def)

lemma parse_u64_i64:
  assumes "parse_u64 s = Some n"
  shows "parse_i64 s = (if unat n < 2 ^ 63 then Some (int (unat n)) else None)"
proof -
  from assms obtain m where m: "magnitude 10 (strip_plus s) = Some m" "m < 2 ^ 64" "n = of_nat m"
    by (auto simp: parse_u64_def from_str_radix_u64_def split: option.splits if_splits)
  then have n: "unat n = m"
    by (simp add: unat_of_nat)
  show ?thesis
  proof (cases s)
    case Nil
    with m show ?thesis by (simp add: strip_plus_def magnitude_def)
  next
    case (Cons c cs)
    with m have "c \<noteq> CHR ''-''"
      by (auto simp: strip_plus_def)
    with Cons m n show ?thesis by (simp add: parse_i64_def)
  qed
qed

section \<open>White space\<close>

text \<open>
  \<open>str::trim\<close> removes the characters with Unicode's White_Space property at both ends;
  these are their encodings. Encodings of different characters are never a prefix or a suffix
  of each other, so looking at the bytes is looking at the characters.
\<close>

definition byte_string :: "nat list \<Rightarrow> string" where
  "byte_string ns = map char_of ns"

definition white_space :: "string list" where
  "white_space = map byte_string
     ([[9], [10], [11], [12], [13], [32], [0xC2, 0x85], [0xC2, 0xA0], [0xE1, 0x9A, 0x80]] @
      map (\<lambda>b. [0xE2, 0x80, b]) ([0x80..<0x8B] @ [0xA8, 0xA9, 0xAF]) @
      [[0xE2, 0x81, 0x9F], [0xE3, 0x80, 0x80]])"

definition starts_with :: "string \<Rightarrow> string \<Rightarrow> bool" where
  "starts_with s p \<longleftrightarrow> take (length p) s = p"

definition ends_with :: "string \<Rightarrow> string \<Rightarrow> bool" where
  "ends_with s suffix \<longleftrightarrow>
     length suffix \<le> length s \<and> drop (length s - length suffix) s = suffix"

lemma find_SomeD: "find P xs = Some x \<Longrightarrow> P x \<and> x \<in> set xs"
  by (induction xs) (auto split: if_splits)

lemma white_space_nonempty: "w \<in> set white_space \<Longrightarrow> w \<noteq> []"
  by (auto simp: white_space_def byte_string_def)

function trim_start :: "string \<Rightarrow> string" where
  "trim_start s =
     (case find (starts_with s) white_space of None \<Rightarrow> s | Some w \<Rightarrow> trim_start (drop (length w) s))"
  by pat_completeness auto
termination
proof (relation "measure length")
  fix s w
  assume "find (starts_with s) white_space = Some w"
  then have "starts_with s w" "w \<noteq> []"
    using white_space_nonempty by (auto dest: find_SomeD)
  then show "(drop (length w) s, s) \<in> measure length"
    by (cases s) (auto simp: starts_with_def)
qed simp

function trim_end :: "string \<Rightarrow> string" where
  "trim_end s =
     (case find (ends_with s) white_space of
        None \<Rightarrow> s | Some w \<Rightarrow> trim_end (take (length s - length w) s))"
  by pat_completeness auto
termination
proof (relation "measure length")
  fix s w
  assume "find (ends_with s) white_space = Some w"
  then have "ends_with s w" "w \<noteq> []"
    using white_space_nonempty by (auto dest: find_SomeD)
  then show "(take (length s - length w) s, s) \<in> measure length"
    by (cases s) (auto simp: ends_with_def)
qed simp

declare trim_start.simps [simp del] trim_end.simps [simp del]

definition trim :: "string \<Rightarrow> string" where
  "trim s = trim_end (trim_start s)"

text \<open>Text without white space at its ends is left alone.\<close>

definition solid :: "char \<Rightarrow> bool" where
  "solid c \<longleftrightarrow> 33 \<le> (of_char c :: nat) \<and> (of_char c :: nat) < 127"

lemma white_space_not_solid: "w \<in> set white_space \<Longrightarrow> \<not> solid (hd w) \<and> \<not> solid (last w)"
  by (auto simp: white_space_def byte_string_def solid_def)

lemma find_none_solid: "(\<And>w. w \<in> set ws \<Longrightarrow> \<not> P w) \<Longrightarrow> find P ws = None"
  by (auto simp: find_None_iff)

lemma starts_with_hd: "starts_with s w \<Longrightarrow> w \<noteq> [] \<Longrightarrow> s \<noteq> [] \<and> hd s = hd w"
proof -
  assume "starts_with s w" "w \<noteq> []"
  then have "s = w @ drop (length w) s"
    by (metis append_take_drop_id starts_with_def)
  with \<open>w \<noteq> []\<close> show ?thesis
    by (metis append_is_Nil_conv hd_append2)
qed

lemma trim_start_solid: "s = [] \<or> solid (hd s) \<Longrightarrow> trim_start s = s"
proof -
  assume *: "s = [] \<or> solid (hd s)"
  have "\<not> starts_with s w" if "w \<in> set white_space" for w
    using * white_space_not_solid [OF that] white_space_nonempty [OF that] starts_with_hd [of s w]
    by auto
  then have "find (starts_with s) white_space = None"
    by (rule find_none_solid)
  then show ?thesis by (simp add: trim_start.simps)
qed

lemma ends_with_last: "ends_with s w \<Longrightarrow> w \<noteq> [] \<Longrightarrow> s \<noteq> [] \<and> last s = last w"
proof -
  assume "ends_with s w" "w \<noteq> []"
  then have "s = take (length s - length w) s @ w"
    by (metis append_take_drop_id ends_with_def)
  with \<open>w \<noteq> []\<close> show ?thesis
    by (metis append_is_Nil_conv last_appendR)
qed

lemma trim_end_solid: "s = [] \<or> solid (last s) \<Longrightarrow> trim_end s = s"
proof -
  assume *: "s = [] \<or> solid (last s)"
  have "\<not> ends_with s w" if "w \<in> set white_space" for w
    using * white_space_not_solid [OF that] white_space_nonempty [OF that] ends_with_last [of s w]
    by auto
  then have "find (ends_with s) white_space = None"
    by (rule find_none_solid)
  then show ?thesis by (simp add: trim_end.simps)
qed

lemma trim_solid: "list_all solid s \<Longrightarrow> trim s = s"
  by (cases s) (simp_all add: trim_def trim_start_solid trim_end_solid list_all_iff)

end
