(* ===== verification/Json.thy ===== *)
theory Json
  imports Rust_Str
begin

text \<open>
  JSON documents as the program's code matches on them: the constructors of
  \<open>serde_json::Value\<close>, its accessors, and its object map, which without the
  \<open>preserve_order\<close> feature is a \<open>BTreeMap\<close>: entries in increasing key
  order. The text form of a number, and parsing and printing of documents, belong to the
  library and are parameters of the definitions that use them.
\<close>

section \<open>Values\<close>

text \<open>
  A number is a non-negative integer, a negative integer or a float; a float is kept as its
  64 bits, since the program never computes with it.
\<close>

datatype number = PosInt u64 | NegInt int | Float u64

datatype json =
    JNull
  | JBool bool
  | JNumber number
  | JString string
  | JArray "json list"
  | JObject "(string \<times> json) list"

fun is_null :: "json \<Rightarrow> bool" where
  "is_null JNull = True" | "is_null _ = False"

fun is_string :: "json \<Rightarrow> bool" where
  "is_string (JString _) = True" | "is_string _ = False"

fun is_boolean :: "json \<Rightarrow> bool" where
  "is_boolean (JBool _) = True" | "is_boolean _ = False"

fun is_number :: "json \<Rightarrow> bool" where
  "is_number (JNumber _) = True" | "is_number _ = False"

fun is_array :: "json \<Rightarrow> bool" where
  "is_array (JArray _) = True" | "is_array _ = False"

fun is_object :: "json \<Rightarrow> bool" where
  "is_object (JObject _) = True" | "is_object _ = False"

fun is_i64 :: "json \<Rightarrow> bool" where
  "is_i64 (JNumber (PosInt n)) = (unat n < 2 ^ 63)"
| "is_i64 (JNumber (NegInt i)) = True"
| "is_i64 _ = False"

fun is_u64 :: "json \<Rightarrow> bool" where
  "is_u64 (JNumber (PosInt n)) = True"
| "is_u64 _ = False"

fun as_str :: "json \<Rightarrow> string option" where
  "as_str (JString s) = Some s" | "as_str _ = None"

fun as_array :: "json \<Rightarrow> json list option" where
  "as_array (JArray xs) = Some xs" | "as_array _ = None"

fun as_object :: "json \<Rightarrow> (string \<times> json) list option" where
  "as_object (JObject m) = Some m" | "as_object _ = None"

definition json_get :: "json \<Rightarrow> string \<Rightarrow> json option" where
  "json_get v k = (case as_object v of Some m \<Rightarrow> map_of m k | None \<Rightarrow> None)"

section \<open>Object maps\<close>

definition bt_wf :: "(string \<times> 'v) list \<Rightarrow> bool" where
  "bt_wf m \<longleftrightarrow> sorted_wrt (<) (map fst m)"

fun bt_insert :: "string \<Rightarrow> 'v \<Rightarrow> (string \<times> 'v) list \<Rightarrow> (string \<times> 'v) list" where
  "bt_insert k v [] = [(k, v)]"
| "bt_insert k v ((k', v') # m) =
     (if k < k' then (k, v) # (k', v') # m
      else if k = k' then (k, v) # m
      else (k', v') # bt_insert k v m)"

definition bt_remove :: "string \<Rightarrow> (string \<times> 'v) list \<Rightarrow> (string \<times> 'v) list" where
  "bt_remove k m = filter (\<lambda>e. fst e \<noteq> k) m"

lemma map_of_bt_insert [simp]: "map_of (bt_insert k v m) = (map_of m)(k \<mapsto> v)"
  by (induction m) auto

lemma map_of_bt_remove [simp]: "map_of (bt_remove k m) = (map_of m)(k := None)"
  by (induction m) (auto simp: bt_remove_def fun_eq_iff)

lemma set_bt_insert_fst: "fst ` set (bt_insert k v m) = insert k (fst ` set m)"
  by (simp flip: dom_map_of_conv_image_fst)

lemma bt_wf_Nil [simp]: "bt_wf []"
  by (simp add: bt_wf_def)

lemma bt_wf_Cons: "bt_wf (e # m) \<longleftrightarrow> (\<forall>k \<in> fst ` set m. fst e < k) \<and> bt_wf m"
  by (auto simp: bt_wf_def)

lemma bt_wf_insert [simp]: "bt_wf m \<Longrightarrow> bt_wf (bt_insert k v m)"
proof (induction m)
  case Nil
  then show ?case by (simp add: bt_wf_Cons)
next
  case (Cons e m)
  obtain k' v' where e: "e = (k', v')" by (cases e)
  then have tail: "\<forall>x \<in> fst ` set m. k' < x" "bt_wf (bt_insert k v m)"
    using Cons by (simp_all add: bt_wf_Cons)
  show ?case
  proof (cases k k' rule: linorder_cases)
    case less
    with tail(1) have "\<forall>x \<in> fst ` set m. k < x"
      by (meson order_less_trans)
    with less Cons.prems show ?thesis by (simp add: e bt_wf_Cons)
  next
    case equal
    with Cons.prems show ?thesis by (simp add: e bt_wf_Cons)
  next
    case greater
    then have "\<not> k < k'" "k \<noteq> k'"
      by (auto dest: order_less_asym)
    with greater tail show ?thesis
      by (simp add: e bt_wf_Cons set_bt_insert_fst)
  qed
qed

lemma bt_wf_remove [simp]: "bt_wf m \<Longrightarrow> bt_wf (bt_remove k m)"
  by (induction m) (auto simp: bt_wf_def bt_remove_def)

lemma bt_wf_hm_wf: "bt_wf m \<Longrightarrow> hm_wf m"
  by (induction m) (auto simp: bt_wf_def hm_wf_def)

lemma bt_wf_unique:
  assumes "bt_wf m" "bt_wf m'" "map_of m = map_of m'"
  shows "m = m'"
proof -
  have d: "distinct (map fst m)" "distinct (map fst m')"
    using assms(1,2) bt_wf_hm_wf by (auto simp: hm_wf_def)
  have "set m = set m'"
    using map_of_inject_set [OF d] assms(3) by blast
  then have keys: "set (map fst m) = set (map fst m')" and set: "set m = set m'"
    by simp_all
  have "sorted (map fst m)" "sorted (map fst m')"
    using assms(1,2) by (auto simp: bt_wf_def strict_sorted_iff)
  then have "map fst m = map fst m'"
    using d keys by (intro sorted_distinct_set_unique)
  moreover have "map (\<lambda>k. (k, the (map_of m k))) (map fst m) = m"
    and "map (\<lambda>k. (k, the (map_of m' k))) (map fst m') = m'"
    using d by (auto intro!: map_idI)
  ultimately show ?thesis
    using assms(3) by metis
qed

lemma bt_insert_commute:
  "k \<noteq> k' \<Longrightarrow> bt_insert k v (bt_insert k' v' m) = bt_insert k' v' (bt_insert k v m)"
  by (induction m) auto

end
