(* ===== verification/Schema_Def.thy ===== *)
theory Schema_Def
  imports Json
begin

text \<open>
  The data model of \<open>src/schema/definition.rs\<close>: field types, field definitions and
  index definitions. Field names of the records carry the prefix \<open>fd_\<close> or
  \<open>idx_\<close>, because HOL records declare them globally.
\<close>

datatype SchemaMode = Strict | DropUnmapped | Dynamic

datatype PartitionStrategy = PartitionNone | Daily | Hourly | Monthly

datatype CompressionOption = CompressionNone | Zstd | Lz4

datatype FieldType = Text | Keyword | Datetime | Integer | FloatField | Boolean | Bytes

record FieldDefinition =
  fd_field_type :: FieldType
  fd_indexed :: bool
  fd_stored :: bool
  fd_fast :: bool
  fd_optional :: bool
  fd_default :: "json option"

record IndexDefinition =
  idx_name :: string
  idx_description :: "string option"
  idx_timestamp_field :: string
  idx_mode :: SchemaMode
  idx_partition :: PartitionStrategy
  idx_retention :: "string option"
  idx_compression :: CompressionOption
  idx_fields :: "(string \<times> FieldDefinition) list"
  idx_settings :: "(string \<times> json) list"

text \<open>The serde defaults of the two structures.\<close>

definition default_timestamp_field :: string where
  "default_timestamp_field = ''timestamp''"

definition default_mode :: SchemaMode where
  "default_mode = Dynamic"

definition default_partition :: PartitionStrategy where
  "default_partition = PartitionNone"

definition default_compression :: CompressionOption where
  "default_compression = Zstd"

text \<open>
  What serde's derived deserialiser fills in for an entry that names only its type, and for a
  document that names only the index and its fields.
\<close>

definition field_of_type :: "FieldType \<Rightarrow> FieldDefinition" where
  "field_of_type ty =
     \<lparr>fd_field_type = ty, fd_indexed = False, fd_stored = False, fd_fast = False,
      fd_optional = False, fd_default = None\<rparr>"

definition index_of_fields ::
    "string \<Rightarrow> (string \<times> FieldDefinition) list \<Rightarrow> IndexDefinition" where
  "index_of_fields n fs =
     \<lparr>idx_name = n, idx_description = None, idx_timestamp_field = default_timestamp_field,
      idx_mode = default_mode, idx_partition = default_partition, idx_retention = None,
      idx_compression = default_compression, idx_fields = fs, idx_settings = []\<rparr>"

text \<open>Both maps of a definition have distinct keys: the type's invariant.\<close>

definition idx_wf :: "IndexDefinition \<Rightarrow> bool" where
  "idx_wf d \<longleftrightarrow> hm_wf (idx_fields d) \<and> hm_wf (idx_settings d)"

end
