(* ===== verification/Schema_Valid.thy ===== *)
theory Schema_Valid
  imports Schema_Def
begin

text \<open>
  \<open>src/schema/validation.rs\<close> and the two methods of \<open>IndexDefinition\<close>
  that call it: the check a definition passes before it is registered, and the loading of a
  definition file. The exact language of retention strings and every outcome of the check are
  characterised; the check panics on a retention string that ends in a multi-byte character.
\<close>

section \<open>Errors\<close>

text \<open>The kinds of \<open>std::io::Error\<close> the program distinguishes.\<close>

datatype io_error =
    IoNotFound | IoPermissionDenied | IoAlreadyExists | IoInterrupted
  | IoUnexpectedEof | IoInvalidData | IoOther

datatype ValidationError =
    MissingTimestampField string
  | InvalidRetentionFormat string
  | IoError io_error
  | YamlError string

section \<open>The check\<close>

definition is_retention_unit :: "string \<Rightarrow> bool" where
  "is_retention_unit u \<longleftrightarrow> u \<in> {''s'', ''m'', ''h'', ''d'', ''w'', ''M'', ''y''}"

definition is_valid_retention :: "string \<Rightarrow> bool run" where
  "is_valid_retention retention =
     (if retention = [] then Ret False
      else run_bind (split_at retention (length retention - 1))
        (\<lambda>(num_part, unit_part).
           Ret (parse_u64 num_part \<noteq> None \<and> is_retention_unit unit_part)))"

definition validate_schema :: "IndexDefinition \<Rightarrow> (ValidationError + unit) run" where
  "validate_schema d =
     (if idx_partition d \<noteq> PartitionNone \<and>
         \<not> hm_contains_key (idx_fields d) (idx_timestamp_field d)
      then Ret (Inl (MissingTimestampField (idx_timestamp_field d)))
      else
        (case idx_retention d of
           None \<Rightarrow> Ret (Inr ())
         | Some retention \<Rightarrow>
             run_bind (is_valid_retention retention)
               (\<lambda>ok. if ok then Ret (Inr ()) else Ret (Inl (InvalidRetentionFormat retention)))))"

definition validate :: "IndexDefinition \<Rightarrow> (ValidationError + unit) run" where
  "validate d = validate_schema d"

text \<open>
  \<open>from_file\<close>: the outcome of reading the file and the YAML parser are arguments.
\<close>

definition from_file ::
    "(string \<Rightarrow> string + IndexDefinition) \<Rightarrow> io_error + string \<Rightarrow>
     (ValidationError + IndexDefinition) run" where
  "from_file yaml read_to_string =
     (case read_to_string of
        Inl e \<Rightarrow> Ret (Inl (IoError e))
      | Inr content \<Rightarrow>
          (case yaml content of
             Inl e \<Rightarrow> Ret (Inl (YamlError e))
           | Inr d \<Rightarrow>
               run_bind (validate_schema d)
                 (\<lambda>r. case r of Inl e \<Rightarrow> Ret (Inl e) | Inr _ \<Rightarrow> Ret (Inr d))))"

section \<open>Decimal numerals\<close>

definition decimal_digit :: "char \<Rightarrow> bool" where
  "decimal_digit c \<longleftrightarrow> CHR ''0'' \<le> c \<and> c \<le> CHR ''9''"

definition decimal :: "string \<Rightarrow> nat" where
  "decimal ds = foldl (\<lambda>n c. 10 * n + (of_char c - of_char (CHR ''0''))) 0 ds"

lemma to_digit_10: "to_digit 10 c = (if decimal_digit c then Some (of_char c - 48) else None)"
  by (auto simp: to_digit_def digit_val_def decimal_digit_def less_eq_char_def Let_def)

lemma digits_value_10:
  "digits_value 10 acc ds =
    (if list_all decimal_digit ds
     then Some (foldl (\<lambda>n c. 10 * n + (of_char c - of_char (CHR ''0''))) acc ds) else None)"
  by (induction ds arbitrary: acc) (auto simp: to_digit_10 mult.commute)

lemma magnitude_10:
  "magnitude 10 ds =
    (if ds \<noteq> [] \<and> list_all decimal_digit ds then Some (decimal ds) else None)"
  by (simp add: magnitude_def digits_value_10 decimal_def)

lemma parse_u64_Some:
  "parse_u64 s = Some n \<longleftrightarrow>
    (let ds = strip_plus s in
     ds \<noteq> [] \<and> list_all decimal_digit ds \<and> decimal ds < 2 ^ 64 \<and> n = of_nat (decimal ds))"
  by (auto simp: parse_u64_def from_str_radix_u64_def magnitude_10 Let_def)

lemma strip_plus_digits: "list_all decimal_digit ds \<Longrightarrow> strip_plus ds = ds"
  by (cases ds) (auto simp: strip_plus_def decimal_digit_def less_eq_char_def)

lemma strip_plus_plus [simp]: "strip_plus (CHR ''+'' # ds) = ds"
  by (simp add: strip_plus_def)

lemma strip_plus_cases: "s = strip_plus s \<or> s = CHR ''+'' # strip_plus s"
  by (cases s) (auto simp: strip_plus_def)

section \<open>Retention strings\<close>

lemma unit_not_continuation: "is_retention_unit [u] \<Longrightarrow> \<not> continuation (of_char u)"
  by (auto simp: is_retention_unit_def continuation_def)

lemma is_valid_retention_eq:
  "is_valid_retention s =
    (if s = [] then Ret False
     else if length s = 1 \<or> \<not> continuation (of_char (last s))
     then Ret (parse_u64 (butlast s) \<noteq> None \<and> is_retention_unit [last s])
     else Panicked)"
  using split_at_last [of s] by (simp add: is_valid_retention_def del: One_nat_def)

lemma is_valid_retention_True_iff [run_simps]:
  "is_valid_retention s = Ret True \<longleftrightarrow>
    (\<exists>num u. s = num @ [u] \<and> parse_u64 num \<noteq> None \<and> is_retention_unit [u])"
proof (cases s rule: rev_cases)
  case (snoc num u)
  then show ?thesis
    using unit_not_continuation [of u] by (auto simp: is_valid_retention_eq)
qed (simp add: is_valid_retention_def)

lemma is_valid_retention_Panicked_iff [run_simps]:
  "is_valid_retention s = Panicked \<longleftrightarrow> 1 < length s \<and> continuation (of_char (last s))"
  by (cases s) (auto simp: is_valid_retention_eq)

text \<open>The accepted language, stated on its own: sign, digits, unit.\<close>

definition retention_form :: "string \<Rightarrow> bool" where
  "retention_form s \<longleftrightarrow>
    (\<exists>sign ds u. s = sign @ ds @ [u] \<and> sign \<in> {[], ''+''} \<and> ds \<noteq> [] \<and>
       list_all decimal_digit ds \<and> decimal ds < 2 ^ 64 \<and> u \<in> set ''smhdwMy'')"

lemma retention_unit_set: "is_retention_unit [u] \<longleftrightarrow> u \<in> set ''smhdwMy''"
  by (auto simp: is_retention_unit_def)

lemma parse_u64_form:
  "(\<exists>n. parse_u64 s = Some n) \<longleftrightarrow>
    (\<exists>sign ds. s = sign @ ds \<and> sign \<in> {[], ''+''} \<and> ds \<noteq> [] \<and>
       list_all decimal_digit ds \<and> decimal ds < 2 ^ 64)"
proof
  assume "\<exists>n. parse_u64 s = Some n"
  then have ds: "strip_plus s \<noteq> []" "list_all decimal_digit (strip_plus s)"
      "decimal (strip_plus s) < 2 ^ 64"
    by (auto simp: parse_u64_Some Let_def)
  have "s = [] @ strip_plus s \<or> s = ''+'' @ strip_plus s"
    using strip_plus_cases [of s] by simp
  with ds show "\<exists>sign ds. s = sign @ ds \<and> sign \<in> {[], ''+''} \<and> ds \<noteq> [] \<and>
       list_all decimal_digit ds \<and> decimal ds < 2 ^ 64"
    by blast
next
  assume "\<exists>sign ds. s = sign @ ds \<and> sign \<in> {[], ''+''} \<and> ds \<noteq> [] \<and>
       list_all decimal_digit ds \<and> decimal ds < 2 ^ 64"
  then show "\<exists>n. parse_u64 s = Some n"
    by (auto simp: parse_u64_Some strip_plus_digits)
qed

lemma ex_append_snoc:
  "(\<exists>num u. s = num @ [u] \<and> (\<exists>a b. num = a @ b \<and> P a b) \<and> Q u) \<longleftrightarrow>
   (\<exists>a b u. s = a @ b @ [u] \<and> P a b \<and> Q u)"
  by (rule iffI; elim exE conjE; hypsubst?; intro exI conjI) simp_all

lemma retention_form_iff: "is_valid_retention s = Ret True \<longleftrightarrow> retention_form s"
  unfolding retention_form_def is_valid_retention_True_iff retention_unit_set not_None_eq
    parse_u64_form ex_append_snoc by simp

lemma is_valid_retention_outcomes:
  "is_valid_retention s =
    (if 1 < length s \<and> continuation (of_char (last s)) then Panicked
     else Ret (retention_form s))"
  unfolding retention_form_iff [symmetric] is_valid_retention_Panicked_iff [symmetric]
  by (cases "is_valid_retention s") auto

text \<open>
  C24. Every outcome of the check of a definition: a missing timestamp field is reported before
  anything else; a retention string that ends inside a multi-byte character makes the check
  panic, so such a definition aborts the server; any other retention string is accepted or
  reported as it is in the accepted language or not.
\<close>

theorem validate_schema_outcomes:
  "validate_schema d =
    (if idx_partition d \<noteq> PartitionNone \<and>
        idx_timestamp_field d \<notin> fst ` set (idx_fields d)
     then Ret (Inl (MissingTimestampField (idx_timestamp_field d)))
     else case idx_retention d of
       None \<Rightarrow> Ret (Inr ())
     | Some r \<Rightarrow>
         if 1 < length r \<and> continuation (of_char (last r)) then Panicked
         else if retention_form r
         then Ret (Inr ()) else Ret (Inl (InvalidRetentionFormat r)))"
  by (simp add: validate_schema_def hm_contains_key_iff is_valid_retention_outcomes
      split: option.split)

end
