(* ===== verification/Wal_Frame.thy ===== *)
theory Wal_Frame
  imports Schema_Valid
begin

text \<open>
  The frame format of \<open>src/wal.rs\<close> and the reader that recovers events from a log
  file. CRC32 comes from a library and is a parameter. Reading back what was written is a
  round trip for every event whose lengths fit their fields; a longer index name or payload
  breaks the framing, and a stored checksum is never looked at.
\<close>

section \<open>Little-endian integers\<close>

fun to_le_bytes :: "nat \<Rightarrow> nat \<Rightarrow> u8 list" where
  "to_le_bytes 0 n = []"
| "to_le_bytes (Suc k) n = of_nat n # to_le_bytes k (n div 256)"

fun from_le_bytes :: "u8 list \<Rightarrow> nat" where
  "from_le_bytes [] = 0"
| "from_le_bytes (b # bs) = unat b + 256 * from_le_bytes bs"

definition u16_to_le :: "u16 \<Rightarrow> u8 list" where
  "u16_to_le w = to_le_bytes 2 (unat w)"

definition u32_to_le :: "u32 \<Rightarrow> u8 list" where
  "u32_to_le w = to_le_bytes 4 (unat w)"

lemma length_to_le_bytes [simp]: "length (to_le_bytes k n) = k"
  by (induction k arbitrary: n) simp_all

lemma from_to_le_bytes: "from_le_bytes (to_le_bytes k n) = n mod 256 ^ k"
proof (induction k arbitrary: n)
  case 0
  then show ?case by simp
next
  case (Suc k)
  have "from_le_bytes (to_le_bytes (Suc k) n) = n mod 256 + 256 * (n div 256 mod 256 ^ k)"
    using Suc.IH by (simp add: unat_of_nat)
  also have "\<dots> = n mod (256 * 256 ^ k)"
    by (simp add: mod_mult2_eq)
  finally show ?case by simp
qed

lemma length_le [simp]: "length (u16_to_le a) = 2" "length (u32_to_le b) = 4"
  by (simp_all add: u16_to_le_def u32_to_le_def)

lemma from_u16_to_le [simp]: "from_le_bytes (u16_to_le w) = unat w"
  using unsigned_less [where 'a = nat, of w] by (simp add: u16_to_le_def from_to_le_bytes)

lemma from_u32_to_le [simp]: "from_le_bytes (u32_to_le w) = unat w"
  using unsigned_less [where 'a = nat, of w] by (simp add: u32_to_le_def from_to_le_bytes)

section \<open>Frames\<close>

record IngestEvent =
  ev_index :: string
  ev_payload :: "u8 list"

text \<open>
  The five pieces the appender writes for one event, in order: the length of the index name
  cut to 16 bits, the name, the length of the payload cut to 32 bits, the payload, and the
  checksum of name and payload.
\<close>

definition frame_parts :: "(u8 list \<Rightarrow> u32) \<Rightarrow> IngestEvent \<Rightarrow> u8 list list" where
  "frame_parts crc ev =
     (let index_bytes = as_bytes (ev_index ev); payload_bytes = ev_payload ev in
      [u16_to_le (of_nat (length index_bytes)), index_bytes,
       u32_to_le (of_nat (length payload_bytes)), payload_bytes,
       u32_to_le (crc (index_bytes @ payload_bytes))])"

definition encode_frame :: "(u8 list \<Rightarrow> u32) \<Rightarrow> IngestEvent \<Rightarrow> u8 list" where
  "encode_frame crc ev = concat (frame_parts crc ev)"

definition frame_len :: "IngestEvent \<Rightarrow> nat" where
  "frame_len ev = 2 + length (as_bytes (ev_index ev)) + 4 + length (ev_payload ev) + 4"

lemma length_encode_frame: "length (encode_frame crc ev) = frame_len ev"
  by (simp add: encode_frame_def frame_parts_def frame_len_def Let_def)

section \<open>The reader\<close>

text \<open>What is left of the file at the reader's position, and the offset it reports.\<close>

record wal_reader =
  rd_rest :: "u8 list"
  rd_current_offset :: u64

definition wal_reader_new :: "u8 list \<Rightarrow> u64 \<Rightarrow> wal_reader" where
  "wal_reader_new file start_offset =
     \<lparr>rd_rest = drop (unat start_offset) file, rd_current_offset = start_offset\<rparr>"

text \<open>\<open>WalReader::new\<close>: opening and seeking may fail.\<close>

definition wal_reader_open ::
    "io_error + u8 list \<Rightarrow> io_error option \<Rightarrow> u64 \<Rightarrow> io_error + wal_reader" where
  "wal_reader_open opened seeked start_offset =
     (case opened of
        Inl e \<Rightarrow> Inl e
      | Inr file \<Rightarrow>
          (case seeked of Some e \<Rightarrow> Inl e | None \<Rightarrow> Inr (wal_reader_new file start_offset)))"

text \<open>
  \<open>read_exact\<close> on a file: the next \<open>n\<close> bytes, or an error at the end of the
  file with everything consumed.
\<close>

definition read_exact :: "nat \<Rightarrow> u8 list \<Rightarrow> u8 list \<times> u8 list option" where
  "read_exact n bs = (if length bs < n then ([], None) else (drop n bs, Some (take n bs)))"

definition next_frame ::
    "wal_reader \<Rightarrow> wal_reader \<times> (io_error + (IngestEvent \<times> u64) option)" where
  "next_frame r =
     (let len_buf = take 2 (rd_rest r); rest0 = drop 2 (rd_rest r) in
      if len_buf = [] then (r, Inr None)
      else if length len_buf < 2 then (r\<lparr>rd_rest := rest0\<rparr>, Inl IoUnexpectedEof)
      else
        let idx_len = from_le_bytes len_buf in
        case read_exact idx_len rest0 of
          (rest1, None) \<Rightarrow> (r\<lparr>rd_rest := rest1\<rparr>, Inl IoUnexpectedEof)
        | (rest1, Some idx_buf) \<Rightarrow>
            (case from_utf8 idx_buf of
               None \<Rightarrow> (r\<lparr>rd_rest := rest1\<rparr>, Inl IoInvalidData)
             | Some index \<Rightarrow>
                 (case read_exact 4 rest1 of
                    (rest2, None) \<Rightarrow> (r\<lparr>rd_rest := rest2\<rparr>, Inl IoUnexpectedEof)
                  | (rest2, Some plen_buf) \<Rightarrow>
                      let p_len = from_le_bytes plen_buf in
                      (case read_exact p_len rest2 of
                         (rest3, None) \<Rightarrow> (r\<lparr>rd_rest := rest3\<rparr>, Inl IoUnexpectedEof)
                       | (rest3, Some payload) \<Rightarrow>
                           (case read_exact 4 rest3 of
                              (rest4, None) \<Rightarrow> (r\<lparr>rd_rest := rest4\<rparr>, Inl IoUnexpectedEof)
                            | (rest4, Some crc_buf) \<Rightarrow>
                                let frame_size = 2 + idx_len + 4 + p_len + 4;
                                    offset = rd_current_offset r + of_nat frame_size
                                in (\<lparr>rd_rest = rest4, rd_current_offset = offset\<rparr>,
                                    Inr (Some (\<lparr>ev_index = index, ev_payload = payload\<rparr>, offset))))))))"

text \<open>An event whose parts fit their length fields and whose index is a string.\<close>

definition frame_ok :: "IngestEvent \<Rightarrow> bool" where
  "frame_ok ev \<longleftrightarrow>
     is_str (ev_index ev) \<and> length (ev_index ev) < 2 ^ 16 \<and> length (ev_payload ev) < 2 ^ 32"

lemma read_exact_append [simp]: "n = length bs \<Longrightarrow> read_exact n (bs @ r) = (r, Some bs)"
  by (simp add: read_exact_def)

lemma read_exact_short: "length bs < n \<Longrightarrow> read_exact n bs = ([], None)"
  by (simp add: read_exact_def)

lemma u16_to_le_neq_Nil [simp]: "u16_to_le w \<noteq> []"
  using length_le(1) [of w] by fastforce

lemma next_frame_parts:
  assumes "is_str idx" "length idx = unat n" "length payload = unat m" "length crc_buf = 4"
  shows "next_frame \<lparr>rd_rest = u16_to_le n @ as_bytes idx @ u32_to_le m @ payload @ crc_buf @ rest,
             rd_current_offset = off\<rparr> =
    (let off' = off + of_nat (10 + length idx + length payload) in
     (\<lparr>rd_rest = rest, rd_current_offset = off'\<rparr>,
      Inr (Some (\<lparr>ev_index = idx, ev_payload = payload\<rparr>, off'))))"
  using assms by (simp add: next_frame_def Let_def from_utf8_as_bytes algebra_simps)

lemma frame_ok_lengths:
  assumes "frame_ok ev"
  shows "unat (of_nat (length (ev_index ev)) :: u16) = length (ev_index ev)"
    and "unat (of_nat (length (ev_payload ev)) :: u32) = length (ev_payload ev)"
  using assms by (simp_all add: frame_ok_def unat_of_nat)

text \<open>What the appender adds to its offset for an event, and the reader after it.\<close>

definition advance :: "u64 \<Rightarrow> IngestEvent \<Rightarrow> u64" where
  "advance off ev = off + of_nat (frame_len ev)"

lemma next_frame_encode:
  assumes "frame_ok ev"
  shows "next_frame \<lparr>rd_rest = encode_frame crc ev @ rest, rd_current_offset = off\<rparr> =
    (\<lparr>rd_rest = rest, rd_current_offset = advance off ev\<rparr>, Inr (Some (ev, advance off ev)))"
proof -
  let ?idx = "ev_index ev" and ?pl = "ev_payload ev"
  have "encode_frame crc ev @ rest =
      u16_to_le (of_nat (length ?idx)) @ as_bytes ?idx @ u32_to_le (of_nat (length ?pl)) @ ?pl @
      u32_to_le (crc (as_bytes ?idx @ ?pl)) @ rest"
    by (simp add: encode_frame_def frame_parts_def Let_def)
  then show ?thesis
    using next_frame_parts [of ?idx "of_nat (length ?idx)" ?pl "of_nat (length ?pl)"
        "u32_to_le (crc (as_bytes ?idx @ ?pl))" rest off]
      assms frame_ok_lengths [OF assms]
    by (simp add: frame_ok_def advance_def frame_len_def Let_def add.commute add.left_commute)
qed

text \<open>A frame cut short by a crash: an error, unless nothing of it was written.\<close>

lemma next_frame_torn:
  assumes "frame_ok ev" "0 < k" "k < frame_len ev"
  shows "\<exists>r'. next_frame \<lparr>rd_rest = take k (encode_frame crc ev), rd_current_offset = off\<rparr> =
    (r', Inl IoUnexpectedEof)"
proof -
  let ?idx = "ev_index ev" and ?pl = "ev_payload ev"
  let ?a = "length ?idx" and ?b = "length ?pl"
  note len = frame_ok_lengths [OF assms(1)]
  have str: "is_str ?idx"
    using assms(1) by (simp add: frame_ok_def)
  have frame: "encode_frame crc ev =
      u16_to_le (of_nat ?a) @ as_bytes ?idx @ u32_to_le (of_nat ?b) @ ?pl @
      u32_to_le (crc (as_bytes ?idx @ ?pl))"
    by (simp add: encode_frame_def frame_parts_def Let_def)
  have k: "k < 10 + ?a + ?b"
    using assms(3) by (simp add: frame_len_def)
  consider "k = 1" | "2 \<le> k" "k < 2 + ?a" | "2 + ?a \<le> k" "k < 6 + ?a"
    | "6 + ?a \<le> k" "k < 6 + ?a + ?b" | "6 + ?a + ?b \<le> k"
    using assms(2) by linarith
  then show ?thesis
  proof cases
    case 1
    then show ?thesis
      by (simp add: frame next_frame_def Let_def)
  next
    case 2
    then show ?thesis
      by (simp add: frame next_frame_def Let_def len read_exact_short)
  next
    case 3
    then show ?thesis
      by (simp add: frame next_frame_def Let_def len read_exact_short from_utf8_as_bytes str)
  next
    case 4
    then show ?thesis
      by (simp add: frame next_frame_def Let_def len read_exact_short from_utf8_as_bytes str)
  next
    case 5
    with k show ?thesis
      by (simp add: frame next_frame_def Let_def len read_exact_short from_utf8_as_bytes str)
  qed
qed

section \<open>Reading a whole log\<close>

text \<open>
  The loop of a recovery: ask for the next frame until the reader reports the end of the file
  or an error. The result is the list of items and the error, \<open>None\<close> if the fuel runs out.
\<close>

fun read_log :: "('r \<Rightarrow> 'r \<times> ('e + 'i option)) \<Rightarrow> nat \<Rightarrow> 'r \<Rightarrow> ('i list \<times> 'e option) option" where
  "read_log nxt 0 r = None"
| "read_log nxt (Suc fuel) r =
     (case nxt r of
        (_, Inl e) \<Rightarrow> Some ([], Some e)
      | (_, Inr None) \<Rightarrow> Some ([], None)
      | (r', Inr (Some i)) \<Rightarrow>
          map_option (\<lambda>(is, e). (i # is, e)) (read_log nxt fuel r'))"

text \<open>Each element with the offset reached after it.\<close>

fun stamped :: "('o \<Rightarrow> 'a \<Rightarrow> 'o) \<Rightarrow> 'o \<Rightarrow> 'a list \<Rightarrow> ('a \<times> 'o) list" where
  "stamped adv off [] = []"
| "stamped adv off (x # xs) = (x, adv off x) # stamped adv (adv off x) xs"

lemma map_fst_stamped [simp]: "map fst (stamped adv off xs) = xs"
  by (induction xs arbitrary: off) simp_all

lemma stamped_append:
  "stamped adv off (xs @ ys) = stamped adv off xs @ stamped adv (foldl adv off xs) ys"
  by (induction xs arbitrary: off) simp_all

text \<open>
  The contract between a log's writer and its reader: at the end of the file the reader says
  so, an encoded item is read back with the next offset, and a proper, non-empty part of an
  encoded item at the end of the file is an error.
\<close>

locale framed_log =
  fixes nxt :: "'r \<Rightarrow> 'r \<times> ('e + ('a \<times> 'o) option)"
    and at :: "'b list \<Rightarrow> 'o \<Rightarrow> 'r"
    and enc :: "'a \<Rightarrow> 'b list"
    and adv :: "'o \<Rightarrow> 'a \<Rightarrow> 'o"
    and ok :: "'a \<Rightarrow> bool"
  assumes nxt_end: "\<exists>r'. nxt (at [] off) = (r', Inr None)"
    and nxt_enc: "ok x \<Longrightarrow>
      nxt (at (enc x @ rest) off) = (at rest (adv off x), Inr (Some (x, adv off x)))"
    and nxt_torn: "ok x \<Longrightarrow> 0 < k \<Longrightarrow> k < length (enc x) \<Longrightarrow>
      \<exists>r' e. nxt (at (take k (enc x)) off) = (r', Inl e)"
begin

lemma read_log_append:
  "list_all ok xs \<Longrightarrow>
   read_log nxt (length xs + fuel) (at (concat (map enc xs) @ rest) off) =
     map_option (\<lambda>(is, e). (stamped adv off xs @ is, e))
       (read_log nxt fuel (at rest (foldl adv off xs)))"
proof (induction xs arbitrary: off)
  case Nil
  then show ?case by (simp add: option.map_ident split_def)
next
  case (Cons x xs)
  then show ?case
    by (simp add: nxt_enc option.map_comp comp_def split_def)
qed

lemma read_back:
  assumes "list_all ok xs"
  shows "read_log nxt (Suc (length xs)) (at (concat (map enc xs)) off) =
    Some (stamped adv off xs, None)"
proof -
  obtain r' where "nxt (at [] (foldl adv off xs)) = (r', Inr None)"
    using nxt_end by blast
  then show ?thesis
    using read_log_append [OF assms, of "Suc 0" "[]" off] by simp
qed

lemma read_torn:
  assumes "list_all ok xs" "ok x" "0 < k" "k < length (enc x)"
  shows "\<exists>e. read_log nxt (Suc (length xs)) (at (concat (map enc xs) @ take k (enc x)) off) =
    Some (stamped adv off xs, Some e)"
proof -
  obtain r' e where "nxt (at (take k (enc x)) (foldl adv off xs)) = (r', Inl e)"
    using nxt_torn [OF assms(2-4)] by blast
  then show ?thesis
    using read_log_append [OF assms(1), of "Suc 0" "take k (enc x)" off] by simp
qed

end

interpretation wal_log: framed_log next_frame
    "\<lambda>bs off. \<lparr>rd_rest = bs, rd_current_offset = off\<rparr>" "encode_frame crc" advance frame_ok
  for crc
proof
  show "\<exists>r'. next_frame \<lparr>rd_rest = [], rd_current_offset = off\<rparr> = (r', Inr None)" for off
    by (simp add: next_frame_def)
  show "\<exists>r' e. next_frame \<lparr>rd_rest = take k (encode_frame crc x), rd_current_offset = off\<rparr> =
      (r', Inl e)" if "frame_ok x" "0 < k" "k < length (encode_frame crc x)" for x k off
    using next_frame_torn [OF that(1,2)] that(3) by (simp add: length_encode_frame) blast
qed (rule next_frame_encode)

text \<open>
  C31. A log that holds whole frames is read back exactly, each event with the offset after its
  frame. When a crash cut the last frame short, all the frames before it are still read back
  and the reader then reports an error.
\<close>

theorem wal_read_back:
  assumes "list_all frame_ok evs" "frame_ok ev" "k < frame_len ev"
  shows "\<exists>err. read_log next_frame (Suc (length evs))
      (wal_reader_new (concat (map (encode_frame crc) evs) @ take k (encode_frame crc ev)) 0) =
    Some (stamped advance 0 evs, err) \<and> (err = None \<longleftrightarrow> k = 0)"
proof (cases "k = 0")
  case True
  then show ?thesis
    using wal_log.read_back [OF assms(1)] by (simp add: wal_reader_new_def)
next
  case False
  then show ?thesis
    using wal_log.read_torn [OF assms(1,2)] assms(3)
    by (simp add: wal_reader_new_def length_encode_frame) blast
qed

section \<open>Limits of the format\<close>

text \<open>
  The checksum written with a frame plays no part when it is read: with any four bytes in
  its place the reader returns the same event and offset, so corruption goes unnoticed.
\<close>

theorem checksum_not_verified:
  assumes "frame_ok ev" "length c = 4"
  shows "next_frame \<lparr>rd_rest = concat (butlast (frame_parts crc ev)) @ c @ rest,
             rd_current_offset = off\<rparr> =
    next_frame \<lparr>rd_rest = encode_frame crc ev @ rest, rd_current_offset = off\<rparr>"
proof -
  let ?idx = "ev_index ev" and ?pl = "ev_payload ev"
  have "concat (butlast (frame_parts crc ev)) @ c @ rest =
      u16_to_le (of_nat (length ?idx)) @ as_bytes ?idx @ u32_to_le (of_nat (length ?pl)) @ ?pl @
      c @ rest"
    by (simp add: frame_parts_def Let_def)
  then show ?thesis
    using next_frame_parts [of ?idx "of_nat (length ?idx)" ?pl "of_nat (length ?pl)" c rest off]
      assms frame_ok_lengths [OF assms(1)]
    by (simp add: next_frame_encode frame_ok_def advance_def frame_len_def Let_def
        add.commute add.left_commute)
qed

lemma from_le_bytes_less: "from_le_bytes bs < 256 ^ length bs"
proof (induction bs)
  case Nil
  then show ?case by simp
next
  case (Cons b bs)
  have "unat b < 256"
    using unsigned_less [where 'a = nat, of b] by simp
  with Cons show ?case by simp
qed

lemma read_exact_SomeD: "read_exact n bs = (r, Some x) \<Longrightarrow> length x = n \<and> bs = x @ r"
  by (auto simp: read_exact_def split: if_splits)

lemma from_utf8_length: "from_utf8 bs = Some s \<Longrightarrow> length s = length bs"
  by (auto simp: from_utf8_def str_of_bytes_def split: if_splits)

lemma next_frame_SomeD:
  assumes "next_frame r = (r', Inr (Some (ev, off)))"
  shows "length (ev_index ev) < 2 ^ 16 \<and> length (ev_payload ev) < 2 ^ 32 \<and>
    length (rd_rest r) = length (rd_rest r') + frame_len ev"
proof -
  let ?len = "take 2 (rd_rest r)"
  from assms obtain rest1 idx rest2 plen rest3 rest4 c where
      len: "length ?len = 2" and
      idx: "read_exact (from_le_bytes ?len) (drop 2 (rd_rest r)) = (rest1, Some idx)" and
      plen: "read_exact 4 rest1 = (rest2, Some plen)" and
      pl: "read_exact (from_le_bytes plen) rest2 = (rest3, Some (ev_payload ev))" and
      crc: "read_exact 4 rest3 = (rest4, Some c)" and
      ev: "from_utf8 idx = Some (ev_index ev)" and r': "rd_rest r' = rest4"
    by (auto simp: next_frame_def Let_def split: if_splits option.splits prod.splits)
  note parts = read_exact_SomeD [OF idx] read_exact_SomeD [OF plen] read_exact_SomeD [OF pl]
    read_exact_SomeD [OF crc] from_utf8_length [OF ev]
  have "length (drop 2 (rd_rest r)) + 2 = length (rd_rest r)"
    using len by simp
  moreover have "from_le_bytes ?len < 2 ^ 16" "from_le_bytes plen < 2 ^ 32"
    using from_le_bytes_less [of ?len] from_le_bytes_less [of plen] len parts by simp_all
  ultimately show ?thesis
    using parts r' by (simp add: frame_len_def)
qed

text \<open>
  An event whose index name needs more than 16 bits for its length, or whose payload
  needs more than 32, is written but never read back: the lengths are cut when they are
  stored, so no read at its frame returns it.
\<close>

theorem oversized_event_lost:
  assumes "2 ^ 16 \<le> length (ev_index ev) \<or> 2 ^ 32 \<le> length (ev_payload ev)"
  shows "next_frame \<lparr>rd_rest = encode_frame crc ev @ rest, rd_current_offset = off\<rparr> \<noteq>
    (r', Inr (Some (ev, off')))"
  using assms next_frame_SomeD [of "\<lparr>rd_rest = encode_frame crc ev @ rest, rd_current_offset = off\<rparr>"]
  by (meson not_le)

lemma read_log_ends:
  "\<exists>evs err. read_log next_frame (Suc (length (rd_rest r))) r = Some (evs, err) \<and>
     sum_list (map (frame_len \<circ> fst) evs) \<le> length (rd_rest r)"
proof -
  have "\<exists>evs err. read_log next_frame fuel r = Some (evs, err) \<and>
      sum_list (map (frame_len \<circ> fst) evs) \<le> length (rd_rest r)"
    if "length (rd_rest r) < fuel" for fuel
    using that
  proof (induction fuel arbitrary: r)
    case 0
    then show ?case by simp
  next
    case (Suc fuel)
    obtain r' res where nf: "next_frame r = (r', res)" by fastforce
    show ?case
    proof (cases "\<exists>ev off. res = Inr (Some (ev, off))")
      case True
      then obtain ev off where res: "res = Inr (Some (ev, off))" by blast
      have len: "length (rd_rest r) = length (rd_rest r') + frame_len ev"
        using next_frame_SomeD nf res by blast
      then have "length (rd_rest r') < fuel"
        using Suc.prems by (simp add: frame_len_def)
      with Suc.IH [of r'] len nf res show ?thesis by auto
    next
      case False
      with nf show ?thesis by (auto split: sum.splits option.splits)
    qed
  qed
  then show ?thesis by blast
qed

text \<open>
  C35. On any file contents, well formed or not, the recovery loop ends: one step more than the
  file has bytes is enough fuel, and the events it returns fit in the file.
\<close>

theorem read_log_terminates:
  "\<exists>evs err. read_log next_frame (Suc (length (rd_rest r))) r = Some (evs, err) \<and>
     sum_list (map (frame_len \<circ> fst) evs) \<le> length (rd_rest r)"
  by (rule read_log_ends)

section \<open>Witnesses\<close>

definition ev1 :: IngestEvent where
  "ev1 = \<lparr>ev_index = ''idx1'', ev_payload = [100, 97, 116, 97]\<rparr>"

lemma ev1_ok: "frame_ok ev1"
  by (simp add: ev1_def frame_ok_def is_ascii_is_str is_ascii_def)

theorem wal_read_back_witness:
  "\<exists>err. read_log next_frame 2
      (wal_reader_new (encode_frame (\<lambda>_. 7) ev1 @ take 5 (encode_frame (\<lambda>_. 7) ev1)) 0) =
    Some ([(ev1, 18)], err) \<and> err \<noteq> None"
  using wal_read_back [of "[ev1]" ev1 5 "\<lambda>_. 7"] ev1_ok
  by (simp add: frame_len_def advance_def numeral_2_eq_2) (simp add: ev1_def)

theorem checksum_not_verified_witness:
  "next_frame \<lparr>rd_rest = concat (butlast (frame_parts (\<lambda>_. 7) ev1)) @ [0, 0, 0, 0],
      rd_current_offset = 0\<rparr> =
   next_frame \<lparr>rd_rest = encode_frame (\<lambda>_. 7) ev1, rd_current_offset = 0\<rparr>"
  using checksum_not_verified [OF ev1_ok, of "[0, 0, 0, 0]" "\<lambda>_. 7" "[]" 0] by simp

theorem oversized_event_lost_witness:
  "\<forall>r. next_frame \<lparr>rd_rest = encode_frame (\<lambda>_. 7)
      \<lparr>ev_index = replicate (2 ^ 16) (CHR ''a''), ev_payload = []\<rparr> @ [], rd_current_offset = 0\<rparr> \<noteq>
    (r, Inr (Some (\<lparr>ev_index = replicate (2 ^ 16) (CHR ''a''), ev_payload = []\<rparr>, 0)))"
  by (rule allI, rule oversized_event_lost) simp

end
