(* ===== verification/Wal_Appender.thy ===== *)
theory Wal_Appender
  imports Wal_Frame "HOL-Library.Sublist"
begin

text \<open>
  The appender thread of \<open>src/wal.rs\<close>: batching, buffered writes, flush and sync, file
  rotation, and the answers to the waiting requests. Each call into the operating system takes
  its outcome from a script in the state; theorems hold for every script. The standard
  library's \<open>BufWriter\<close> is modelled with its buffer, because what stays in the buffer
  after an error decides what the next batch writes.
\<close>

section \<open>State\<close>

text \<open>
  The outcome of one system call: success, or an error after the first bytes of a write
  reached the file. A script that has run out means success.
\<close>

datatype io_outcome = IoOk | IoErr nat io_error

text \<open>A file's bytes, and how many of them are known to be on the disk.\<close>

record log_file =
  lf_bytes :: "u8 list"
  lf_synced :: nat

text \<open>
  The fields of the appender and the local variables of its loop. \<open>ws_target\<close> is the file
  the writer has open, which differs from \<open>ws_path\<close> after a failed rotation; \<open>ws_files\<close> is
  the log directory; \<open>ws_io\<close> the script.
\<close>

record wal_state =
  ws_current_offset :: u64
  ws_file_start_offset :: u64
  ws_file_size :: u64
  ws_path :: string
  ws_target :: string
  ws_buf :: "u8 list"
  ws_files :: "string \<Rightarrow> log_file option"
  ws_io :: "io_outcome list"

record WalRequest =
  req_id :: nat
  req_event :: IngestEvent

text \<open>
  What the sender of a request sees: \<open>Ok\<close>, an error text, or that its responder was dropped.
\<close>

datatype reply = Acked | Failed string | Dropped

section \<open>File names\<close>

definition hex_char :: "nat \<Rightarrow> char" where
  "hex_char d = (if d < 10 then char_of (48 + d) else char_of (87 + d))"

fun hex_digits :: "nat \<Rightarrow> nat \<Rightarrow> string" where
  "hex_digits 0 n = []"
| "hex_digits (Suc k) n = hex_digits k (n div 16) @ [hex_char (n mod 16)]"

definition wal_file_name :: "u64 \<Rightarrow> string" where
  "wal_file_name offset = hex_digits 16 (unat offset) @ ''.wal''"

lemma digits_value_append:
  "digits_value r acc (xs @ ys) =
    (case digits_value r acc xs of None \<Rightarrow> None | Some v \<Rightarrow> digits_value r v ys)"
  by (induction xs arbitrary: acc) (auto split: option.splits)

lemma of_char_hex_char:
  "d < 16 \<Longrightarrow> (of_char (hex_char d) :: nat) = (if d < 10 then 48 + d else 87 + d)"
  by (simp add: hex_char_def)

lemma to_digit_hex_char: "d < 16 \<Longrightarrow> to_digit 16 (hex_char d) = Some d"
  using of_char_hex_char [of d] by (simp add: to_digit_def digit_val_def Let_def split: if_splits)

lemma hex_char_no_plus: "d < 16 \<Longrightarrow> hex_char d \<noteq> CHR ''+''"
proof
  assume "d < 16" "hex_char d = CHR ''+''"
  then show False using of_char_hex_char [of d] by (simp split: if_splits)
qed

lemma digits_value_hex: "digits_value 16 0 (hex_digits k n) = Some (n mod 16 ^ k)"
proof (induction k arbitrary: n)
  case 0
  then show ?case by simp
next
  case (Suc k)
  have "digits_value 16 0 (hex_digits (Suc k) n) = Some (n div 16 mod 16 ^ k * 16 + n mod 16)"
    using to_digit_hex_char [of "n mod 16"]
    by (simp only: hex_digits.simps digits_value_append Suc.IH digits_value.simps option.case
        mod_less_divisor)
  also have "n div 16 mod 16 ^ k * 16 + n mod 16 = n mod (16 * 16 ^ k)"
    by (simp only: mod_mult2_eq mult.commute)
  finally show ?case by (simp only: power_Suc)
qed

lemma hex_digits_no_plus: "CHR ''+'' \<notin> set (hex_digits k n)"
proof (induction k arbitrary: n)
  case (Suc k)
  have "hex_char (n mod 16) \<noteq> CHR ''+''"
    by (rule hex_char_no_plus) simp
  with Suc show ?case by auto
qed simp

lemma length_hex_digits [simp]: "length (hex_digits k n) = k"
  by (induction k arbitrary: n) simp_all

text \<open>
  A file name gives its offset back: the retention worker parses what the appender formats.
\<close>

lemma hex_name_roundtrip: "from_str_radix_u64 16 (hex_digits 16 (unat w)) = Some w"
proof -
  obtain c cs where hex: "hex_digits 16 (unat w) = c # cs"
    using length_hex_digits [of 16 "unat w"] by (cases "hex_digits 16 (unat w)") auto
  then have ne: "hex_digits 16 (unat w) \<noteq> []"
    by simp
  from hex have "c \<noteq> CHR ''+''"
    using hex_digits_no_plus [of 16 "unat w"] by auto
  then have "strip_plus (hex_digits 16 (unat w)) = hex_digits 16 (unat w)"
    by (simp add: hex strip_plus_def)
  moreover have "magnitude 16 (hex_digits 16 (unat w)) = Some (unat w mod 16 ^ 16)"
    using ne by (simp only: magnitude_def digits_value_hex if_False)
  moreover have "unat w < 2 ^ 64"
    using unsigned_less [where 'a = nat, of w] by simp
  ultimately show ?thesis
    by (simp add: from_str_radix_u64_def)
qed

lemma wal_file_name_inj: "wal_file_name a = wal_file_name b \<longleftrightarrow> a = b"
proof
  assume "wal_file_name a = wal_file_name b"
  then have "hex_digits 16 (unat a) = hex_digits 16 (unat b)"
    by (simp add: wal_file_name_def)
  then show "a = b"
    by (metis hex_name_roundtrip option.inject)
qed simp

section \<open>System calls\<close>

definition pop_io :: "wal_state \<Rightarrow> io_outcome \<times> wal_state" where
  "pop_io st =
     (case ws_io st of [] \<Rightarrow> (IoOk, st) | oc # io \<Rightarrow> (oc, st\<lparr>ws_io := io\<rparr>))"

definition cur_file :: "wal_state \<Rightarrow> log_file" where
  "cur_file st =
     (case ws_files st (ws_target st) of Some f \<Rightarrow> f | None \<Rightarrow> \<lparr>lf_bytes = [], lf_synced = 0\<rparr>)"

definition set_cur_file :: "log_file \<Rightarrow> wal_state \<Rightarrow> wal_state" where
  "set_cur_file f st = st\<lparr>ws_files := (ws_files st)(ws_target st \<mapsto> f)\<rparr>"

definition append_bytes :: "u8 list \<Rightarrow> wal_state \<Rightarrow> wal_state" where
  "append_bytes bs st = set_cur_file (cur_file st\<lparr>lf_bytes := lf_bytes (cur_file st) @ bs\<rparr>) st"

text \<open>\<open>write_all\<close> on the file itself: everything, or an error after \<open>k\<close> bytes.\<close>

definition file_write_all :: "wal_state \<Rightarrow> u8 list \<Rightarrow> wal_state \<times> (nat \<times> io_error) option" where
  "file_write_all st bs =
     (case pop_io st of
        (IoOk, st') \<Rightarrow> (append_bytes bs st', None)
      | (IoErr k e, st') \<Rightarrow> (append_bytes (take k bs) st', Some (k, e)))"

definition sync_data :: "wal_state \<Rightarrow> wal_state \<times> io_error option" where
  "sync_data st =
     (case pop_io st of
        (IoOk, st') \<Rightarrow>
          (set_cur_file (cur_file st'\<lparr>lf_synced := length (lf_bytes (cur_file st'))\<rparr>) st', None)
      | (IoErr _ e, st') \<Rightarrow> (st', Some e))"

text \<open>\<open>OpenOptions::new().create(true).append(true)\<close>: an existing file keeps its bytes.\<close>

definition create_if_absent :: "string \<Rightarrow> wal_state \<Rightarrow> wal_state" where
  "create_if_absent path st =
     (if ws_files st path = None
      then st\<lparr>ws_files := (ws_files st)(path \<mapsto> \<lparr>lf_bytes = [], lf_synced = 0\<rparr>)\<rparr> else st)"

definition open_append :: "string \<Rightarrow> wal_state \<Rightarrow> wal_state \<times> io_error option" where
  "open_append path st =
     (case pop_io st of
        (IoOk, st') \<Rightarrow> (create_if_absent path st', None)
      | (IoErr _ e, st') \<Rightarrow> (st', Some e))"

section \<open>The buffered writer\<close>

definition buf_capacity :: nat where
  "buf_capacity = 64 * 1024"

definition flush_buf :: "wal_state \<Rightarrow> wal_state \<times> io_error option" where
  "flush_buf st =
     (if ws_buf st = [] then (st, None)
      else case file_write_all st (ws_buf st) of
        (st', None) \<Rightarrow> (st'\<lparr>ws_buf := []\<rparr>, None)
      | (st', Some (k, e)) \<Rightarrow> (st'\<lparr>ws_buf := drop k (ws_buf st)\<rparr>, Some e))"

definition buf_write_all :: "wal_state \<Rightarrow> u8 list \<Rightarrow> wal_state \<times> io_error option" where
  "buf_write_all st bs =
     (let spare = buf_capacity - length (ws_buf st) in
      if length bs < spare then (st\<lparr>ws_buf := ws_buf st @ bs\<rparr>, None)
      else
        case (if spare < length bs then flush_buf st else (st, None)) of
          (st1, Some e) \<Rightarrow> (st1, Some e)
        | (st1, None) \<Rightarrow>
            if buf_capacity \<le> length bs then
              (case file_write_all st1 bs of
                 (st2, None) \<Rightarrow> (st2, None)
               | (st2, Some (_, e)) \<Rightarrow> (st2, Some e))
            else (st1\<lparr>ws_buf := ws_buf st1 @ bs\<rparr>, None))"

section \<open>One batch\<close>

text \<open>The chain of writes of one frame, each made only if the ones before it succeeded.\<close>

fun write_parts :: "wal_state \<Rightarrow> u8 list list \<Rightarrow> wal_state \<times> bool" where
  "write_parts st [] = (st, True)"
| "write_parts st (p # ps) =
     (case buf_write_all st p of
        (st', None) \<Rightarrow> write_parts st' ps
      | (st', Some e) \<Rightarrow> (st', False))"

definition count_frame :: "IngestEvent \<Rightarrow> wal_state \<Rightarrow> wal_state" where
  "count_frame ev st =
     st\<lparr>ws_current_offset := advance (ws_current_offset st) ev,
        ws_file_size := ws_file_size st + of_nat (frame_len ev)\<rparr>"

text \<open>
  The loop over the batch: the requests written, each with the offset after it, and whether
  all were written. It stops at the first frame that fails.
\<close>

fun write_batch ::
    "(u8 list \<Rightarrow> u32) \<Rightarrow> wal_state \<Rightarrow> WalRequest list \<Rightarrow>
     wal_state \<times> (WalRequest \<times> u64) list \<times> bool" where
  "write_batch crc st [] = (st, [], True)"
| "write_batch crc st (req # reqs) =
     (case write_parts st (frame_parts crc (req_event req)) of
        (st', False) \<Rightarrow> (st', [], False)
      | (st', True) \<Rightarrow>
          let st1 = count_frame (req_event req) st' in
          case write_batch crc st1 reqs of
            (st2, to_index, ok) \<Rightarrow> (st2, (req, ws_current_offset st1) # to_index, ok))"

definition max_file_size :: u64 where
  "max_file_size = 32 * 1024 * 1024"

text \<open>
  Rotation. The old writer is dropped with an empty buffer. When the new file cannot be opened
  the old writer stays, but the start offset and the path have already changed.
\<close>

definition rotate_file :: "wal_state \<Rightarrow> wal_state" where
  "rotate_file st =
     (let st1 = fst (flush_buf st);
          st2 = fst (sync_data st1);
          path = wal_file_name (ws_current_offset st2);
          st3 = st2\<lparr>ws_file_start_offset := ws_current_offset st2, ws_path := path\<rparr>
      in case open_append path st3 of
           (st4, None) \<Rightarrow> st4\<lparr>ws_target := path, ws_buf := [], ws_file_size := 0\<rparr>
         | (st4, Some e) \<Rightarrow> st4)"

definition wal_error :: string where
  "wal_error = ''Failed to safely write to WAL''"

text \<open>
  The body of the outer loop: the new state, the answer to each request, and the events sent
  on to the indexer. A request that never entered \<open>to_index\<close> has its responder dropped.
\<close>

definition process_batch ::
    "(u8 list \<Rightarrow> u32) \<Rightarrow> wal_state \<Rightarrow> WalRequest list \<Rightarrow>
     wal_state \<times> (nat \<times> reply) list \<times> (IngestEvent \<times> u64) list" where
  "process_batch crc st batch =
     (case write_batch crc st batch of
        (st1, to_index, ok1) \<Rightarrow>
          let (st2, ok2) = (if ok1 then (case flush_buf st1 of (s, e) \<Rightarrow> (s, e = None)) else (st1, False));
              (st3, ok3) = (if ok2 then (case sync_data st2 of (s, e) \<Rightarrow> (s, e = None)) else (st2, False));
              st4 = (if ok3 \<and> max_file_size \<le> ws_file_size st3 then rotate_file st3 else st3)
          in if ok3
             then (st4, map (\<lambda>(req, _). (req_id req, Acked)) to_index,
                   map (\<lambda>(req, offset). (req_event req, offset)) to_index)
             else (st4,
                   map (\<lambda>(req, _). (req_id req, Failed wal_error)) to_index @
                   map (\<lambda>req. (req_id req, Dropped)) (drop (length to_index) batch),
                   []))"

section \<open>Batching and the loop\<close>

fun drain_queue :: "'q list \<Rightarrow> 'q list \<Rightarrow> 'q list \<times> 'q list" where
  "drain_queue batch [] = (batch, [])"
| "drain_queue batch (req # queue) =
     (let batch' = batch @ [req] in
      if 5000 \<le> length batch' then (batch', queue) else drain_queue batch' queue)"

text \<open>
  The thread with its channel: the requests waiting, the writer, and what has been answered
  and sent on so far.
\<close>

record appender =
  ap_queue :: "WalRequest list"
  ap_wal :: wal_state
  ap_replies :: "(nat \<times> reply) list"
  ap_sent :: "(IngestEvent \<times> u64) list"

datatype appender_event = Arrive WalRequest | RunLoopBody

fun appender_step :: "(u8 list \<Rightarrow> u32) \<Rightarrow> appender \<Rightarrow> appender_event \<Rightarrow> appender" where
  "appender_step crc a (Arrive req) = a\<lparr>ap_queue := ap_queue a @ [req]\<rparr>"
| "appender_step crc a RunLoopBody =
     (case ap_queue a of
        [] \<Rightarrow> a
      | req # queue \<Rightarrow>
          (case drain_queue [req] queue of
             (batch, queue') \<Rightarrow>
               (case process_batch crc (ap_wal a) batch of
                  (st, replies, sent) \<Rightarrow>
                    \<lparr>ap_queue = queue', ap_wal = st, ap_replies = ap_replies a @ replies,
                     ap_sent = ap_sent a @ sent\<rparr>)))"

text \<open>
  Starting the thread: create the directory, open the file named after the offset, read its
  size. Without the directory or the file the thread ends.
\<close>

definition start_wal :: "u64 \<Rightarrow> (string \<Rightarrow> log_file option) \<Rightarrow> io_outcome list \<Rightarrow> wal_state option" where
  "start_wal current_offset files io =
     (let path = wal_file_name current_offset;
          st0 = \<lparr>ws_current_offset = current_offset, ws_file_start_offset = current_offset,
                 ws_file_size = 0, ws_path = path, ws_target = path, ws_buf = [],
                 ws_files = files, ws_io = io\<rparr>
      in case pop_io st0 of
           (IoErr _ _, _) \<Rightarrow> None
         | (IoOk, st1) \<Rightarrow>
             (case open_append path st1 of
                (_, Some _) \<Rightarrow> None
              | (st2, None) \<Rightarrow>
                  (case pop_io st2 of
                     (IoOk, st3) \<Rightarrow>
                       Some (st3\<lparr>ws_file_size := of_nat (length (lf_bytes (cur_file st3)))\<rparr>)
                   | (IoErr _ _, st3) \<Rightarrow> Some st3)))"

section \<open>What the writer's calls do to the byte stream\<close>

text \<open>
  The bytes of the open file followed by the buffered ones: what the log will hold once the
  buffer is flushed. Writing extends it, flushing and syncing leave it alone, and none of the
  calls touches another file or the bookkeeping.
\<close>

definition stream :: "wal_state \<Rightarrow> u8 list" where
  "stream st = lf_bytes (cur_file st) @ ws_buf st"

definition same_place :: "wal_state \<Rightarrow> wal_state \<Rightarrow> bool" where
  "same_place st st' \<longleftrightarrow>
     ws_target st' = ws_target st \<and> ws_path st' = ws_path st \<and>
     ws_file_start_offset st' = ws_file_start_offset st \<and>
     (\<forall>p. p \<noteq> ws_target st \<longrightarrow> ws_files st' p = ws_files st p)"

definition same_counters :: "wal_state \<Rightarrow> wal_state \<Rightarrow> bool" where
  "same_counters st st' \<longleftrightarrow>
     ws_current_offset st' = ws_current_offset st \<and> ws_file_size st' = ws_file_size st"

lemma same_place_refl [simp]: "same_place st st" "same_counters st st"
  by (simp_all add: same_place_def same_counters_def)

lemma same_place_trans: "same_place a b \<Longrightarrow> same_place b c \<Longrightarrow> same_place a c"
  by (auto simp: same_place_def)

lemma same_counters_trans: "same_counters a b \<Longrightarrow> same_counters b c \<Longrightarrow> same_counters a c"
  by (auto simp: same_counters_def)

lemma pop_io_eq: "pop_io st = (oc, st') \<Longrightarrow> st' = st\<lparr>ws_io := tl (ws_io st)\<rparr>"
  by (auto simp: pop_io_def split: list.splits)

lemma cur_file_io [simp]: "cur_file (st\<lparr>ws_io := io\<rparr>) = cur_file st"
  by (simp add: cur_file_def)

lemma cur_file_buf [simp]: "cur_file (st\<lparr>ws_buf := b\<rparr>) = cur_file st"
  by (simp add: cur_file_def)

lemma cur_file_set [simp]: "cur_file (set_cur_file f st) = f"
  by (simp add: cur_file_def set_cur_file_def)

lemma set_cur_file_fields [simp]:
  "ws_buf (set_cur_file f st) = ws_buf st" "ws_target (set_cur_file f st) = ws_target st"
  "ws_io (set_cur_file f st) = ws_io st" "ws_current_offset (set_cur_file f st) = ws_current_offset st"
  by (simp_all add: set_cur_file_def)

lemma same_place_simps [simp]:
  "same_place st (st'\<lparr>ws_io := io\<rparr>) \<longleftrightarrow> same_place st st'"
  "same_place st (st'\<lparr>ws_buf := b\<rparr>) \<longleftrightarrow> same_place st st'"
  "same_counters st (st'\<lparr>ws_io := io\<rparr>) \<longleftrightarrow> same_counters st st'"
  "same_counters st (st'\<lparr>ws_buf := b\<rparr>) \<longleftrightarrow> same_counters st st'"
  by (simp_all add: same_place_def same_counters_def)

lemma same_place_set_cur_file [simp]:
  "same_place st (set_cur_file f st)" "same_counters st (set_cur_file f st)"
  "same_place st (set_cur_file f (st\<lparr>ws_io := io\<rparr>))"
  "same_counters st (set_cur_file f (st\<lparr>ws_io := io\<rparr>))"
  by (simp_all add: same_place_def same_counters_def set_cur_file_def)

lemma file_write_all_cases:
  assumes "file_write_all st bs = (st', r)"
  obtains p where "st' = append_bytes p (st\<lparr>ws_io := tl (ws_io st)\<rparr>)"
    "p = (case r of None \<Rightarrow> bs | Some (k, e) \<Rightarrow> take k bs)"
  using assms by (auto simp: file_write_all_def dest!: pop_io_eq split: prod.splits io_outcome.splits)

lemma file_write_all_stream:
  assumes "file_write_all st bs = (st', r)"
  shows "same_place st st'" "same_counters st st'" "ws_buf st' = ws_buf st"
    "lf_bytes (cur_file st') =
      lf_bytes (cur_file st) @ (case r of None \<Rightarrow> bs | Some (k, e) \<Rightarrow> take k bs)"
  by (rule file_write_all_cases [OF assms]; simp add: append_bytes_def)+

lemma flush_buf_stream:
  assumes "flush_buf st = (st', r)"
  shows "same_place st st'" "same_counters st st'" "stream st' = stream st"
    "r = None \<Longrightarrow> ws_buf st' = []"
proof -
  have "same_place st st' \<and> same_counters st st' \<and> stream st' = stream st \<and>
      (r = None \<longrightarrow> ws_buf st' = [])"
  proof (cases "ws_buf st = []")
    case True
    with assms show ?thesis by (simp add: flush_buf_def)
  next
    case False
    obtain st1 r1 where w: "file_write_all st (ws_buf st) = (st1, r1)" by fastforce
    with False assms file_write_all_stream [OF w] show ?thesis
      by (auto simp: flush_buf_def stream_def split: option.splits)
  qed
  then show "same_place st st'" "same_counters st st'" "stream st' = stream st"
      "r = None \<Longrightarrow> ws_buf st' = []"
    by simp_all
qed

lemma sync_data_stream:
  assumes "sync_data st = (st', r)"
  shows "same_place st st'" "same_counters st st'" "stream st' = stream st"
    "ws_buf st' = ws_buf st" "lf_bytes (cur_file st') = lf_bytes (cur_file st)"
    "r = None \<Longrightarrow> lf_synced (cur_file st') = length (lf_bytes (cur_file st'))"
  using assms
  by (auto simp: sync_data_def stream_def dest!: pop_io_eq split: prod.splits io_outcome.splits)

lemma buf_write_all_stream:
  assumes "buf_write_all st bs = (st', r)"
  shows "same_place st st'" "same_counters st st'"
    "\<exists>p. stream st' = stream st @ p \<and> prefix p bs \<and> (r = None \<longrightarrow> p = bs)"
proof -
  have *: "same_place st st' \<and> same_counters st st' \<and>
      (\<exists>p. stream st' = stream st @ p \<and> prefix p bs \<and> (r = None \<longrightarrow> p = bs))"
  proof (cases "length bs < buf_capacity - length (ws_buf st)")
    case True
    with assms show ?thesis by (auto simp: buf_write_all_def stream_def)
  next
    case False
    define f where "f = (if buf_capacity - length (ws_buf st) < length bs then flush_buf st else (st, None))"
    obtain st1 r1 where f1: "f = (st1, r1)" by fastforce
    have one: "same_place st st1" "same_counters st st1" "stream st1 = stream st"
      "buf_capacity - length (ws_buf st) < length bs \<Longrightarrow> r1 = None \<Longrightarrow> ws_buf st1 = []"
      using f1 flush_buf_stream [of st st1 r1] by (auto simp: f_def split: if_splits)
    have eq: "(st', r) =
        (case (st1, r1) of
          (st1, Some e) \<Rightarrow> (st1, Some e)
        | (st1, None) \<Rightarrow>
            if buf_capacity \<le> length bs then
              (case file_write_all st1 bs of
                 (st2, None) \<Rightarrow> (st2, None)
               | (st2, Some (_, e)) \<Rightarrow> (st2, Some e))
            else (st1\<lparr>ws_buf := ws_buf st1 @ bs\<rparr>, None))"
      using False assms unfolding buf_write_all_def Let_def f_def [symmetric] f1 by simp
    show ?thesis
    proof (cases r1)
      case (Some e)
      with eq one show ?thesis by simp
    next
      case None
      show ?thesis
      proof (cases "buf_capacity \<le> length bs")
        case True
        have empty: "ws_buf st1 = []"
        proof (cases "buf_capacity - length (ws_buf st) < length bs")
          case True
          with one None show ?thesis by simp
        next
          case False
          with True have "length (ws_buf st) = 0"
            unfolding buf_capacity_def by linarith
          then have "ws_buf st = []" by simp
          with False f1 show ?thesis by (simp add: f_def)
        qed
        obtain st2 r2 where w: "file_write_all st1 bs = (st2, r2)" by fastforce
        note two = file_write_all_stream [OF w]
        have "stream st2 = stream st @ (case r2 of None \<Rightarrow> bs | Some (k, e) \<Rightarrow> take k bs)"
          using two empty one(3) by (simp add: stream_def)
        moreover have "same_place st st2" "same_counters st st2"
          using two one same_place_trans same_counters_trans by blast+
        ultimately show ?thesis
          using eq None True w by (auto simp: take_is_prefix split: option.splits)
      next
        case False
        with eq None one show ?thesis by (auto simp: stream_def)
      qed
    qed
  qed
  then show "same_place st st'" "same_counters st st'"
      "\<exists>p. stream st' = stream st @ p \<and> prefix p bs \<and> (r = None \<longrightarrow> p = bs)"
    by blast+
qed

lemma write_parts_stream:
  "write_parts st ps = (st', ok) \<Longrightarrow>
   same_place st st' \<and> same_counters st st' \<and>
   (\<exists>p. stream st' = stream st @ p \<and> prefix p (concat ps) \<and> (ok \<longrightarrow> p = concat ps))"
proof (induction st ps rule: write_parts.induct)
  case (1 st)
  then show ?case by simp
next
  case (2 st p ps)
  obtain st1 r where w: "buf_write_all st p = (st1, r)" by fastforce
  note one = buf_write_all_stream [OF w]
  show ?case
  proof (cases r)
    case None
    with "2.prems" w have "write_parts st1 ps = (st', ok)" by simp
    with "2.IH" [OF w [symmetric] None] obtain q where q: "same_place st1 st'" "same_counters st1 st'"
        "stream st' = stream st1 @ q" "prefix q (concat ps)" "ok \<longrightarrow> q = concat ps"
      by blast
    moreover have "stream st1 = stream st @ p"
      using one(3) None by blast
    moreover have "same_place st st'" "same_counters st st'"
      using same_place_trans [OF one(1) q(1)] same_counters_trans [OF one(2) q(2)] .
    ultimately show ?thesis
      by (intro conjI exI [of _ "p @ q"]) simp_all
  next
    case (Some e)
    then obtain q where "stream st1 = stream st @ q" "prefix q p"
      using one(3) by blast
    moreover from this have "prefix q (concat (p # ps))"
      by (simp add: prefix_prefix)
    ultimately show ?thesis
      using "2.prems" w one(1,2) Some by simp
  qed
qed

lemma count_frame_stream [simp]:
  "stream (count_frame ev st) = stream st"
  "same_place st' (count_frame ev st) \<longleftrightarrow> same_place st' st"
  "ws_current_offset (count_frame ev st) = advance (ws_current_offset st) ev"
  by (simp_all add: stream_def count_frame_def cur_file_def same_place_def)

text \<open>
  The batch loop appends the frames of the requests it lists, and after a failure a further
  part of the frame that failed.
\<close>

lemma write_batch_stream:
  "write_batch crc st reqs = (st', to_index, ok) \<Longrightarrow>
   same_place st st' \<and>
   (\<exists>p. stream st' = stream st @ concat (map (encode_frame crc \<circ> req_event \<circ> fst) to_index) @ p \<and>
      (ok \<longrightarrow> p = [])) \<and>
   prefix (stream st') (stream st @ concat (map (encode_frame crc \<circ> req_event) reqs)) \<and>
   map fst to_index = take (length to_index) reqs \<and> (ok \<longrightarrow> length to_index = length reqs) \<and>
   map (\<lambda>(req, off). (req_event req, off)) to_index =
     stamped advance (ws_current_offset st) (map (req_event \<circ> fst) to_index) \<and>
   ws_current_offset st' = foldl advance (ws_current_offset st) (map (req_event \<circ> fst) to_index)"
proof (induction crc st reqs arbitrary: to_index rule: write_batch.induct)
  case (1 crc st)
  then show ?case by simp
next
  case (2 crc st req reqs)
  obtain st1 ok1 where w: "write_parts st (frame_parts crc (req_event req)) = (st1, ok1)"
    by fastforce
  note one = write_parts_stream [OF w]
  show ?case
  proof (cases ok1)
    case False
    then obtain p where p: "stream st1 = stream st @ p" "prefix p (encode_frame crc (req_event req))"
      using one unfolding encode_frame_def by blast
    then have "prefix (stream st1) (stream st @ concat (map (encode_frame crc \<circ> req_event) (req # reqs)))"
      by (simp add: prefix_prefix)
    with "2.prems" w one False show ?thesis by (auto simp: same_counters_def comp_def)
  next
    case True
    let ?st1 = "count_frame (req_event req) st1"
    obtain st2 xs ok2 where rest: "write_batch crc ?st1 reqs = (st2, xs, ok2)"
      by (cases "write_batch crc ?st1 reqs") auto
    with "2.prems" w True have res: "st' = st2" "ok = ok2"
        "to_index = (req, advance (ws_current_offset st1) (req_event req)) # xs"
      by (simp_all add: Let_def)
    then have "write_batch crc ?st1 reqs = (st', xs, ok)"
      using rest by simp
    note IH = "2.IH" [OF w [symmetric] eqTrueI [OF True] refl this]
    have st1: "stream st1 = stream st @ encode_frame crc (req_event req)"
      "same_place st st1" "ws_current_offset st1 = ws_current_offset st"
      using one True by (auto simp: encode_frame_def same_counters_def)
    then have "same_place st st'"
      using IH same_place_trans [of st ?st1 st'] by simp
    moreover obtain p where "stream st' = stream st1 @
        concat (map (encode_frame crc \<circ> req_event \<circ> fst) xs) @ p" "ok \<longrightarrow> p = []"
      using IH unfolding count_frame_stream(1) by blast
    moreover have "prefix (stream st') (stream st @ concat (map (encode_frame crc \<circ> req_event) (req # reqs)))"
      using IH st1(1) by (simp add: comp_def)
    ultimately show ?thesis
      using IH res(3) st1(1,3) by (simp add: comp_def)
  qed
qed

end
