(* ===== verification/Wal_Log.thy ===== *)
theory Wal_Log
  imports Wal_Recovery
begin

text \<open>
  The log as a whole. While no call fails, the files of the log directory hold the events of the
  acknowledged requests, each once and in order, cut into one segment per file, and every file
  is fully on the disk. The reader therefore recovers from the files exactly what was
  acknowledged. After a failed batch this breaks: bytes of the failed batch stay in the log and
  can make an event that was acknowledged later unreadable.
\<close>

section \<open>Segments\<close>

definition frames_len :: "IngestEvent list \<Rightarrow> nat" where
  "frames_len evs = sum_list (map frame_len evs)"

text \<open>The offset that names the file of segment \<open>k\<close>.\<close>

definition seg_start :: "IngestEvent list list \<Rightarrow> nat \<Rightarrow> u64" where
  "seg_start segs k = of_nat (frames_len (concat (take k segs)))"

definition seg_file :: "(u8 list \<Rightarrow> u32) \<Rightarrow> IngestEvent list \<Rightarrow> log_file" where
  "seg_file crc evs =
     \<lparr>lf_bytes = concat (map (encode_frame crc) evs), lf_synced = frames_len evs\<rparr>"

lemma frames_len_simps [simp]:
  "frames_len [] = 0" "frames_len (ev # evs) = frame_len ev + frames_len evs"
  "frames_len (xs @ ys) = frames_len xs + frames_len ys"
  by (simp_all add: frames_len_def)

lemma length_frames: "length (concat (map (encode_frame crc) evs)) = frames_len evs"
  by (induction evs) (simp_all add: length_encode_frame)

lemma foldl_advance: "foldl advance off evs = off + of_nat (frames_len evs)"
  by (induction evs arbitrary: off) (simp_all add: advance_def)

lemma frames_len_pos: "evs \<noteq> [] \<Longrightarrow> 0 < frames_len evs"
  by (cases evs) (simp_all add: frame_len_def)

lemma seg_start_append [simp]: "k \<le> length segs \<Longrightarrow> seg_start (segs @ xs) k = seg_start segs k"
  by (simp add: seg_start_def)

text \<open>Different segments have different names as long as the offsets do not wrap.\<close>

lemma seg_start_neq:
  assumes "k < length segs" "[] \<notin> set segs" "frames_len (concat segs) < 2 ^ 64"
  shows "seg_start segs k \<noteq> seg_start segs (length segs)"
proof -
  have split: "concat segs = concat (take k segs) @ concat (drop k segs)"
    by (metis append_take_drop_id concat_append)
  have "segs ! k \<noteq> []"
    using assms(1,2) by (metis nth_mem)
  then have "concat (drop k segs) \<noteq> []"
    using assms(1) by (simp add: Cons_nth_drop_Suc [symmetric])
  then have "frames_len (concat (take k segs)) < frames_len (concat segs)"
    using frames_len_pos unfolding split by simp
  then show ?thesis
    using assms(3) by (simp add: seg_start_def word_unat_eq_iff unat_of_nat)
qed

section \<open>The invariant of a healthy log\<close>

text \<open>
  The log holds \<open>segs\<close>: the last one is open, the earlier ones are not empty, and there is no
  other file.
\<close>

definition holds_segments :: "(u8 list \<Rightarrow> u32) \<Rightarrow> wal_state \<Rightarrow> IngestEvent list list \<Rightarrow> bool" where
  "holds_segments crc st segs \<longleftrightarrow>
     segs \<noteq> [] \<and> [] \<notin> set (butlast segs) \<and> healthy st \<and> ws_buf st = [] \<and>
     ws_current_offset st = of_nat (frames_len (concat segs)) \<and>
     ws_target st = wal_file_name (seg_start segs (length segs - 1)) \<and>
     (\<forall>k < length segs. ws_files st (wal_file_name (seg_start segs k)) = Some (seg_file crc (segs ! k))) \<and>
     dom (ws_files st) \<subseteq> (\<lambda>k. wal_file_name (seg_start segs k)) ` {..< length segs}"

lemma rotate_healthy:
  assumes "healthy st" "ws_buf st = []" "ws_files st (ws_target st) = Some f"
    and "lf_synced f = length (lf_bytes f)"
    and "ws_files st (wal_file_name (ws_current_offset st)) = None"
  shows "healthy (rotate_file st) \<and> ws_buf (rotate_file st) = [] \<and>
    ws_current_offset (rotate_file st) = ws_current_offset st \<and>
    ws_target (rotate_file st) = wal_file_name (ws_current_offset st) \<and>
    ws_files (rotate_file st) =
      (ws_files st)(wal_file_name (ws_current_offset st) \<mapsto> \<lparr>lf_bytes = [], lf_synced = 0\<rparr>)"
proof -
  let ?st1 = "set_cur_file (cur_file st\<lparr>lf_synced := length (lf_bytes (cur_file st))\<rparr>) (next_io st)"
  have "cur_file st = f"
    using assms(3) by (simp add: cur_file_def)
  moreover have "f\<lparr>lf_synced := length (lf_bytes f)\<rparr> = f"
    using assms(4) by (cases f) simp
  ultimately have same: "?st1 = next_io st"
    using assms(3) by (cases st) (simp add: set_cur_file_def fun_upd_idem)
  have step: "fst (flush_buf st) = st" "fst (sync_data st) = next_io st"
    using assms(1,2) same by (simp_all add: flush_buf_def sync_data_def pop_io_healthy)
  define st3 where "st3 = next_io st\<lparr>ws_file_start_offset := ws_current_offset st,
    ws_path := wal_file_name (ws_current_offset st)\<rparr>"
  have "healthy st3"
    using healthy_next [OF assms(1)] by (simp add: st3_def healthy_def)
  then have opn: "open_append (wal_file_name (ws_current_offset st)) st3 =
      (create_if_absent (wal_file_name (ws_current_offset st)) (next_io st3), None)"
    by (simp add: open_append_def pop_io_healthy)
  have "rotate_file st = create_if_absent (wal_file_name (ws_current_offset st)) (next_io st3)
      \<lparr>ws_target := wal_file_name (ws_current_offset st), ws_buf := [], ws_file_size := 0\<rparr>"
    using step opn by (simp add: rotate_file_def st3_def Let_def)
  moreover have "healthy (next_io st3)"
    using \<open>healthy st3\<close> by simp
  moreover have "ws_files (next_io st3) = ws_files st" "ws_current_offset (next_io st3) = ws_current_offset st"
    by (simp_all add: st3_def)
  ultimately show ?thesis
    using assms(5) by (simp add: create_if_absent_def healthy_def)
qed

text \<open>A batch extends the open segment; a rotation starts an empty one.\<close>

lemma extend_segment:
  assumes inv: "holds_segments crc st (old @ [cur])" and evs: "evs \<noteq> []"
    and bound: "frames_len (concat (old @ [cur @ evs])) < 2 ^ 64"
    and place: "same_place st st3" "healthy st3" "ws_buf st3 = []"
    and newf: "ws_files st3 (ws_target st) =
        Some \<lparr>lf_bytes = stream st @ concat (map (encode_frame crc) evs),
              lf_synced = length (stream st @ concat (map (encode_frame crc) evs))\<rparr>"
    and off: "ws_current_offset st3 = foldl advance (ws_current_offset st) evs"
  shows "holds_segments crc st3 (old @ [cur @ evs])"
proof -
  have target: "ws_target st = wal_file_name (seg_start old (length old))"
    using inv by (simp add: holds_segments_def)
  have files: "ws_files st (wal_file_name (seg_start (old @ [cur]) k)) =
      Some (seg_file crc ((old @ [cur]) ! k))" if "k \<le> length old" for k
    using inv that by (simp add: holds_segments_def less_Suc_eq_le)
  have "stream st = concat (map (encode_frame crc) cur)"
    using inv files [of "length old"] target by (simp add: stream_def cur_file_def holds_segments_def seg_file_def)
  then have last: "ws_files st3 (ws_target st) = Some (seg_file crc (cur @ evs))"
    using newf by (simp add: seg_file_def length_frames)
  have "seg_start old k \<noteq> seg_start old (length old)" if "k < length old" for k
    using seg_start_neq [of k old] that inv bound by (auto simp: holds_segments_def)
  then have "ws_files st3 (wal_file_name (seg_start old k)) = Some (seg_file crc (old ! k))"
    if "k < length old" for k
    using files [of k] that place(1) target by (auto simp: same_place_def wal_file_name_inj nth_append)
  then have all: "ws_files st3 (wal_file_name (seg_start (old @ [cur @ evs]) k)) =
      Some (seg_file crc ((old @ [cur @ evs]) ! k))" if "k < Suc (length old)" for k
    using last target that by (cases "k = length old") (auto simp: nth_append less_Suc_eq)
  have "dom (ws_files st3) \<subseteq> insert (ws_target st) (dom (ws_files st))"
    using place(1) by (auto simp: same_place_def dom_def)
  also have "\<dots> \<subseteq> (\<lambda>k. wal_file_name (seg_start (old @ [cur]) k)) ` {..< Suc (length old)}"
    using inv target by (auto simp: holds_segments_def)
  also have "\<dots> = (\<lambda>k. wal_file_name (seg_start (old @ [cur @ evs]) k)) ` {..< Suc (length old)}"
    by (rule image_cong) auto
  finally show ?thesis
    using inv all place target off
    by (simp add: holds_segments_def same_place_def foldl_advance)
qed

text \<open>The name of the next file is not taken.\<close>

lemma next_name_fresh:
  assumes "holds_segments crc st segs" "[] \<notin> set segs" "frames_len (concat segs) < 2 ^ 64"
  shows "ws_files st (wal_file_name (ws_current_offset st)) = None"
proof (rule ccontr)
  have off: "ws_current_offset st = seg_start segs (length segs)"
    using assms(1) by (simp add: holds_segments_def seg_start_def)
  assume "ws_files st (wal_file_name (ws_current_offset st)) \<noteq> None"
  then have "wal_file_name (seg_start segs (length segs)) \<in>
      (\<lambda>k. wal_file_name (seg_start segs k)) ` {..< length segs}"
    using assms(1) off by (auto simp: holds_segments_def)
  then show False
    using seg_start_neq [OF _ assms(2,3)] by (metis imageE lessThan_iff wal_file_name_inj)
qed

lemma rotate_segment:
  assumes inv: "holds_segments crc st segs" and ne: "[] \<notin> set segs"
    and bound: "frames_len (concat segs) < 2 ^ 64"
  shows "holds_segments crc (rotate_file st) (segs @ [[]])"
proof -
  have off: "ws_current_offset st = seg_start segs (length segs)"
    using inv by (simp add: holds_segments_def seg_start_def)
  have fresh: "ws_files st (wal_file_name (seg_start segs (length segs))) = None"
    using next_name_fresh [OF inv ne bound] off by simp
  have "segs \<noteq> []" using inv by (simp add: holds_segments_def)
  then have "length segs - 1 < length segs" by simp
  then have open_file: "ws_files st (ws_target st) = Some (seg_file crc (segs ! (length segs - 1)))"
    using inv by (simp add: holds_segments_def)
  have rot: "healthy (rotate_file st) \<and> ws_buf (rotate_file st) = [] \<and>
    ws_current_offset (rotate_file st) = ws_current_offset st \<and>
    ws_target (rotate_file st) = wal_file_name (ws_current_offset st) \<and>
    ws_files (rotate_file st) =
      (ws_files st)(wal_file_name (ws_current_offset st) \<mapsto> \<lparr>lf_bytes = [], lf_synced = 0\<rparr>)"
    by (rule rotate_healthy [OF _ _ open_file])
      (use inv fresh off in \<open>auto simp: holds_segments_def seg_file_def length_frames\<close>)
  have "ws_files (rotate_file st) (wal_file_name (seg_start (segs @ [[]]) k)) =
      Some (seg_file crc ((segs @ [[]]) ! k))" if "k < Suc (length segs)" for k
  proof (cases "k = length segs")
    case True
    with rot off show ?thesis by (simp add: seg_file_def)
  next
    case False
    with that have "k < length segs" by simp
    with rot off inv seg_start_neq [OF this ne bound] show ?thesis
      by (auto simp: holds_segments_def wal_file_name_inj nth_append)
  qed
  moreover have "dom (ws_files (rotate_file st)) \<subseteq>
      (\<lambda>k. wal_file_name (seg_start (segs @ [[]]) k)) ` {..< Suc (length segs)}"
  proof -
    have "dom (ws_files (rotate_file st)) =
        insert (wal_file_name (seg_start segs (length segs))) (dom (ws_files st))"
      using rot off by simp
    also have "\<dots> \<subseteq> insert (wal_file_name (seg_start segs (length segs)))
        ((\<lambda>k. wal_file_name (seg_start segs k)) ` {..< length segs})"
      using inv by (auto simp: holds_segments_def)
    also have "\<dots> = (\<lambda>k. wal_file_name (seg_start (segs @ [[]]) k)) ` {..< Suc (length segs)}"
      by (auto simp: lessThan_Suc intro!: image_eqI)
    finally show ?thesis .
  qed
  ultimately show ?thesis
    using rot ne off inv by (simp add: holds_segments_def lessThan_Suc)
qed

section \<open>Runs of the appender\<close>

text \<open>
  The batch of a run: everything that arrived is either answered or still queued, and what is
  answered is acknowledged, sent on with its offset, and in the log.
\<close>

definition log_holds_acked :: "(u8 list \<Rightarrow> u32) \<Rightarrow> appender \<Rightarrow> WalRequest list \<Rightarrow> bool" where
  "log_holds_acked crc a done \<longleftrightarrow>
     ap_replies a = map (\<lambda>req. (req_id req, Acked)) done \<and>
     ap_sent a = stamped advance 0 (map req_event done) \<and>
     (\<exists>segs. concat segs = map req_event done \<and> holds_segments crc (ap_wal a) segs)"

definition healthy_log :: "(u8 list \<Rightarrow> u32) \<Rightarrow> appender \<times> WalRequest list \<Rightarrow> bool" where
  "healthy_log crc s \<longleftrightarrow>
     (frames_len (map req_event (snd s)) < 2 ^ 64 \<longrightarrow>
      (\<exists>done. snd s = done @ ap_queue (fst s) \<and> log_holds_acked crc (fst s) done))"

lemma process_batch_segments:
  assumes p: "process_batch crc st batch = (st', replies, sent)" and ne: "batch \<noteq> []"
    and inv: "holds_segments crc st segs"
    and bound: "frames_len (concat segs @ map req_event batch) < 2 ^ 64"
  shows "replies = map (\<lambda>req. (req_id req, Acked)) batch \<and>
    sent = stamped advance (ws_current_offset st) (map req_event batch) \<and>
    (\<exists>segs'. concat segs' = concat segs @ map req_event batch \<and> holds_segments crc st' segs')"
proof -
  obtain old cur where segs: "segs = old @ [cur]"
    using inv by (metis append_butlast_last_id holds_segments_def)
  let ?segs' = "old @ [cur @ map req_event batch]"
  have healthy: "healthy st" using inv by (simp add: holds_segments_def)
  have all: "concat ?segs' = concat segs @ map req_event batch"
    by (simp add: segs)
  from p show ?thesis
  proof (cases rule: process_batch_cases)
    case (acked st3)
    have ext: "holds_segments crc st3 ?segs'"
      by (rule extend_segment [OF inv [unfolded segs], of _ st3])
        (use acked healthy ne bound segs in \<open>cases "cur_file st3"; simp add: comp_def\<close>)+
    have "[] \<notin> set ?segs'"
      using inv ne by (simp add: segs holds_segments_def)
    moreover have "frames_len (concat ?segs') < 2 ^ 64"
      using bound by (simp only: all)
    ultimately have "\<exists>segs'. concat segs' = concat ?segs' \<and> holds_segments crc st' segs'"
      using rotate_segment [OF ext] ext acked(9) exI [of _ ?segs'] exI [of _ "?segs' @ [[]]"]
      by (cases "max_file_size \<le> ws_file_size st3") (auto simp del: append_assoc)
    then show ?thesis
      unfolding all using acked(1,2) by blast
  next
    case (failed written)
    with healthy show ?thesis by simp
  qed
qed

lemma healthy_log_step: "healthy_log crc s \<Longrightarrow> healthy_log crc (counted_step crc s e)"
proof (cases e)
  case (Arrive req)
  assume inv: "healthy_log crc s"
  show ?thesis
    unfolding healthy_log_def
  proof
    assume "frames_len (map req_event (snd (counted_step crc s e))) < 2 ^ 64"
    then have "frames_len (map req_event (snd s)) < 2 ^ 64"
      by (simp add: counted_step_def Arrive)
    with inv show "\<exists>done. snd (counted_step crc s e) = done @ ap_queue (fst (counted_step crc s e)) \<and>
        log_holds_acked crc (fst (counted_step crc s e)) done"
      by (auto simp: healthy_log_def counted_step_def Arrive log_holds_acked_def)
  qed
next
  case RunLoopBody
  assume inv: "healthy_log crc s"
  show ?thesis
  proof (cases "ap_queue (fst s)")
    case Nil
    with inv RunLoopBody show ?thesis by (simp add: counted_step_def)
  next
    case (Cons req queue)
    obtain batch queue' where d: "drain_queue [req] queue = (batch, queue')" by fastforce
    obtain st replies sent where p: "process_batch crc (ap_wal (fst s)) batch = (st, replies, sent)"
      by (cases "process_batch crc (ap_wal (fst s)) batch") auto
    have drained: "batch @ queue' = req # queue"
      using drain_queue_append [OF d] by simp
    have ne: "batch \<noteq> []"
      using drain_queue_take [of "[req]" queue] d by simp
    let ?a = "\<lparr>ap_queue = queue', ap_wal = st, ap_replies = ap_replies (fst s) @ replies,
      ap_sent = ap_sent (fst s) @ sent\<rparr>"
    have step: "counted_step crc s e = (?a, snd s)"
      using RunLoopBody Cons d p by (simp add: counted_step_def)
    show ?thesis
      unfolding healthy_log_def step fst_conv snd_conv
    proof
      assume bound: "frames_len (map req_event (snd s)) < 2 ^ 64"
      then obtain "done" segs where arrived: "snd s = done @ req # queue"
        and answers: "ap_replies (fst s) = map (\<lambda>req. (req_id req, Acked)) done"
          "ap_sent (fst s) = stamped advance 0 (map req_event done)"
        and segs: "concat segs = map req_event done" "holds_segments crc (ap_wal (fst s)) segs"
        using inv Cons by (auto simp: healthy_log_def log_holds_acked_def)
      have "frames_len (concat segs @ map req_event batch) \<le> frames_len (map req_event (snd s))"
        unfolding arrived drained [symmetric] segs(1) by simp
      then have pb: "replies = map (\<lambda>req. (req_id req, Acked)) batch \<and>
          sent = stamped advance (ws_current_offset (ap_wal (fst s))) (map req_event batch) \<and>
          (\<exists>segs'. concat segs' = concat segs @ map req_event batch \<and> holds_segments crc st segs')"
        using bound by (intro process_batch_segments [OF p ne segs(2)]) simp
      have off: "ws_current_offset (ap_wal (fst s)) = foldl advance 0 (map req_event done)"
        using segs by (simp add: holds_segments_def foldl_advance)
      have "log_holds_acked crc ?a (done @ batch)"
        using pb answers segs(1) off by (simp add: log_holds_acked_def stamped_append)
      moreover have "snd s = (done @ batch) @ queue'"
        using arrived drained by simp
      ultimately show "\<exists>done. snd s = done @ ap_queue ?a \<and> log_holds_acked crc ?a done"
        by auto
    qed
  qed
qed

interpretation healthy_run: invariant_machine "counted_step crc" "healthy_log crc" for crc
  by unfold_locales (rule healthy_log_step)

definition arrivals :: "appender_event list \<Rightarrow> WalRequest list" where
  "arrivals es = concat (map (\<lambda>e. case e of Arrive req \<Rightarrow> [req] | RunLoopBody \<Rightarrow> []) es)"

lemma start_wal_healthy:
  assumes "start_wal off files io = Some w" "set io \<subseteq> {IoOk}"
  shows "healthy w" "ws_current_offset w = off" "ws_target w = wal_file_name off" "ws_buf w = []"
    "ws_files w = files(wal_file_name off \<mapsto> (case files (wal_file_name off) of
       Some f \<Rightarrow> f | None \<Rightarrow> \<lparr>lf_bytes = [], lf_synced = 0\<rparr>))"
proof -
  define st0 where "st0 = \<lparr>ws_current_offset = off, ws_file_start_offset = off, ws_file_size = 0,
    ws_path = wal_file_name off, ws_target = wal_file_name off, ws_buf = [], ws_files = files,
    ws_io = io\<rparr>"
  define st2 where "st2 = create_if_absent (wal_file_name off) (next_io (next_io st0))"
  have "healthy st0"
    using assms(2) by (simp add: st0_def healthy_def)
  then have h: "healthy (next_io st0)" "healthy (next_io (next_io st0))"
    using healthy_next by blast+
  then have h2: "healthy st2"
    by (simp add: st2_def create_if_absent_def healthy_def)
  have "open_append (wal_file_name off) (next_io st0) = (st2, None)"
    using h by (simp only: open_append_def pop_io_healthy st2_def prod.case io_outcome.case)
  then have w: "w = next_io st2\<lparr>ws_file_size := of_nat (length (lf_bytes (cur_file (next_io st2))))\<rparr>"
    using assms(1) \<open>healthy st0\<close> h2
    by (simp add: start_wal_def Let_def pop_io_healthy flip: st0_def)
  show "healthy w"
    using healthy_next [OF h2] by (simp add: w healthy_def)
  show "ws_current_offset w = off" "ws_target w = wal_file_name off" "ws_buf w = []"
    "ws_files w = files(wal_file_name off \<mapsto> (case files (wal_file_name off) of
       Some f \<Rightarrow> f | None \<Rightarrow> \<lparr>lf_bytes = [], lf_synced = 0\<rparr>))"
    by (simp_all add: w st2_def create_if_absent_def st0_def fun_upd_idem split: option.split)
qed

lemma start_holds_segments:
  assumes "start_wal 0 Map.empty io = Some w" "set io \<subseteq> {IoOk}"
  shows "holds_segments crc w [[]]"
  using start_wal_healthy [OF assms] by (simp add: holds_segments_def seg_start_def seg_file_def)

lemma healthy_run_holds:
  assumes "start_wal 0 Map.empty io = Some w" "set io \<subseteq> {IoOk}"
    and "frames_len (map req_event (arrivals es)) < 2 ^ 64"
    and "a = foldl (appender_step crc) \<lparr>ap_queue = [], ap_wal = w, ap_replies = [], ap_sent = []\<rparr> es"
  obtains "done" segs where "arrivals es = done @ ap_queue a" "ap_replies a = map (\<lambda>req. (req_id req, Acked)) done"
    "ap_sent a = stamped advance 0 (map req_event done)" "concat segs = map req_event done"
    "holds_segments crc (ap_wal a) segs"
proof -
  let ?a0 = "\<lparr>ap_queue = [], ap_wal = w, ap_replies = [], ap_sent = []\<rparr>"
  have "healthy_log crc (?a0, [])"
    using start_holds_segments [OF assms(1,2)]
    by (auto simp: healthy_log_def log_holds_acked_def intro!: exI [of _ "[[]]"])
  then have "healthy_log crc (foldl (counted_step crc) (?a0, []) es)"
    by (rule healthy_run.run_inv)
  then have "healthy_log crc (a, arrivals es)"
    by (simp add: counted_run arrivals_def assms(4))
  with that assms(3) show ?thesis
    by (auto simp: healthy_log_def log_holds_acked_def)
qed

text \<open>
  C14. Recovery of a healthy log: start the appender on an empty directory and let any requests
  arrive and be processed in any interleaving, with no failing call and fewer than 2^64 bytes.
  Then the answered requests are a prefix of the arrived ones, all acknowledged and all sent to
  the indexer with the end of their frame as offset; and the log directory holds their events,
  cut into one segment per file in order: each file is named after the offset its segment
  starts at, is completely on the disk, and the reader gets back exactly its segment.
\<close>

theorem healthy_log_recovers:
  assumes "start_wal 0 Map.empty io = Some w" "set io \<subseteq> {IoOk}"
    and "list_all (frame_ok \<circ> req_event) (arrivals es)"
    and "frames_len (map req_event (arrivals es)) < 2 ^ 64"
    and "a = foldl (appender_step crc) \<lparr>ap_queue = [], ap_wal = w, ap_replies = [], ap_sent = []\<rparr> es"
  shows "\<exists>done segs. arrivals es = done @ ap_queue a \<and>
    ap_replies a = map (\<lambda>req. (req_id req, Acked)) done \<and>
    ap_sent a = stamped advance 0 (map req_event done) \<and>
    concat segs = map req_event done \<and>
    dom (ws_files (ap_wal a)) = (\<lambda>k. wal_file_name (seg_start segs k)) ` {..< length segs} \<and>
    (\<forall>k < length segs. \<exists>f. ws_files (ap_wal a) (wal_file_name (seg_start segs k)) = Some f \<and>
       lf_synced f = length (lf_bytes f) \<and>
       read_log next_frame (Suc (length (segs ! k))) (wal_reader_new (lf_bytes f) 0) =
         Some (stamped advance 0 (segs ! k), None))"
proof -
  obtain "done" segs where d: "arrivals es = done @ ap_queue a" "ap_replies a = map (\<lambda>req. (req_id req, Acked)) done"
      "ap_sent a = stamped advance 0 (map req_event done)" "concat segs = map req_event done"
      "holds_segments crc (ap_wal a) segs"
    using healthy_run_holds [OF assms(1,2,4,5)] .
  have "list_all frame_ok (concat segs)"
    using assms(3) d(1,4) by (simp add: list_all_iff)
  then have ok: "list_all frame_ok (segs ! k)" if "k < length segs" for k
    using that by (auto simp: list_all_iff)
  have "ws_files (ap_wal a) (wal_file_name (seg_start segs k)) = Some (seg_file crc (segs ! k))"
    if "k < length segs" for k
    using d(5) that by (simp add: holds_segments_def)
  moreover from this have
    "dom (ws_files (ap_wal a)) = (\<lambda>k. wal_file_name (seg_start segs k)) ` {..< length segs}"
    using d(5) by (auto simp: holds_segments_def)
  moreover have "read_log next_frame (Suc (length (segs ! k)))
      (wal_reader_new (lf_bytes (seg_file crc (segs ! k))) 0) =
      Some (stamped advance 0 (segs ! k), None)" if "k < length segs" for k
    using wal_log.read_back [OF ok [OF that]] by (simp add: seg_file_def wal_reader_new_def)
  ultimately show ?thesis
    using d(1-4)
    by (intro exI [of _ "done"] exI [of _ segs]) (simp add: seg_file_def length_frames)
qed

section \<open>After an error\<close>

text \<open>The part of a frame before its payload.\<close>

definition frame_head :: "IngestEvent \<Rightarrow> u8 list" where
  "frame_head ev = u16_to_le (of_nat (length (ev_index ev))) @ as_bytes (ev_index ev) @
     u32_to_le (of_nat (length (ev_payload ev)))"

lemma buf_write_all_small:
  "length (ws_buf st) + length bs < buf_capacity \<Longrightarrow>
   buf_write_all st bs = (st\<lparr>ws_buf := ws_buf st @ bs\<rparr>, None)"
  by (simp add: buf_write_all_def Let_def less_diff_conv add.commute)

lemma write_parts_payload_fails:
  assumes "ws_buf st = []" "length (ev_index ev) + 6 < buf_capacity"
    and "buf_capacity \<le> length (ev_payload ev)"
    and "ws_io st = IoOk # IoErr 0 e # io" "set io \<subseteq> {IoOk}"
  shows "\<exists>st'. write_parts st (frame_parts crc ev) = (st', False) \<and> healthy st' \<and>
    ws_target st' = ws_target st \<and> stream st' = stream st @ frame_head ev"
proof -
  let ?st = "st\<lparr>ws_buf := frame_head ev\<rparr>"
  have "write_parts st (frame_parts crc ev) =
      write_parts ?st [ev_payload ev, u32_to_le (crc (as_bytes (ev_index ev) @ ev_payload ev))]"
    using assms(1,2) by (simp add: frame_parts_def Let_def buf_write_all_small frame_head_def)
  moreover have "buf_write_all ?st (ev_payload ev) =
      (append_bytes [] (append_bytes (frame_head ev) (st\<lparr>ws_io := IoErr 0 e # io\<rparr>)\<lparr>ws_buf := [], ws_io := io\<rparr>), Some e)"
    using assms(2-4)
    by (simp add: buf_write_all_def Let_def flush_buf_def file_write_all_def pop_io_def frame_head_def
        append_bytes_def set_cur_file_def cur_file_def)
  ultimately show ?thesis
    using assms(1,5)
    by (simp add: healthy_def append_bytes_def stream_def)
qed

lemma next_frame_short_payload:
  assumes "frame_ok ev" "length rest < length (ev_payload ev)"
  shows "\<exists>r'. next_frame \<lparr>rd_rest = frame_head ev @ rest, rd_current_offset = off\<rparr> =
    (r', Inl IoUnexpectedEof)"
proof -
  have "is_str (ev_index ev)" using assms(1) by (simp add: frame_ok_def)
  with assms(2) frame_ok_lengths [OF assms(1)] show ?thesis
    by (simp add: frame_head_def next_frame_def Let_def read_exact_short from_utf8_as_bytes)
qed

text \<open>
  C39. A failed batch can cost a later, acknowledged event. The log holds whole frames; a request
  with a payload of at least the buffer's size arrives, the head of its frame is written and
  the write of the payload fails with nothing written. Its sender gets no answer but a dropped
  responder. The next request is written, synced and acknowledged, yet a recovery of the file
  stops with an error before it: the reader takes its frame for the missing payload.
\<close>

theorem failed_batch_hides_acked:
  assumes "lf_bytes (cur_file st) = concat (map (encode_frame crc) evs)" "ws_buf st = []"
    and "list_all frame_ok evs" "frame_ok (req_event r1)"
    and "length (ev_index (req_event r1)) + 6 < buf_capacity"
    and "buf_capacity \<le> length (ev_payload (req_event r1))"
    and "frame_len (req_event r2) < length (ev_payload (req_event r1))"
    and "ws_io st = IoOk # IoErr 0 e # io" "set io \<subseteq> {IoOk}"
    and "process_batch crc st [r1] = (st1, replies1, sent1)"
    and "process_batch crc st1 [r2] = (st2, replies2, sent2)"
  shows "replies1 = [(req_id r1, Dropped)] \<and> replies2 = [(req_id r2, Acked)] \<and>
    (\<exists>f. ws_files st2 (ws_target st) = Some f \<and>
       read_log next_frame (Suc (length evs)) (wal_reader_new (lf_bytes f) 0) =
         Some (stamped advance 0 evs, Some IoUnexpectedEof))"
proof -
  let ?ev = "req_event r1"
  have wp: "\<exists>st'. write_parts st (frame_parts crc ?ev) = (st', False) \<and> healthy st' \<and>
      ws_target st' = ws_target st \<and> stream st' = stream st @ frame_head ?ev"
    using write_parts_payload_fails [OF assms(2,5,6,8,9)] .
  then obtain st' where st': "write_parts st (frame_parts crc ?ev) = (st', False)" "healthy st'"
      "ws_target st' = ws_target st" "stream st' = stream st @ frame_head ?ev"
    by blast
  have one: "st1 = st'" "replies1 = [(req_id r1, Dropped)]"
    using assms(10) st'(1) by (simp_all add: process_batch_def)
  have acked: "replies2 = [(req_id r2, Acked)]"
    using assms(11) st'(2) one(1)
    by (cases rule: process_batch_cases) simp_all
  then have "\<exists>f. ws_files st2 (ws_target st1) = Some f \<and>
      lf_bytes f = stream st1 @ concat (map (encode_frame crc \<circ> req_event) [r2]) \<and>
      lf_synced f = length (lf_bytes f)"
    using process_batch_durable [OF assms(11), of "req_id r2"] by simp
  then obtain f where f: "ws_files st2 (ws_target st) = Some f"
      "lf_bytes f = concat (map (encode_frame crc) evs) @ frame_head ?ev @ encode_frame crc (req_event r2)"
    using st' one assms(1,2) by (auto simp: stream_def)
  have "\<exists>r'. next_frame \<lparr>rd_rest = frame_head ?ev @ encode_frame crc (req_event r2),
      rd_current_offset = foldl advance 0 evs\<rparr> = (r', Inl IoUnexpectedEof)"
    by (rule next_frame_short_payload [OF assms(4)]) (use assms(7) in \<open>simp add: length_encode_frame\<close>)
  then have "read_log next_frame (Suc (length evs)) (wal_reader_new (lf_bytes f) 0) =
      Some (stamped advance 0 evs, Some IoUnexpectedEof)"
    using wal_log.read_log_append [OF assms(3), of "Suc 0" crc
        "frame_head ?ev @ encode_frame crc (req_event r2)" 0] f(2)
    by (auto simp: wal_reader_new_def)
  with one acked f show ?thesis by simp
qed

text \<open>
  Offsets after a restart. The appender is always started at offset 0; when the log file of
  that offset is already there, new frames are appended to it, but the offset sent with the
  first new event counts from 0 again and is smaller than the position at which its frame ends.
\<close>

theorem restart_reuses_offsets:
  assumes "start_wal 0 files io = Some w" "set io \<subseteq> {IoOk}"
    and "files (wal_file_name 0) = Some old" "lf_bytes old \<noteq> []"
    and "process_batch crc w [req] = (w', replies, sent)"
  shows "\<exists>f. sent = [(req_event req, of_nat (frame_len (req_event req)))] \<and>
    ws_files w' (wal_file_name 0) = Some f \<and>
    lf_bytes f = lf_bytes old @ encode_frame crc (req_event req) \<and>
    frame_len (req_event req) < length (lf_bytes f)"
proof -
  note start = start_wal_healthy [OF assms(1,2)]
  have replies: "replies = [(req_id req, Acked)]" "sent = [(req_event req, advance 0 (req_event req))]"
    using assms(5) start(1,2) by (cases rule: process_batch_cases; simp)+
  then have "\<exists>f. ws_files w' (ws_target w) = Some f \<and>
      lf_bytes f = stream w @ concat (map (encode_frame crc \<circ> req_event) [req]) \<and>
      lf_synced f = length (lf_bytes f)"
    using process_batch_durable [OF assms(5), of "req_id req"] by simp
  moreover have "stream w = lf_bytes old"
    using start(3-5) assms(3) by (simp add: stream_def cur_file_def)
  ultimately show ?thesis
    using replies start(3) assms(4) by (auto simp: advance_def length_encode_frame)
qed

section \<open>Witnesses\<close>

text \<open>An open, empty log with the given script.\<close>

definition empty_wal :: "io_outcome list \<Rightarrow> wal_state" where
  "empty_wal io = \<lparr>ws_current_offset = 0, ws_file_start_offset = 0, ws_file_size = 0,
     ws_path = ''0.wal'', ws_target = ''0.wal'', ws_buf = [],
     ws_files = [''0.wal'' \<mapsto> \<lparr>lf_bytes = [], lf_synced = 0\<rparr>], ws_io = io\<rparr>"

lemma start_wal_starts: "\<exists>w. start_wal off files [] = Some w"
  by (simp add: start_wal_def Let_def pop_io_def open_append_def create_if_absent_def)

definition req1 :: WalRequest where
  "req1 = \<lparr>req_id = 1, req_event = ev1\<rparr>"

definition big_req :: WalRequest where
  "big_req = \<lparr>req_id = 2, req_event = \<lparr>ev_index = ''idx1'', ev_payload = replicate 65536 0\<rparr>\<rparr>"

lemma process_batch_req1:
  "process_batch (\<lambda>_. 7) (empty_wal []) [req1] = (st', replies, sent) \<Longrightarrow> replies = [(1, Acked)]"
  by (cases rule: process_batch_cases, assumption) (auto simp: req1_def empty_wal_def healthy_def)

theorem acked_is_durable_witness:
  "\<exists>st' f. fst (process_batch (\<lambda>_. 7) (empty_wal []) [req1]) = st' \<and>
     ws_files st' ''0.wal'' = Some f \<and> lf_bytes f = encode_frame (\<lambda>_. 7) ev1 \<and>
     lf_synced f = length (lf_bytes f)"
proof -
  obtain st' replies sent where p: "process_batch (\<lambda>_. 7) (empty_wal []) [req1] = (st', replies, sent)"
    by (cases "process_batch (\<lambda>_. 7) (empty_wal []) [req1]") auto
  then have "(1, Acked) \<in> set replies"
    using process_batch_req1 by simp
  from acked_is_durable [OF p this] p show ?thesis
    by (auto simp: empty_wal_def req1_def stream_def cur_file_def)
qed

theorem healthy_log_recovers_witness:
  "\<exists>w segs. start_wal 0 Map.empty [] = Some w \<and> concat segs = [ev1] \<and>
    (\<forall>k < length segs. \<exists>f. ws_files (ap_wal (foldl (appender_step (\<lambda>_. 7))
         \<lparr>ap_queue = [], ap_wal = w, ap_replies = [], ap_sent = []\<rparr> [Arrive req1, RunLoopBody]))
         (wal_file_name (seg_start segs k)) = Some f \<and>
       read_log next_frame (Suc (length (segs ! k))) (wal_reader_new (lf_bytes f) 0) =
         Some (stamped advance 0 (segs ! k), None))"
proof -
  obtain w where w: "start_wal 0 Map.empty [] = Some w"
    using start_wal_starts by blast
  let ?es = "[Arrive req1, RunLoopBody]"
  let ?a = "foldl (appender_step (\<lambda>_. 7))
    \<lparr>ap_queue = [], ap_wal = w, ap_replies = [], ap_sent = []\<rparr> ?es"
  have arr: "arrivals ?es = [req1]"
    by (simp add: arrivals_def)
  have queue: "ap_queue ?a = []"
    by (simp split: prod.split)
  have ok: "list_all (frame_ok \<circ> req_event) (arrivals ?es)"
    "frames_len (map req_event (arrivals ?es)) < 2 ^ 64"
    using ev1_ok unfolding arr by (simp_all add: req1_def frame_len_def ev1_def)
  obtain "done" segs where "arrivals ?es = done @ ap_queue ?a" "concat segs = map req_event done"
    "\<forall>k < length segs. \<exists>f. ws_files (ap_wal ?a) (wal_file_name (seg_start segs k)) = Some f \<and>
       lf_synced f = length (lf_bytes f) \<and>
       read_log next_frame (Suc (length (segs ! k))) (wal_reader_new (lf_bytes f) 0) =
         Some (stamped advance 0 (segs ! k), None)"
    using healthy_log_recovers [OF w _ ok refl, of "\<lambda>_. 7"] by fastforce
  then show ?thesis
    using w arr queue by (intro exI [of _ w] exI [of _ segs]) (auto simp: req1_def)
qed

theorem failed_batch_hides_acked_witness:
  "\<exists>st1 replies1 sent1 st2 replies2 sent2 f.
    process_batch (\<lambda>_. 7) (empty_wal [IoOk, IoErr 0 IoOther]) [big_req] = (st1, replies1, sent1) \<and>
    process_batch (\<lambda>_. 7) st1 [req1] = (st2, replies2, sent2) \<and> replies2 = [(1, Acked)] \<and>
    ws_files st2 ''0.wal'' = Some f \<and>
    read_log next_frame 1 (wal_reader_new (lf_bytes f) 0) = Some ([], Some IoUnexpectedEof)"
proof -
  let ?st = "empty_wal [IoOk, IoErr 0 IoOther]"
  obtain st1 replies1 sent1 where p1: "process_batch (\<lambda>_. 7) ?st [big_req] = (st1, replies1, sent1)"
    by (cases "process_batch (\<lambda>_. 7) ?st [big_req]") auto
  obtain st2 replies2 sent2 where p2: "process_batch (\<lambda>_. 7) st1 [req1] = (st2, replies2, sent2)"
    by (cases "process_batch (\<lambda>_. 7) st1 [req1]") auto
  have ok: "frame_ok (req_event big_req)"
    by (simp add: big_req_def frame_ok_def is_ascii_is_str is_ascii_def)
  have "replies1 = [(req_id big_req, Dropped)] \<and> replies2 = [(req_id req1, Acked)] \<and>
    (\<exists>f. ws_files st2 (ws_target ?st) = Some f \<and>
       read_log next_frame (Suc (length ([] :: IngestEvent list))) (wal_reader_new (lf_bytes f) 0) =
         Some (stamped advance 0 [], Some IoUnexpectedEof))"
    by (rule failed_batch_hides_acked [OF _ _ _ ok _ _ _ _ _ p1 p2, where e = IoOther and io = "[]"])
      (simp_all add: empty_wal_def cur_file_def big_req_def buf_capacity_def frame_len_def req1_def ev1_def)
  then show ?thesis
    using p1 p2 by (auto simp: empty_wal_def req1_def)
qed

theorem restart_reuses_offsets_witness:
  "\<exists>w w' replies sent f.
    start_wal 0 [wal_file_name 0 \<mapsto> seg_file (\<lambda>_. 7) [ev1]] [] = Some w \<and>
    process_batch (\<lambda>_. 7) w [req1] = (w', replies, sent) \<and> sent = [(ev1, 18)] \<and>
    ws_files w' (wal_file_name 0) = Some f \<and> 18 < length (lf_bytes f)"
proof -
  let ?files = "[wal_file_name 0 \<mapsto> seg_file (\<lambda>_. 7) [ev1]]"
  obtain w where w: "start_wal 0 ?files [] = Some w"
    using start_wal_starts by blast
  obtain w' replies sent where p: "process_batch (\<lambda>_. 7) w [req1] = (w', replies, sent)"
    by (cases "process_batch (\<lambda>_. 7) w [req1]") auto
  have "encode_frame (\<lambda>_. 7) ev1 \<noteq> []"
    using length_encode_frame [of "\<lambda>_. 7" ev1] by (auto simp: frame_len_def)
  then have "lf_bytes (seg_file (\<lambda>_. 7) [ev1]) \<noteq> []"
    by (simp add: seg_file_def)
  moreover have "frame_len ev1 = 18"
    by (simp add: frame_len_def ev1_def)
  ultimately show ?thesis
    using restart_reuses_offsets [OF w _ _ _ p, of "seg_file (\<lambda>_. 7) [ev1]"] w p
    by (auto simp: req1_def)
qed

end
