(* ===== verification/Registry.thy ===== *)
theory Registry
  imports Schema_Valid
begin

text \<open>
  \<open>src/registry.rs\<close>: the table of index definitions behind its read-write lock. Every
  operation holds the lock for its whole body, so concurrent callers are a sequence of
  operations. The table refines a map from names to definitions; every reachable table holds
  each definition under its own name and only definitions that passed the check.
\<close>

section \<open>State and operations\<close>

datatype RegistryError =
    AlreadyExists string
  | NotFound string
  | ValidationErr ValidationError
  | RegistryIo io_error
  | LockError

text \<open>The lock is poisoned once a thread has panicked while it held it for writing.\<close>

record registry =
  reg_indexes :: "(string \<times> IndexDefinition) list"
  reg_poisoned :: bool

definition new_registry :: registry where
  "new_registry = \<lparr>reg_indexes = [], reg_poisoned = False\<rparr>"

definition register ::
    "registry \<Rightarrow> IndexDefinition \<Rightarrow> (registry \<times> (RegistryError + unit)) run" where
  "register r d =
     run_bind (validate d)
       (\<lambda>v. case v of
          Inl e \<Rightarrow> Ret (r, Inl (ValidationErr e))
        | Inr _ \<Rightarrow>
            if reg_poisoned r then Ret (r, Inl LockError)
            else if hm_contains_key (reg_indexes r) (idx_name d)
            then Ret (r, Inl (AlreadyExists (idx_name d)))
            else Ret (r\<lparr>reg_indexes := AList.update (idx_name d) d (reg_indexes r)\<rparr>, Inr ()))"

definition upsert ::
    "registry \<Rightarrow> IndexDefinition \<Rightarrow> (registry \<times> (RegistryError + unit)) run" where
  "upsert r d =
     run_bind (validate d)
       (\<lambda>v. case v of
          Inl e \<Rightarrow> Ret (r, Inl (ValidationErr e))
        | Inr _ \<Rightarrow>
            if reg_poisoned r then Ret (r, Inl LockError)
            else Ret (r\<lparr>reg_indexes := AList.update (idx_name d) d (reg_indexes r)\<rparr>, Inr ()))"

definition reg_get :: "registry \<Rightarrow> string \<Rightarrow> IndexDefinition option" where
  "reg_get r n = (if reg_poisoned r then None else map_of (reg_indexes r) n)"

definition reg_list :: "registry \<Rightarrow> IndexDefinition list" where
  "reg_list r = (if reg_poisoned r then [] else map snd (reg_indexes r))"

definition reg_remove :: "registry \<Rightarrow> string \<Rightarrow> registry \<times> (RegistryError + IndexDefinition)" where
  "reg_remove r n =
     (if reg_poisoned r then (r, Inl LockError)
      else case map_of (reg_indexes r) n of
        Some d \<Rightarrow> (r\<lparr>reg_indexes := AList.delete n (reg_indexes r)\<rparr>, Inr d)
      | None \<Rightarrow> (r, Inl (NotFound n)))"

section \<open>Loading a directory\<close>

text \<open>
  What the file system answers about one directory entry: whether it is a regular file, its
  name when the name is valid UTF-8, and the outcome of reading it.
\<close>

record dir_entry =
  de_is_file :: bool
  de_file_name :: "string option"
  de_read :: "io_error + string"

definition is_index_file :: "dir_entry \<Rightarrow> bool" where
  "is_index_file de \<longleftrightarrow>
     de_is_file de \<and>
     (case de_file_name de of
        Some file_name \<Rightarrow> ends_with file_name ''.index.yaml'' \<or> ends_with file_name ''.index.yml''
      | None \<Rightarrow> False)"

fun load_entries ::
    "(string \<Rightarrow> string + IndexDefinition) \<Rightarrow> registry \<Rightarrow> nat \<Rightarrow> (io_error + dir_entry) list \<Rightarrow>
     (registry \<times> (RegistryError + nat)) run" where
  "load_entries yaml r c [] = Ret (r, Inr c)"
| "load_entries yaml r c (Inl e # es) = Ret (r, Inl (RegistryIo e))"
| "load_entries yaml r c (Inr de # es) =
     (if is_index_file de then
        run_bind (from_file yaml (de_read de))
          (\<lambda>f. case f of
             Inl e \<Rightarrow> Ret (r, Inl (ValidationErr e))
           | Inr d \<Rightarrow>
               run_bind (register r d)
                 (\<lambda>(r', res). case res of
                    Inr _ \<Rightarrow> load_entries yaml r' (c + 1) es
                  | Inl (AlreadyExists _) \<Rightarrow> load_entries yaml r' c es
                  | Inl e \<Rightarrow> Ret (r', Inl e)))
      else load_entries yaml r c es)"

definition load_from_dir ::
    "(string \<Rightarrow> string + IndexDefinition) \<Rightarrow> bool \<Rightarrow> io_error + (io_error + dir_entry) list \<Rightarrow>
     registry \<Rightarrow> (registry \<times> (RegistryError + nat)) run" where
  "load_from_dir yaml exists read_dir r =
     (if \<not> exists then Ret (r, Inr 0)
      else case read_dir of
        Inl e \<Rightarrow> Ret (r, Inl (RegistryIo e))
      | Inr es \<Rightarrow> load_entries yaml r 0 es)"

section \<open>The invariant\<close>

definition passes_check :: "IndexDefinition \<Rightarrow> bool" where
  "passes_check d \<longleftrightarrow> validate d = Ret (Inr ())"

definition reg_inv :: "registry \<Rightarrow> bool" where
  "reg_inv r \<longleftrightarrow>
     hm_wf (reg_indexes r) \<and>
     (\<forall>(n, d) \<in> set (reg_indexes r). idx_name d = n \<and> passes_check d)"

lemma reg_inv_new [simp]: "reg_inv new_registry"
  by (simp add: reg_inv_def new_registry_def)

lemma reg_inv_update [keeps]:
  "reg_inv r \<Longrightarrow> passes_check d \<Longrightarrow>
   reg_inv (r\<lparr>reg_indexes := AList.update (idx_name d) d (reg_indexes r)\<rparr>)"
  by (auto simp: reg_inv_def dest!: set_update_cases)

lemma reg_inv_delete [keeps]:
  "reg_inv r \<Longrightarrow> reg_inv (r\<lparr>reg_indexes := AList.delete n (reg_indexes r)\<rparr>)"
  by (auto simp: reg_inv_def dest!: set_delete_subset)

lemma register_inv [keeps]: "reg_inv r \<Longrightarrow> register r d = Ret (r', res) \<Longrightarrow> reg_inv r'"
  by (auto simp: register_def run_bind_case passes_check_def
      split: run.splits sum.splits if_splits intro: reg_inv_update)

lemma upsert_inv [keeps]: "reg_inv r \<Longrightarrow> upsert r d = Ret (r', res) \<Longrightarrow> reg_inv r'"
  by (auto simp: upsert_def run_bind_case passes_check_def
      split: run.splits sum.splits if_splits intro: reg_inv_update)

lemma remove_inv [keeps]: "reg_inv r \<Longrightarrow> reg_inv (fst (reg_remove r n))"
  by (auto simp: reg_remove_def split: option.splits intro: reg_inv_delete)

lemma load_entries_inv [keeps]:
  "reg_inv r \<Longrightarrow> load_entries yaml r c es = Ret (r', res) \<Longrightarrow> reg_inv r'"
proof (induction yaml r c es rule: load_entries.induct)
  case (3 yaml r c de es)
  then show ?case
    by (auto simp: run_bind_case split: if_splits run.splits sum.splits RegistryError.splits)
      (blast dest: register_inv)+
qed auto

lemma load_entries_poisoned:
  "load_entries yaml r c es = Ret (r', res) \<Longrightarrow> reg_poisoned r' = reg_poisoned r"
proof (induction yaml r c es rule: load_entries.induct)
  case (3 yaml r c de es)
  have "reg_poisoned r1 = reg_poisoned r" if "register r d = Ret (r1, x)" for r1 d x
    using that by (auto simp: register_def run_bind_case split: run.splits sum.splits if_splits)
  with 3 show ?case
    by (auto simp: run_bind_case split: if_splits run.splits sum.splits RegistryError.splits) metis+
qed auto

lemma load_from_dir_inv [keeps]:
  assumes "reg_inv r" "load_from_dir yaml ex rd r = Ret (r', res)"
  shows "reg_inv r' \<and> reg_poisoned r' = reg_poisoned r"
  using assms load_entries_inv [OF assms(1)] load_entries_poisoned
  by (auto simp: load_from_dir_def split: if_splits sum.splits)

text \<open>The calls a client may make, as one step.\<close>

datatype reg_op = Register IndexDefinition | Upsert IndexDefinition | Remove string

fun reg_step :: "registry run \<Rightarrow> reg_op \<Rightarrow> registry run" where
  "reg_step m (Register d) = run_bind m (\<lambda>r. run_bind (register r d) (\<lambda>(r', _). Ret r'))"
| "reg_step m (Upsert d) = run_bind m (\<lambda>r. run_bind (upsert r d) (\<lambda>(r', _). Ret r'))"
| "reg_step m (Remove n) = run_bind m (\<lambda>r. Ret (fst (reg_remove r n)))"

definition run_inv :: "registry run \<Rightarrow> bool" where
  "run_inv m \<longleftrightarrow> (\<forall>r. m = Ret r \<longrightarrow> reg_inv r)"

interpretation reg: invariant_machine reg_step run_inv
proof
  fix m op
  assume "run_inv m"
  then show "run_inv (reg_step m op)"
    by (cases op) (auto simp: run_inv_def run_bind_case split: run.splits intro: keeps)
qed

text \<open>
  C32. Whatever sequence of registrations, updates and removals is made, the table never holds
  a name twice, holds each definition under that definition's own name, and holds only
  definitions that passed the check.
\<close>

theorem registry_reachable_inv:
  assumes "foldl reg_step (Ret new_registry) ops = Ret r"
  shows "distinct (map fst (reg_indexes r)) \<and>
    (\<forall>(n, d) \<in> set (reg_indexes r). idx_name d = n \<and> validate d = Ret (Inr ()))"
proof -
  have "run_inv (foldl reg_step (Ret new_registry) ops)"
    by (rule reg.run_inv) (simp add: run_inv_def)
  with assms show ?thesis
    by (auto simp: run_inv_def reg_inv_def hm_wf_def passes_check_def)
qed

section \<open>The table as a map\<close>

text \<open>
  The interface the rest of the program uses: look a name up, store a definition under its
  name, delete a name.
\<close>

locale definition_store =
  fixes get :: "'s \<Rightarrow> string \<Rightarrow> IndexDefinition option"
    and put :: "'s \<Rightarrow> IndexDefinition \<Rightarrow> 's"
    and del :: "'s \<Rightarrow> string \<Rightarrow> 's"
    and ok :: "'s \<Rightarrow> bool"
    and accepts :: "IndexDefinition \<Rightarrow> bool"
  assumes get_put: "ok s \<Longrightarrow> accepts d \<Longrightarrow>
      get (put s d) n = (if n = idx_name d then Some d else get s n)"
    and get_del: "ok s \<Longrightarrow> get (del s n') n = (if n = n' then None else get s n)"
    and ok_put: "ok s \<Longrightarrow> ok (put s d)"
    and ok_del: "ok s \<Longrightarrow> ok (del s n)"
begin

lemma ok_puts: "ok s \<Longrightarrow> ok (foldl put s ds)"
  by (induction ds arbitrary: s) (simp_all add: ok_put)

text \<open>After a series of stores the last definition of each name is found.\<close>

lemma last_put_wins:
  "ok s \<Longrightarrow> list_all accepts ds \<Longrightarrow>
   get (foldl put s ds) n =
     (case map_of (rev (map (\<lambda>d. (idx_name d, d)) ds)) n of None \<Rightarrow> get s n | Some d \<Rightarrow> Some d)"
proof (induction ds rule: rev_induct)
  case Nil
  then show ?case by simp
next
  case (snoc d ds)
  then show ?case by (simp add: get_put ok_puts)
qed

lemma put_after_del:
  "ok s \<Longrightarrow> accepts d \<Longrightarrow> get (put (del s (idx_name d)) d) = get (put s d)"
  by (auto simp: fun_eq_iff get_put get_del ok_del)

end

definition store_upsert :: "registry \<Rightarrow> IndexDefinition \<Rightarrow> registry" where
  "store_upsert r d = (case upsert r d of Ret (r', _) \<Rightarrow> r' | Panicked \<Rightarrow> r)"

lemma upsert_accepted:
  "passes_check d \<Longrightarrow> \<not> reg_poisoned r \<Longrightarrow>
   upsert r d = Ret (r\<lparr>reg_indexes := AList.update (idx_name d) d (reg_indexes r)\<rparr>, Inr ())"
  by (simp add: upsert_def passes_check_def)

lemma upsert_poisoned: "upsert r d = Ret (r', res) \<Longrightarrow> reg_poisoned r' = reg_poisoned r"
  by (auto simp: upsert_def run_bind_case split: run.splits sum.splits if_splits)

interpretation reg_store: definition_store reg_get store_upsert "\<lambda>r n. fst (reg_remove r n)"
    "\<lambda>r. \<not> reg_poisoned r" passes_check
  by unfold_locales
    (auto simp: reg_get_def store_upsert_def upsert_accepted reg_remove_def update_conv' delete_conv'
      upsert_poisoned split: run.splits option.splits)

text \<open>
  C18. Seen as a map from names to definitions, the operations are those of the map: a
  definition that passes the check is registered exactly when its name is free and reported
  as existing otherwise, an update always stores it, and a removal returns the stored
  definition and deletes it, or reports that there is none.
\<close>

theorem registry_refines_map:
  assumes "validate d = Ret (Inr ())" "\<not> reg_poisoned r"
  shows "\<exists>r1 r2 r3 res1 res3.
     register r d = Ret (r1, res1) \<and> upsert r d = Ret (r2, Inr ()) \<and> reg_remove r n = (r3, res3) \<and>
     (case reg_get r (idx_name d) of
        None \<Rightarrow> res1 = Inr () \<and> reg_get r1 = (reg_get r)(idx_name d \<mapsto> d)
      | Some _ \<Rightarrow> res1 = Inl (AlreadyExists (idx_name d)) \<and> r1 = r) \<and>
     reg_get r2 = (reg_get r)(idx_name d \<mapsto> d) \<and>
     (case reg_get r n of
        None \<Rightarrow> res3 = Inl (NotFound n) \<and> r3 = r
      | Some d' \<Rightarrow> res3 = Inr d' \<and> reg_get r3 = (reg_get r)(n := None))"
  using assms
  by (auto simp: register_def upsert_def reg_remove_def reg_get_def hm_contains_key_def
      update_conv' delete_conv' fun_eq_iff split: option.splits)

section \<open>What a directory load leaves behind\<close>

text \<open>The definitions a listing holds, when every index file in it can be read and is valid.\<close>

fun dir_definitions ::
    "(string \<Rightarrow> string + IndexDefinition) \<Rightarrow> (io_error + dir_entry) list \<Rightarrow>
     IndexDefinition list option" where
  "dir_definitions yaml [] = Some []"
| "dir_definitions yaml (Inl e # es) = None"
| "dir_definitions yaml (Inr de # es) =
     (if is_index_file de then
        (case from_file yaml (de_read de) of
           Ret (Inr d) \<Rightarrow> map_option ((#) d) (dir_definitions yaml es)
         | _ \<Rightarrow> None)
      else dir_definitions yaml es)"

lemma from_file_passes: "from_file yaml f = Ret (Inr d) \<Longrightarrow> passes_check d"
  by (auto simp: from_file_def passes_check_def validate_def run_bind_case
      split: sum.splits run.splits)

lemma register_cases [consumes 2, case_names taken added]:
  assumes "passes_check d" "\<not> reg_poisoned r"
  obtains (taken) "register r d = Ret (r, Inl (AlreadyExists (idx_name d)))"
      "reg_get r (idx_name d) \<noteq> None"
  | (added) r' where "register r d = Ret (r', Inr ())" "reg_get r (idx_name d) = None"
      "reg_get r' = (reg_get r)(idx_name d \<mapsto> d)" "\<not> reg_poisoned r'"
proof (cases "reg_get r (idx_name d)")
  case None
  with assms show ?thesis
    by (intro added [of "r\<lparr>reg_indexes := AList.update (idx_name d) d (reg_indexes r)\<rparr>"])
      (auto simp: register_def passes_check_def reg_get_def hm_contains_key_def update_conv')
next
  case (Some d')
  with assms show ?thesis
    by (intro taken) (auto simp: register_def passes_check_def reg_get_def hm_contains_key_def)
qed

abbreviation by_name :: "IndexDefinition list \<Rightarrow> string \<Rightarrow> IndexDefinition option" where
  "by_name ds \<equiv> map_of (map (\<lambda>d. (idx_name d, d)) ds)"

lemma load_entries_all:
  "\<not> reg_poisoned r \<Longrightarrow> dir_definitions yaml es = Some ds \<Longrightarrow>
   \<exists>r'. load_entries yaml r c es =
          Ret (r', Inr (c + card (idx_name ` set ds - dom (reg_get r)))) \<and>
        reg_get r' = by_name ds ++ reg_get r"
proof (induction yaml es arbitrary: r c ds rule: dir_definitions.induct)
  case (3 yaml de es)
  show ?case
  proof (cases "is_index_file de")
    case False
    with 3 show ?thesis by simp
  next
    case True
    with "3.prems" obtain d ds' where d: "from_file yaml (de_read de) = Ret (Inr d)"
        and ds: "dir_definitions yaml es = Some ds'" "ds = d # ds'"
      by (auto split: run.splits sum.splits)
    note IH = "3.IH"(1) [OF True d refl _ ds(1)]
    from from_file_passes [OF d] "3.prems"(1) show ?thesis
    proof (cases rule: register_cases)
      case taken
      then have "idx_name d \<in> dom (reg_get r)"
        by auto
      then have "idx_name ` set ds - dom (reg_get r) = idx_name ` set ds' - dom (reg_get r)"
        and "by_name ds ++ reg_get r = by_name ds' ++ reg_get r"
        by (auto simp: ds map_add_def fun_eq_iff split: option.splits)
      with IH [OF "3.prems"(1)] taken True d show ?thesis by simp
    next
      case (added r1)
      let ?new = "idx_name ` set ds' - dom (reg_get r1)"
      obtain r' where r': "load_entries yaml r1 (c + 1) es = Ret (r', Inr (c + 1 + card ?new))"
          "reg_get r' = by_name ds' ++ reg_get r1"
        using IH [OF added(4)] by blast
      have "dom (reg_get r1) = insert (idx_name d) (dom (reg_get r))"
        using added(3) by simp
      then have names: "idx_name ` set ds - dom (reg_get r) = insert (idx_name d) ?new"
          "idx_name d \<notin> ?new"
        using added(2) by (auto simp: ds)
      have "by_name ds ++ reg_get r = by_name ds' ++ reg_get r1"
        by (rule ext) (simp add: ds added(2,3) map_add_def split: option.split)
      moreover have "card (idx_name ` set ds - dom (reg_get r)) = Suc (card ?new)"
        unfolding names(1) by (rule card_insert_disjoint) (use names(2) in auto)
      moreover have "load_entries yaml r c (Inr de # es) = load_entries yaml r1 (c + 1) es"
        using added(1) True d by simp
      ultimately show ?thesis
        using r' by (intro exI [of _ r']) (simp only: add_Suc_right add_Suc Suc_eq_plus1 add.commute
          add.left_commute add.assoc simp_thms)
    qed
  qed
qed simp_all

lemma load_entries_fails:
  "\<not> reg_poisoned r \<Longrightarrow> dir_definitions yaml es = None \<Longrightarrow>
   load_entries yaml r c es \<noteq> Ret (r', Inr n)"
proof (induction yaml es arbitrary: r c rule: dir_definitions.induct)
  case (3 yaml de es)
  show ?case
  proof (cases "is_index_file de \<and> (\<exists>d. from_file yaml (de_read de) = Ret (Inr d))")
    case True
    then obtain d where True': "is_index_file de" "from_file yaml (de_read de) = Ret (Inr d)"
      by blast
    with "3.prems" have "dir_definitions yaml es = None"
      by simp
    note IH = "3.IH"(1) [OF True' refl _ this]
    from from_file_passes [OF True'(2)] "3.prems"(1) show ?thesis
      by (cases rule: register_cases) (use IH True' "3.prems"(1) in auto)
  next
    case False
    with 3 show ?thesis
      by (auto simp: run_bind_case split: run.splits sum.splits)
  qed
qed simp_all

text \<open>
  Loading a directory is all or nothing. When every entry can be listed and every index
  file in it can be read and passes the check, the load succeeds, the table holds for each
  name the first definition listed under it, and the count is the number of names. When some
  entry or file is bad, the load does not return a count, so the server does not start.
\<close>

theorem load_from_dir_outcome:
  "case dir_definitions yaml es of
     Some ds \<Rightarrow>
       (\<exists>r. load_from_dir yaml True (Inr es) new_registry =
              Ret (r, Inr (card (idx_name ` set ds))) \<and>
            reg_get r = map_of (map (\<lambda>d. (idx_name d, d)) ds))
   | None \<Rightarrow> \<forall>r n. load_from_dir yaml True (Inr es) new_registry \<noteq> Ret (r, Inr n)"
proof -
  have "\<not> reg_poisoned new_registry" "reg_get new_registry = Map.empty"
    by (auto simp: new_registry_def reg_get_def)
  with load_entries_all [of new_registry yaml es _ 0] load_entries_fails [of new_registry yaml es 0]
  show ?thesis
    by (auto simp: load_from_dir_def split: option.split)
qed

section \<open>Witnesses\<close>

definition logs_definition :: IndexDefinition where
  "logs_definition = index_of_fields ''logs'' [(''timestamp'', field_of_type Datetime)]"

lemma logs_definition_passes: "validate logs_definition = Ret (Inr ())"
  by (simp add: logs_definition_def index_of_fields_def validate_def validate_schema_def
      default_partition_def)

theorem registry_refines_map_witness:
  "\<exists>r1 res1. register new_registry logs_definition = Ret (r1, res1) \<and> res1 = Inr () \<and>
     reg_get r1 = (reg_get new_registry)(''logs'' \<mapsto> logs_definition)"
  using registry_refines_map [OF logs_definition_passes, of new_registry "''logs''"]
  by (auto simp: new_registry_def reg_get_def logs_definition_def index_of_fields_def)

theorem registry_reachable_inv_witness:
  "\<exists>r. foldl reg_step (Ret new_registry) [Upsert logs_definition, Remove ''metrics''] = Ret r \<and>
     distinct (map fst (reg_indexes r))"
proof -
  have "foldl reg_step (Ret new_registry) [Upsert logs_definition, Remove ''metrics''] =
      Ret \<lparr>reg_indexes = [(''logs'', logs_definition)], reg_poisoned = False\<rparr>"
    using logs_definition_passes
    by (simp add: upsert_def new_registry_def reg_remove_def)
      (simp add: logs_definition_def index_of_fields_def)
  from this registry_reachable_inv [OF this] show ?thesis by simp
qed

end
