(* ===== verification/Schema_Build.thy ===== *)
theory Schema_Build
  imports Schema_Valid
begin

text \<open>
  \<open>src/schema/builder.rs\<close>: turning an index definition into a Tantivy schema. Tantivy's
  schema builder is a parameter; what is modelled is which fields the code adds, with which
  options and in which order. The result does not depend on the iteration order of the field
  map, and no name is added twice exactly when the definition leaves the reserved names alone.
\<close>

section \<open>Field options\<close>

datatype IndexRecordOption = Basic | WithFreqsAndPositions

text \<open>A tokenizer's name and how much of a posting is recorded.\<close>

record TextFieldIndexing =
  tfi_tokenizer :: string
  tfi_index_option :: IndexRecordOption

record TextOptions =
  to_indexing :: "TextFieldIndexing option"
  to_stored :: bool
  to_fast :: bool

record NumericOptions =
  no_indexed :: bool
  no_stored :: bool
  no_fast :: bool

text \<open>The calls \<open>add_text_field\<close>, \<open>add_date_field\<close> and so on, with their options.\<close>

datatype field_options =
    AddText TextOptions
  | AddDate NumericOptions
  | AddI64 NumericOptions
  | AddF64 NumericOptions
  | AddBool NumericOptions
  | AddBytes NumericOptions
  | AddJsonStored

definition text_options :: "string \<Rightarrow> IndexRecordOption \<Rightarrow> FieldDefinition \<Rightarrow> TextOptions" where
  "text_options tokenizer opt fd =
     \<lparr>to_indexing =
        (if fd_indexed fd then Some \<lparr>tfi_tokenizer = tokenizer, tfi_index_option = opt\<rparr> else None),
      to_stored = fd_stored fd,
      to_fast = fd_fast fd\<rparr>"

definition numeric_options :: "FieldDefinition \<Rightarrow> NumericOptions" where
  "numeric_options fd =
     \<lparr>no_indexed = fd_indexed fd, no_stored = fd_stored fd, no_fast = fd_fast fd\<rparr>"

definition options_of :: "FieldDefinition \<Rightarrow> field_options" where
  "options_of fd =
     (case fd_field_type fd of
        Text \<Rightarrow> AddText (text_options ''default'' WithFreqsAndPositions fd)
      | Keyword \<Rightarrow> AddText (text_options ''raw'' Basic fd)
      | Datetime \<Rightarrow> AddDate (numeric_options fd)
      | Integer \<Rightarrow> AddI64 (numeric_options fd)
      | FloatField \<Rightarrow> AddF64 (numeric_options fd)
      | Boolean \<Rightarrow> AddBool (numeric_options fd)
      | Bytes \<Rightarrow> AddBytes (numeric_options fd))"

definition dynamic_options :: TextOptions where
  "dynamic_options =
     \<lparr>to_indexing =
        Some \<lparr>tfi_tokenizer = ''default'', tfi_index_option = WithFreqsAndPositions\<rparr>,
      to_stored = True, to_fast = False\<rparr>"

section \<open>Building\<close>

text \<open>
  Tantivy's builder: a fresh one, adding a field under a name (which may panic), and the
  finished schema.
\<close>

record ('b, 'x) schema_api =
  sa_builder :: 'b
  sa_add :: "'b \<Rightarrow> string \<Rightarrow> field_options \<Rightarrow> 'b run"
  sa_build :: "'b \<Rightarrow> 'x"

fun add_fields :: "('b, 'x) schema_api \<Rightarrow> 'b \<Rightarrow> (string \<times> FieldDefinition) list \<Rightarrow> 'b run" where
  "add_fields api b [] = Ret b"
| "add_fields api b ((name, field_def) # fs) =
     run_bind (sa_add api b name (options_of field_def)) (\<lambda>b'. add_fields api b' fs)"

definition build_schema :: "('b, 'x) schema_api \<Rightarrow> IndexDefinition \<Rightarrow> (string + 'x) run" where
  "build_schema api d =
     run_bind (add_fields api (sa_builder api) (sort_key fst (idx_fields d)))
       (\<lambda>b1. run_bind (sa_add api b1 ''_source'' AddJsonStored)
         (\<lambda>b2. if idx_mode d = Dynamic
               then run_bind (sa_add api b2 ''_dynamic'' (AddText dynamic_options))
                      (\<lambda>b3. Ret (Inr (sa_build api b3)))
               else Ret (Inr (sa_build api b2))))"

text \<open>The same calls as one list: the entries a definition gives rise to.\<close>

definition schema_entries :: "IndexDefinition \<Rightarrow> (string \<times> field_options) list" where
  "schema_entries d =
     map (\<lambda>(n, fd). (n, options_of fd)) (sort_key fst (idx_fields d)) @
     [(''_source'', AddJsonStored)] @
     (if idx_mode d = Dynamic then [(''_dynamic'', AddText dynamic_options)] else [])"

fun add_all :: "('b, 'x) schema_api \<Rightarrow> 'b \<Rightarrow> (string \<times> field_options) list \<Rightarrow> 'b run" where
  "add_all api b [] = Ret b"
| "add_all api b ((n, opts) # es) = run_bind (sa_add api b n opts) (\<lambda>b'. add_all api b' es)"

lemma run_bind_assoc: "run_bind (run_bind m f) g = run_bind m (\<lambda>x. run_bind (f x) g)"
  by (cases m) simp_all

lemma run_bind_Ret [simp]: "run_bind m Ret = m"
  by (cases m) simp_all

lemma add_all_append:
  "add_all api b (xs @ ys) = run_bind (add_all api b xs) (\<lambda>b'. add_all api b' ys)"
  by (induction xs arbitrary: b) (auto simp: run_bind_assoc)

lemma add_fields_add_all:
  "add_fields api b fs = add_all api b (map (\<lambda>(n, fd). (n, options_of fd)) fs)"
  by (induction api b fs rule: add_fields.induct) simp_all

lemma build_schema_entries:
  "build_schema api d =
    run_bind (add_all api (sa_builder api) (schema_entries d)) (\<lambda>b. Ret (Inr (sa_build api b)))"
  by (simp add: build_schema_def schema_entries_def add_fields_add_all add_all_append
      run_bind_assoc)

section \<open>Iteration order\<close>

lemma sort_key_fst_unique:
  assumes "hm_wf m" "mset m = mset m'"
  shows "sort_key fst m = sort_key (fst :: string \<times> 'v \<Rightarrow> string) m'"
proof (rule properties_for_sort_key)
  show "mset (sort_key fst m') = mset m"
    using assms(2) by simp
  show "sorted (map fst (sort_key fst m'))"
    by simp
  have "mset (map fst m') = mset (map fst m)"
    using assms(2) by simp
  then have wf': "hm_wf m'"
    using assms(1) by (metis hm_wf_def mset_eq_imp_distinct_iff)
  show "filter (\<lambda>x. fst k = fst x) (sort_key fst m') = filter (\<lambda>x. fst k = fst x) m"
    if "k \<in> set (sort_key fst m')" for k
  proof -
    have one: "filter (\<lambda>x. fst k = fst x) n = [k]" if "hm_wf n" "k \<in> set n" for n
      using that
    proof (induction n)
      case (Cons e n)
      then show ?case
        by (auto simp: hm_wf_def filter_empty_conv) (metis fst_conv image_eqI prod.collapse)+
    qed simp
    have "hm_wf (sort_key fst m')"
      using wf' by (simp add: hm_wf_def distinct_map)
    moreover have "k \<in> set m"
      using that assms(2) by (metis mset_eq_setD set_sort)
    ultimately show ?thesis
      using one assms(1) that by simp
  qed
qed

text \<open>
  The schema does not depend on the order in which the field map is iterated: two
  definitions that list the same fields in different orders make the same calls in the same
  order, so they give the same schema.
\<close>

theorem build_schema_order:
  assumes "hm_wf (idx_fields d)" "mset fs = mset (idx_fields d)"
  shows "build_schema api (d\<lparr>idx_fields := fs\<rparr>) = build_schema api d"
  using sort_key_fst_unique [OF assms(1) assms(2) [symmetric]] by (simp add: build_schema_def)

section \<open>Reserved names\<close>

lemma distinct_sorted_names:
  "hm_wf (m :: (string \<times> 'v) list) \<Longrightarrow> distinct (map fst (sort_key fst m))"
  by (simp add: hm_wf_def distinct_map)

lemma entry_names_distinct:
  assumes "hm_wf (idx_fields d)"
  shows "distinct (map fst (schema_entries d)) \<longleftrightarrow>
    ''_source'' \<notin> fst ` set (idx_fields d) \<and>
    (idx_mode d = Dynamic \<longrightarrow> ''_dynamic'' \<notin> fst ` set (idx_fields d))"
  using distinct_sorted_names [OF assms]
  by (auto simp: schema_entries_def comp_def case_prod_beta image_comp)

text \<open>
  What the code relies on: a name that is not there yet can be added, and the builder then
  holds it. \<open>entries\<close> reads off what a builder holds.
\<close>

definition schema_api_law ::
    "('b, 'x) schema_api \<Rightarrow> ('b \<Rightarrow> (string \<times> field_options) list) \<Rightarrow> bool" where
  "schema_api_law api entries \<longleftrightarrow>
     entries (sa_builder api) = [] \<and>
     (\<forall>b n opts. n \<notin> fst ` set (entries b) \<longrightarrow>
        (\<exists>b'. sa_add api b n opts = Ret b' \<and> entries b' = entries b @ [(n, opts)]))"

lemma add_all_fresh:
  assumes "schema_api_law api entries"
  shows "distinct (map fst (entries b @ es)) \<Longrightarrow>
    \<exists>b'. add_all api b es = Ret b' \<and> entries b' = entries b @ es"
proof (induction es arbitrary: b)
  case Nil
  then show ?case by simp
next
  case (Cons e es)
  obtain n opts where e: "e = (n, opts)" by (cases e)
  from Cons.prems have "n \<notin> fst ` set (entries b)"
    by (auto simp: e)
  with assms obtain b1 where b1: "sa_add api b n opts = Ret b1" "entries b1 = entries b @ [e]"
    unfolding schema_api_law_def e by blast
  with Cons.IH [of b1] Cons.prems show ?case
    by (auto simp: e)
qed

text \<open>
  C25. When the definition declares neither \<open>_source\<close> nor, in dynamic mode,
  \<open>_dynamic\<close>, building succeeds and the schema holds the declared fields in name
  order with the options of their definitions, then \<open>_source\<close>, then in dynamic mode
  \<open>_dynamic\<close>.
\<close>

theorem build_schema_succeeds:
  assumes "schema_api_law api entries" "hm_wf (idx_fields d)"
    and "''_source'' \<notin> fst ` set (idx_fields d)"
    and "idx_mode d = Dynamic \<Longrightarrow> ''_dynamic'' \<notin> fst ` set (idx_fields d)"
  shows "\<exists>b. build_schema api d = Ret (Inr (sa_build api b)) \<and> entries b = schema_entries d"
proof -
  have "distinct (map fst (entries (sa_builder api) @ schema_entries d))"
    using assms entry_names_distinct [of d] by (simp add: schema_api_law_def)
  from add_all_fresh [OF assms(1) this] assms(1) show ?thesis
    by (auto simp: build_schema_entries schema_api_law_def)
qed

text \<open>
  Tantivy's builder panics when a name is added a second time.
\<close>

definition schema_api_refuses ::
    "('b, 'x) schema_api \<Rightarrow> ('b \<Rightarrow> (string \<times> field_options) list) \<Rightarrow> bool" where
  "schema_api_refuses api entries \<longleftrightarrow>
     (\<forall>b n opts. n \<in> fst ` set (entries b) \<longrightarrow> sa_add api b n opts = Panicked)"

lemma add_all_duplicate:
  assumes "schema_api_law api entries" "schema_api_refuses api entries"
  shows "distinct (map fst (entries b)) \<Longrightarrow> \<not> distinct (map fst (entries b @ es)) \<Longrightarrow>
    add_all api b es = Panicked"
proof (induction es arbitrary: b)
  case Nil
  then show ?case by simp
next
  case (Cons e es)
  obtain n opts where e: "e = (n, opts)" by (cases e)
  show ?case
  proof (cases "n \<in> fst ` set (entries b)")
    case True
    with assms(2) show ?thesis by (simp add: e schema_api_refuses_def)
  next
    case False
    with assms(1) obtain b1 where "sa_add api b n opts = Ret b1" "entries b1 = entries b @ [e]"
      unfolding schema_api_law_def e by blast
    with False Cons.IH [of b1] Cons.prems show ?thesis by (simp add: e)
  qed
qed

text \<open>
  With a builder that refuses a second field of the same name, building panics exactly
  when the definition declares \<open>_source\<close>, or \<open>_dynamic\<close> in dynamic mode.
  The check of a definition does not look for these names (the witness is an accepted one).
\<close>

theorem build_schema_panics_iff:
  assumes "schema_api_law api entries" "schema_api_refuses api entries" "hm_wf (idx_fields d)"
  shows "build_schema api d = Panicked \<longleftrightarrow>
    ''_source'' \<in> fst ` set (idx_fields d) \<or>
    (idx_mode d = Dynamic \<and> ''_dynamic'' \<in> fst ` set (idx_fields d))"
proof (cases "distinct (map fst (schema_entries d))")
  case True
  then have "distinct (map fst (entries (sa_builder api) @ schema_entries d))"
    using assms(1) by (simp add: schema_api_law_def)
  with True add_all_fresh [OF assms(1) this] show ?thesis
    unfolding entry_names_distinct [OF assms(3)] build_schema_entries by auto
next
  case False
  moreover have "entries (sa_builder api) = []"
    using assms(1) by (simp add: schema_api_law_def)
  ultimately have "add_all api (sa_builder api) (schema_entries d) = Panicked"
    using add_all_duplicate [OF assms(1,2), of "sa_builder api" "schema_entries d"] by simp
  then have "build_schema api d = Panicked"
    by (simp add: build_schema_entries)
  with False show ?thesis
    unfolding entry_names_distinct [OF assms(3)] by blast
qed

section \<open>Witnesses\<close>

text \<open>A builder that holds the list of its entries and refuses a name it already has.\<close>

definition list_api :: "((string \<times> field_options) list, (string \<times> field_options) list) schema_api" where
  "list_api =
     \<lparr>sa_builder = [],
      sa_add = (\<lambda>b n opts. if n \<in> fst ` set b then Panicked else Ret (b @ [(n, opts)])),
      sa_build = (\<lambda>b. b)\<rparr>"

definition two_fields :: IndexDefinition where
  "two_fields = index_of_fields ''logs''
     [(''ts'', field_of_type Datetime), (''level'', field_of_type Keyword)]"

lemma list_api_law: "schema_api_law list_api (\<lambda>b. b)" "schema_api_refuses list_api (\<lambda>b. b)"
  by (simp_all add: schema_api_law_def schema_api_refuses_def list_api_def)

theorem build_schema_order_witness:
  "build_schema list_api (two_fields\<lparr>idx_fields :=
     [(''level'', field_of_type Keyword), (''ts'', field_of_type Datetime)]\<rparr>) =
   build_schema list_api two_fields"
  by (rule build_schema_order) (simp_all add: two_fields_def index_of_fields_def hm_wf_def)

theorem build_schema_succeeds_witness:
  "\<exists>b. build_schema list_api two_fields = Ret (Inr (sa_build list_api b)) \<and>
       b = schema_entries two_fields"
  using build_schema_succeeds [OF list_api_law(1), of two_fields]
  by (simp add: two_fields_def index_of_fields_def hm_wf_def)

definition reserved_definition :: IndexDefinition where
  "reserved_definition = index_of_fields ''logs'' [(''_source'', field_of_type Text)]"

theorem build_schema_panics_iff_witness:
  "validate_schema reserved_definition = Ret (Inr ()) \<and>
   build_schema list_api reserved_definition = Panicked"
  using build_schema_panics_iff [OF list_api_law, of reserved_definition]
  by (simp add: reserved_definition_def index_of_fields_def hm_wf_def validate_schema_def
      default_partition_def)

end
