(* ===== verification/Index_Manager.thy ===== *)
theory Index_Manager
  imports Registry Schema_Build
begin

text \<open>
  \<open>src/index_manager.rs\<close>: the cache of open Tantivy indexes and readers, one per index name,
  filled on first use from the definition in the registry. Tantivy and the file system are
  parameters. An index handle, once cached, is returned for ever, whatever happens to the
  definition.
\<close>

section \<open>Paths and small texts\<close>

text \<open>\<open>Path::join\<close>: an absolute second path replaces the first.\<close>

definition path_join :: "string \<Rightarrow> string \<Rightarrow> string" where
  "path_join p q =
     (if starts_with q ''/'' then q
      else if p = [] \<or> last p = CHR ''/'' then p @ q
      else p @ ''/'' @ q)"

definition quoted :: "string \<Rightarrow> string" where
  "quoted s = [CHR 0x27] @ s @ [CHR 0x27]"

section \<open>Parameters\<close>

text \<open>
  The file system, whose state is \<open>'w\<close>, and Tantivy: create a directory with its parents, open
  it, open or create an index in it with a schema, build a reader with a cache size, and the
  schema of an index. The calls that can fail return an error text.
\<close>

record ('w, 'x, 'd, 'i, 'rd) index_api =
  ix_create_dir_all :: "'w \<Rightarrow> string \<Rightarrow> 'w \<times> string option"
  ix_open_dir :: "'w \<Rightarrow> string \<Rightarrow> string + 'd"
  ix_open_or_create :: "'w \<Rightarrow> 'd \<Rightarrow> 'x \<Rightarrow> 'w \<times> (string + 'i)"
  ix_reader :: "'w \<Rightarrow> 'i \<Rightarrow> u64 \<Rightarrow> string + 'rd"
  ix_schema :: "'i \<Rightarrow> 'x"

section \<open>The manager\<close>

record ('i, 'rd) manager =
  im_base_dir :: string
  im_indexes :: "(string \<times> 'i) list"
  im_readers :: "(string \<times> 'rd) list"
  im_docstore_cache_blocks :: u64

definition new_manager :: "string \<Rightarrow> u64 \<Rightarrow> ('i, 'rd) manager" where
  "new_manager base_dir docstore_cache_blocks =
     \<lparr>im_base_dir = base_dir, im_indexes = [], im_readers = [],
      im_docstore_cache_blocks = docstore_cache_blocks\<rparr>"

definition index_path :: "('i, 'rd) manager \<Rightarrow> string \<Rightarrow> string" where
  "index_path m index_name = path_join (path_join (im_base_dir m) ''indexes'') index_name"

definition get_or_create_index ::
    "('b, 'x) schema_api \<Rightarrow> ('w, 'x, 'd, 'i, 'rd) index_api \<Rightarrow> registry \<Rightarrow>
     ('i, 'rd) manager \<times> 'w \<Rightarrow> string \<Rightarrow> (('i, 'rd) manager \<times> 'w \<times> (string + 'i)) run" where
  "get_or_create_index sapi api r mw index_name =
     (case mw of (m, w) \<Rightarrow>
        case map_of (im_indexes m) index_name of
          Some idx \<Rightarrow> Ret (m, w, Inr idx)
        | None \<Rightarrow>
            (case reg_get r index_name of
               None \<Rightarrow> Ret (m, w, Inl (''Index definition not found: '' @ quoted index_name))
             | Some def \<Rightarrow>
                 run_bind (build_schema sapi def)
                   (\<lambda>s. case s of
                      Inl e \<Rightarrow> Ret (m, w, Inl e)
                    | Inr schema \<Rightarrow>
                        let path = index_path m index_name in
                        (case ix_create_dir_all api w path of
                           (w1, Some e) \<Rightarrow> Ret (m, w1, Inl e)
                         | (w1, None) \<Rightarrow>
                             (case ix_open_dir api w1 path of
                                Inl e \<Rightarrow> Ret (m, w1, Inl e)
                              | Inr dir \<Rightarrow>
                                  (case ix_open_or_create api w1 dir schema of
                                     (w2, Inl e) \<Rightarrow> Ret (m, w2, Inl e)
                                   | (w2, Inr index) \<Rightarrow>
                                       Ret (m\<lparr>im_indexes := AList.update index_name index (im_indexes m)\<rparr>,
                                            w2, Inr index)))))))"

definition get_reader ::
    "('b, 'x) schema_api \<Rightarrow> ('w, 'x, 'd, 'i, 'rd) index_api \<Rightarrow> registry \<Rightarrow>
     ('i, 'rd) manager \<times> 'w \<Rightarrow> string \<Rightarrow> (('i, 'rd) manager \<times> 'w \<times> (string + 'rd)) run" where
  "get_reader sapi api r mw index_name =
     (case map_of (im_readers (fst mw)) index_name of
        Some reader \<Rightarrow> Ret (fst mw, snd mw, Inr reader)
      | None \<Rightarrow>
          run_bind (get_or_create_index sapi api r mw index_name)
            (\<lambda>(m, w, res). case res of
               Inl e \<Rightarrow> Ret (m, w, Inl e)
             | Inr index \<Rightarrow>
                 (case ix_reader api w index (im_docstore_cache_blocks m) of
                    Inl e \<Rightarrow> Ret (m, w, Inl e)
                  | Inr reader \<Rightarrow>
                      Ret (m\<lparr>im_readers := AList.update index_name reader (im_readers m)\<rparr>,
                           w, Inr reader))))"

section \<open>The invariant of the caches\<close>

definition manager_inv :: "('i, 'rd) manager \<Rightarrow> bool" where
  "manager_inv m \<longleftrightarrow>
     hm_wf (im_indexes m) \<and> hm_wf (im_readers m) \<and>
     fst ` set (im_readers m) \<subseteq> fst ` set (im_indexes m)"

lemma manager_inv_new [simp]: "manager_inv (new_manager base n)"
  by (simp add: manager_inv_def new_manager_def)

lemma fst_set_update: "fst ` set (AList.update k v m) = insert k (fst ` set m)"
  by (simp add: dom_update)

text \<open>Every outcome of a lookup, in one rule.\<close>

lemma get_or_create_cases [consumes 1, case_names cached created failed]:
  assumes "get_or_create_index sapi api r (m, w) n = Ret (m', w', res)"
  obtains (cached) i where "map_of (im_indexes m) n = Some i" "m' = m" "w' = w" "res = Inr i"
  | (created) d s w1 dir i where "map_of (im_indexes m) n = None" "reg_get r n = Some d"
      "build_schema sapi d = Ret (Inr s)" "ix_create_dir_all api w (index_path m n) = (w1, None)"
      "ix_open_dir api w1 (index_path m n) = Inr dir" "ix_open_or_create api w1 dir s = (w', Inr i)"
      "m' = m\<lparr>im_indexes := AList.update n i (im_indexes m)\<rparr>" "res = Inr i"
  | (failed) e where "map_of (im_indexes m) n = None" "m' = m" "res = Inl e"
proof (cases "map_of (im_indexes m) n")
  case (Some i)
  with assms have "m' = m" "w' = w" "res = Inr i"
    by (simp_all add: get_or_create_index_def)
  with cached Some show ?thesis by blast
next
  case None
  show ?thesis
  proof (cases res)
    case (Inl e)
    with assms None have "m' = m"
      by (auto simp: get_or_create_index_def run_bind_case Let_def
          split: option.splits run.splits sum.splits prod.splits)
    with failed None Inl show ?thesis by blast
  next
    case (Inr i)
    with assms None have "\<exists>d s w1 dir. reg_get r n = Some d \<and> build_schema sapi d = Ret (Inr s) \<and>
        ix_create_dir_all api w (index_path m n) = (w1, None) \<and>
        ix_open_dir api w1 (index_path m n) = Inr dir \<and>
        ix_open_or_create api w1 dir s = (w', Inr i) \<and>
        m' = m\<lparr>im_indexes := AList.update n i (im_indexes m)\<rparr>"
      by (auto simp: get_or_create_index_def run_bind_case Let_def
          split: option.splits run.splits sum.splits prod.splits)
    with created None Inr show ?thesis by blast
  qed
qed

lemma get_or_create_index_keeps [keeps]:
  assumes "get_or_create_index sapi api r (m, w) n = Ret (m', w', res)" "manager_inv m"
  shows "manager_inv m' \<and> im_readers m' = im_readers m \<and>
    (\<forall>i. res = Inr i \<longrightarrow> map_of (im_indexes m') n = Some i) \<and>
    (\<forall>k. k \<noteq> n \<longrightarrow> map_of (im_indexes m') k = map_of (im_indexes m) k)"
  using assms(1)
  by (cases rule: get_or_create_cases)
    (use assms(2) in \<open>auto simp: manager_inv_def fst_set_update update_conv'\<close>)

text \<open>
  Tantivy opens an index only if its schema is the one asked for. Every cached index then has a
  schema the program has built.
\<close>

definition index_law :: "('w, 'x, 'd, 'i, 'rd) index_api \<Rightarrow> bool" where
  "index_law api \<longleftrightarrow> (\<forall>w dir s w' i. ix_open_or_create api w dir s = (w', Inr i) \<longrightarrow> ix_schema api i = s)"

definition built :: "('b, 'x) schema_api \<Rightarrow> 'x \<Rightarrow> bool" where
  "built sapi x \<longleftrightarrow> (\<exists>d. build_schema sapi d = Ret (Inr x))"

definition indexes_built ::
    "('b, 'x) schema_api \<Rightarrow> ('w, 'x, 'd, 'i, 'rd) index_api \<Rightarrow> ('i, 'rd) manager \<Rightarrow> bool" where
  "indexes_built sapi api m \<longleftrightarrow> (\<forall>n i. map_of (im_indexes m) n = Some i \<longrightarrow> built sapi (ix_schema api i))"

lemma get_or_create_built:
  assumes "index_law api" "get_or_create_index sapi api r (m, w) n = Ret (m', w', res)" "indexes_built sapi api m"
  shows "indexes_built sapi api m' \<and> (\<forall>i. res = Inr i \<longrightarrow> built sapi (ix_schema api i))"
  using assms(2)
proof (cases rule: get_or_create_cases)
  case (created d s w1 dir i)
  then have "built sapi (ix_schema api i)"
    using assms(1) unfolding index_law_def built_def by metis
  with created assms(3) show ?thesis
    by (auto simp: indexes_built_def update_conv')
qed (use assms(3) in \<open>auto simp: indexes_built_def\<close>)

text \<open>A lookup touches the caches at no other name.\<close>

lemma get_reader_other:
  assumes "get_reader sapi api r (m, w) n = Ret (m', w', res)" "k \<noteq> n"
  shows "map_of (im_indexes m') k = map_of (im_indexes m) k \<and> map_of (im_readers m') k = map_of (im_readers m) k"
proof (cases "map_of (im_readers m) n")
  case (Some reader)
  with assms show ?thesis by (simp add: get_reader_def)
next
  case None
  with assms(1) obtain m1 w1 res1 where g: "get_or_create_index sapi api r (m, w) n = Ret (m1, w1, res1)"
    by (auto simp: get_reader_def run_simps)
  then have "map_of (im_indexes m1) k = map_of (im_indexes m) k \<and> im_readers m1 = im_readers m"
    by (cases rule: get_or_create_cases) (use assms(2) in \<open>auto simp: update_conv'\<close>)
  with assms None g show ?thesis
    by (auto simp: get_reader_def update_conv' split: sum.splits)
qed

lemma get_reader_keeps [keeps]:
  assumes "get_reader sapi api r (m, w) n = Ret (m', w', res)" "manager_inv m"
  shows "manager_inv m'"
proof (cases "map_of (im_readers m) n")
  case (Some reader)
  with assms show ?thesis by (simp add: get_reader_def)
next
  case None
  with assms(1) obtain m1 w1 res1 where
      g: "get_or_create_index sapi api r (m, w) n = Ret (m1, w1, res1)"
    and rest: "(case res1 of
               Inl e \<Rightarrow> Ret (m1, w1, Inl e)
             | Inr index \<Rightarrow>
                 (case ix_reader api w1 index (im_docstore_cache_blocks m1) of
                    Inl e \<Rightarrow> Ret (m1, w1, Inl e)
                  | Inr reader \<Rightarrow>
                      Ret (m1\<lparr>im_readers := AList.update n reader (im_readers m1)\<rparr>, w1, Inr reader))) =
           Ret (m', w', res)"
    by (auto simp: get_reader_def run_simps)
  have m1: "manager_inv m1" "\<And>i. res1 = Inr i \<Longrightarrow> n \<in> fst ` set (im_indexes m1)"
    using get_or_create_index_keeps [OF g assms(2)]
    by (auto dest!: map_of_SomeD intro: rev_image_eqI)
  show ?thesis
  proof (cases res1)
    case (Inl e)
    with rest m1 show ?thesis by simp
  next
    case (Inr i)
    show ?thesis
    proof (cases "ix_reader api w1 i (im_docstore_cache_blocks m1)")
      case (Inr reader)
      with rest \<open>res1 = Inr i\<close> have "m' = m1\<lparr>im_readers := AList.update n reader (im_readers m1)\<rparr>"
        by simp
      with m1 \<open>res1 = Inr i\<close> show ?thesis
        by (simp add: manager_inv_def fst_set_update)
    qed (use rest \<open>res1 = Inr i\<close> m1 in simp)
  qed
qed

lemma get_reader_built:
  assumes "index_law api" "get_reader sapi api r (m, w) n = Ret (m', w', res)" "indexes_built sapi api m"
  shows "indexes_built sapi api m'"
proof (cases "map_of (im_readers m) n")
  case (Some reader)
  with assms show ?thesis by (simp add: get_reader_def)
next
  case None
  with assms(2) obtain m1 w1 res1 where g: "get_or_create_index sapi api r (m, w) n = Ret (m1, w1, res1)"
    by (auto simp: get_reader_def run_simps)
  have "indexes_built sapi api m1"
    using get_or_create_built [OF assms(1) g assms(3)] by blast
  moreover have "im_indexes m' = im_indexes m1"
    using assms(2) None g by (auto simp: get_reader_def split: sum.splits)
  ultimately show ?thesis by (simp add: indexes_built_def)
qed

text \<open>The calls of the other components, as the steps of the manager.\<close>

datatype manager_call = GetIndex registry string | GetReader registry string

fun manager_step ::
    "('b, 'x) schema_api \<Rightarrow> ('w, 'x, 'd, 'i, 'rd) index_api \<Rightarrow>
     (('i, 'rd) manager \<times> 'w) run \<Rightarrow> manager_call \<Rightarrow> (('i, 'rd) manager \<times> 'w) run" where
  "manager_step sapi api s (GetIndex r n) =
     run_bind s (\<lambda>mw. run_bind (get_or_create_index sapi api r mw n) (\<lambda>(m, w, _). Ret (m, w)))"
| "manager_step sapi api s (GetReader r n) =
     run_bind s (\<lambda>mw. run_bind (get_reader sapi api r mw n) (\<lambda>(m, w, _). Ret (m, w)))"

definition manager_run_inv :: "(('i, 'rd) manager \<times> 'w) run \<Rightarrow> bool" where
  "manager_run_inv s \<longleftrightarrow> (\<forall>m w. s = Ret (m, w) \<longrightarrow> manager_inv m)"

interpretation managed: invariant_machine "manager_step sapi api" manager_run_inv for sapi api
proof
  fix sapi api s c
  assume "manager_run_inv s"
  then show "manager_run_inv (manager_step sapi api s c)"
    by (cases c) (fastforce simp: manager_run_inv_def run_simps
        dest: get_or_create_index_keeps get_reader_keeps)+
qed

text \<open>
  The caches of a manager that any sequence of calls produced, with any registries and any
  answers of the file system and Tantivy: one entry per name, and a reader only for an index
  that is cached too.
\<close>

theorem manager_reachable_inv:
  assumes "foldl (manager_step sapi api) (Ret (new_manager base blocks, w0)) calls = Ret (m, w)"
  shows "distinct (map fst (im_indexes m)) \<and> distinct (map fst (im_readers m)) \<and>
    fst ` set (im_readers m) \<subseteq> fst ` set (im_indexes m)"
proof -
  have "manager_run_inv (foldl (manager_step sapi api) (Ret (new_manager base blocks, w0)) calls)"
    by (rule managed.run_inv) (simp add: manager_run_inv_def)
  with assms show ?thesis
    by (simp add: manager_run_inv_def manager_inv_def hm_wf_def)
qed

text \<open>
  An index is created from the definition registered under its name, in the directory of its
  name below the base directory, and the next lookup returns it from the cache; without a
  definition nothing is created and the error names the index.
\<close>

theorem index_from_definition:
  assumes "map_of (im_indexes m) n = None"
    and "get_or_create_index sapi api r (m, w) n = Ret (m', w', res)"
  shows "case reg_get r n of
      None \<Rightarrow> m' = m \<and> w' = w \<and> res = Inl (''Index definition not found: '' @ quoted n)
    | Some d \<Rightarrow>
        (case res of
           Inl e \<Rightarrow> m' = m
         | Inr i \<Rightarrow>
             (\<exists>s w1 dir. build_schema sapi d = Ret (Inr s) \<and>
                ix_create_dir_all api w (index_path m n) = (w1, None) \<and>
                ix_open_dir api w1 (index_path m n) = Inr dir \<and>
                ix_open_or_create api w1 dir s = (w', Inr i)) \<and>
             get_or_create_index sapi api r (m', w') n = Ret (m', w', Inr i))"
proof (cases "reg_get r n")
  case None
  with assms show ?thesis by (simp add: get_or_create_index_def)
next
  case (Some d)
  from assms(2) show ?thesis
  proof (cases rule: get_or_create_cases)
    case (created d' s w1 dir i)
    then have "get_or_create_index sapi api r (m', w') n = Ret (m', w', Inr i)"
      by (simp add: get_or_create_index_def update_conv')
    with created Some show ?thesis by auto
  qed (use assms(1) Some in simp_all)
qed

text \<open>
  A cached handle outlives its definition: after a successful lookup every later lookup of
  the name returns the same handle and touches nothing, also with a registry that no longer
  has the name or has another definition for it. Deleting an index and creating it anew with
  other fields therefore keeps writing to the old index.
\<close>

theorem stale_index_after_delete:
  assumes "get_or_create_index sapi api r (m, w) n = Ret (m', w', Inr i)"
  shows "get_or_create_index sapi api (fst (reg_remove r n)) (m', w'') n = Ret (m', w'', Inr i) \<and>
    get_or_create_index sapi api (store_upsert (fst (reg_remove r n)) d) (m', w'') n = Ret (m', w'', Inr i)"
  using assms
  by (cases rule: get_or_create_cases) (auto simp: get_or_create_index_def update_conv')

section \<open>Witnesses\<close>

text \<open>
  A world that records the directories created, with the path and the schema as the index and
  the number of blocks as the reader.
\<close>

definition demo_index_api ::
    "(string list, (string \<times> field_options) list, string, string \<times> (string \<times> field_options) list, u64)
     index_api" where
  "demo_index_api =
     \<lparr>ix_create_dir_all = (\<lambda>w p. (w @ [p], None)), ix_open_dir = (\<lambda>w p. Inr p),
      ix_open_or_create = (\<lambda>w d s. (w, Inr (d, s))), ix_reader = (\<lambda>w i n. Inr n),
      ix_schema = snd\<rparr>"

definition logs_registry :: registry where
  "logs_registry = new_registry\<lparr>reg_indexes := [(''logs'', logs_definition)]\<rparr>"

definition logs_schema :: "(string \<times> field_options) list" where
  "logs_schema = schema_entries logs_definition"

lemma logs_builds: "build_schema list_api logs_definition = Ret (Inr logs_schema)"
  by (simp add: build_schema_def logs_schema_def schema_entries_def logs_definition_def
      index_of_fields_def list_api_def default_mode_def)

lemma demo_lookup:
  "get_or_create_index list_api demo_index_api logs_registry (new_manager ''d'' 20, []) ''logs'' =
    Ret ((new_manager ''d'' 20)\<lparr>im_indexes := [(''logs'', (''d/indexes/logs'', logs_schema))]\<rparr>,
         [''d/indexes/logs''], Inr (''d/indexes/logs'', logs_schema))"
  using logs_builds
  by (simp add: get_or_create_index_def new_manager_def reg_get_def logs_registry_def new_registry_def
      demo_index_api_def index_path_def path_join_def starts_with_def Let_def)

theorem manager_reachable_inv_witness:
  "\<exists>m w. foldl (manager_step list_api demo_index_api) (Ret (new_manager ''d'' 20, []))
      [GetIndex logs_registry ''logs''] = Ret (m, w) \<and> distinct (map fst (im_indexes m)) \<and>
      im_indexes m \<noteq> []"
proof -
  have "foldl (manager_step list_api demo_index_api) (Ret (new_manager ''d'' 20, []))
      [GetIndex logs_registry ''logs''] =
      Ret ((new_manager ''d'' 20)\<lparr>im_indexes := [(''logs'', (''d/indexes/logs'', logs_schema))]\<rparr>,
           [''d/indexes/logs''])"
    by (simp add: demo_lookup)
  from this manager_reachable_inv [OF this] show ?thesis by simp
qed

theorem index_from_definition_witness:
  "\<exists>m w. get_or_create_index list_api demo_index_api logs_registry (m, w) ''logs'' =
    Ret (m, w, Inr (''d/indexes/logs'', logs_schema))"
  using index_from_definition [OF _ demo_lookup]
  by (auto simp: new_manager_def reg_get_def logs_registry_def new_registry_def)

theorem stale_index_after_delete_witness:
  "\<exists>m w. get_or_create_index list_api demo_index_api (fst (reg_remove logs_registry ''logs'')) (m, w) ''logs'' =
    Ret (m, w, Inr (''d/indexes/logs'', logs_schema))"
  using stale_index_after_delete [OF demo_lookup] by blast

end
