(* ===== verification/Numerals.thy ===== *)
theory Numerals
  imports Schema_Valid
begin

text \<open>
  Numbers as text: what \<open>to_string\<close> prints for an unsigned number, that parsing reads it back,
  and numbers from the environment with a default.
\<close>

definition digit_char :: "nat \<Rightarrow> char" where
  "digit_char d = char_of (48 + d)"

fun decimal_text :: "nat \<Rightarrow> string" where
  "decimal_text n =
     (if n < 10 then [digit_char n] else decimal_text (n div 10) @ [digit_char (n mod 10)])"

declare decimal_text.simps [simp del]

text \<open>\<open>env\<close> gives the variables that are set to valid Unicode.\<close>

definition env_number :: "(string \<Rightarrow> string option) \<Rightarrow> string \<Rightarrow> u64 \<Rightarrow> u64" where
  "env_number env key dflt =
     (case env key of
        None \<Rightarrow> dflt
      | Some s \<Rightarrow> (case parse_u64 s of None \<Rightarrow> dflt | Some n \<Rightarrow> n))"

lemma of_char_digit: "d < 10 \<Longrightarrow> (of_char (digit_char d) :: nat) = 48 + d"
  by (simp add: digit_char_def)

lemma decimal_snoc: "decimal (ds @ [c]) = 10 * decimal ds + (of_char c - 48)"
  by (simp add: decimal_def)

lemma decimal_digit_char: "d < 10 \<Longrightarrow> decimal_digit (digit_char d)"
  using of_char_digit [of d] by (simp add: decimal_digit_def less_eq_char_def)

lemma decimal_text: "decimal_text n \<noteq> [] \<and> list_all decimal_digit (decimal_text n) \<and> decimal (decimal_text n) = n"
proof (induction n rule: decimal_text.induct)
  case (1 n)
  show ?case
  proof (cases "n < 10")
    case True
    then show ?thesis
      using decimal_snoc [of "[]" "digit_char n"] of_char_digit [of n] decimal_digit_char [of n]
      by (simp add: decimal_text.simps [of n]) (simp add: decimal_def)
  next
    case False
    then show ?thesis
      using "1.IH" of_char_digit [of "n mod 10"] decimal_digit_char [of "n mod 10"]
      by (simp add: decimal_text.simps [of n] decimal_snoc)
  qed
qed

lemma parse_decimal_text: "parse_u64 (decimal_text (unat w)) = Some (w :: u64)"
proof -
  have "strip_plus (decimal_text (unat w)) = decimal_text (unat w)"
    using decimal_text by (intro strip_plus_digits) blast
  then show ?thesis
    using decimal_text [of "unat w"] unsigned_less [where 'a = nat, of w]
    by (simp add: parse_u64_Some)
qed

end
