(* ===== verification/Indexer.thy ===== *)
theory Indexer
  imports Index_Manager Wal_Frame Numerals
begin

text \<open>
  The indexing task, \<open>src/indexer.rs\<close>: it turns the events of the log into Tantivy
  documents, one writer per index, stages the deletions of the retention worker, and commits
  the writers with the log offset as payload. Tantivy's writer and the JSON library are
  parameters; the order in which events, purge commands and timer ticks arrive is arbitrary.
\<close>

section \<open>Parameters\<close>

text \<open>The JSON library: parsing bytes, printing a value, printing a number.\<close>

record serde_api =
  sj_from_slice :: "u8 list \<Rightarrow> string + json"
  sj_to_string :: "json \<Rightarrow> string + string"
  sj_number :: "number \<Rightarrow> string"

text \<open>
  Tantivy's writer: opening one for an index with a memory budget, its merge policy, parsing a
  JSON text as a document of a schema, adding it, the field of a name, staging the deletion of
  the documents whose date field lies before a time, and the two halves of a commit.
\<close>

record ('w, 'x, 'i, 'doc, 'f, 'wr) writer_api =
  wa_writer :: "'w \<Rightarrow> 'i \<Rightarrow> u64 \<Rightarrow> 'w \<times> (string + 'wr)"
  wa_set_merge_policy :: "'wr \<Rightarrow> u64 \<Rightarrow> 'wr"
  wa_parse_json :: "'x \<Rightarrow> string \<Rightarrow> string + 'doc"
  wa_add_document :: "'wr \<Rightarrow> 'doc \<Rightarrow> 'wr \<times> string option"
  wa_get_field :: "'x \<Rightarrow> string \<Rightarrow> 'f option"
  wa_delete_before :: "'wr \<Rightarrow> 'f \<Rightarrow> int \<Rightarrow> 'wr \<times> string option"
  wa_prepare_commit :: "'wr \<Rightarrow> 'wr \<times> string option"
  wa_commit :: "'wr \<Rightarrow> string \<Rightarrow> 'wr \<times> string option"

record ('b, 'x, 'w, 'd, 'i, 'rd, 'doc, 'f, 'wr) deps =
  dp_schema :: "('b, 'x) schema_api"
  dp_index :: "('w, 'x, 'd, 'i, 'rd) index_api"
  dp_writer :: "('w, 'x, 'i, 'doc, 'f, 'wr) writer_api"
  dp_json :: serde_api
  dp_env :: "string \<Rightarrow> string option"

section \<open>The document built from an event\<close>

definition bool_text :: "bool \<Rightarrow> string" where
  "bool_text b = (if b then ''true'' else ''false'')"

text \<open>What an unmapped value adds to the dynamic field.\<close>

definition dynamic_text :: "serde_api \<Rightarrow> json \<Rightarrow> string list" where
  "dynamic_text sj v =
     (case v of
        JString s \<Rightarrow> [s]
      | JNumber n \<Rightarrow> [sj_number sj n]
      | JBool b \<Rightarrow> [bool_text b]
      | JArray _ \<Rightarrow> (case sj_to_string sj v of Inr s \<Rightarrow> [s] | Inl _ \<Rightarrow> [])
      | JObject _ \<Rightarrow> (case sj_to_string sj v of Inr s \<Rightarrow> [s] | Inl _ \<Rightarrow> [])
      | JNull \<Rightarrow> [])"

fun split_fields ::
    "serde_api \<Rightarrow> IndexDefinition \<Rightarrow> (string \<times> json) list \<Rightarrow> string list \<Rightarrow> (string \<times> json) list \<Rightarrow>
     (string \<times> json) list \<times> string list" where
  "split_fields sj d root parts [] = (root, parts)"
| "split_fields sj d root parts ((k, v) # m) =
     (if hm_contains_key (idx_fields d) k \<and> \<not> is_null v
      then split_fields sj d (bt_insert k v root) parts m
      else if \<not> is_null v then split_fields sj d root (parts @ dynamic_text sj v) m
      else split_fields sj d root parts m)"

fun join :: "string \<Rightarrow> string list \<Rightarrow> string" where
  "join sep [] = []"
| "join sep [s] = s"
| "join sep (s # ss) = s @ sep @ join sep ss"

definition build_root :: "serde_api \<Rightarrow> IndexDefinition \<Rightarrow> json \<Rightarrow> (string \<times> json) list" where
  "build_root sj d source =
     (let (root0, dynamic_parts) =
            (case source of JObject m \<Rightarrow> split_fields sj d [] [] m | _ \<Rightarrow> ([], []));
          root1 = bt_insert ''_source'' source root0
      in if idx_mode d = Dynamic \<and> dynamic_parts \<noteq> []
         then bt_insert ''_dynamic'' (JString (join '' '' dynamic_parts)) root1
         else root1)"

section \<open>The actor\<close>

record ('w, 'i, 'rd, 'wr) actor =
  ac_manager :: "('i, 'rd) manager"
  ac_world :: 'w
  ac_writers :: "(string \<times> 'wr) list"
  ac_dirty :: "(string \<times> u64) list"
  ac_index_memory_mb :: u64
  ac_docs_since_commit :: u64

definition new_actor :: "('i, 'rd) manager \<Rightarrow> 'w \<Rightarrow> u64 \<Rightarrow> ('w, 'i, 'rd, 'wr) actor" where
  "new_actor m w index_memory_mb =
     \<lparr>ac_manager = m, ac_world = w, ac_writers = [], ac_dirty = [],
      ac_index_memory_mb = index_memory_mb, ac_docs_since_commit = 0\<rparr>"

definition ensure_writer ::
    "('b, 'x, 'w, 'd, 'i, 'rd, 'doc, 'f, 'wr) deps \<Rightarrow> registry \<Rightarrow> ('w, 'i, 'rd, 'wr) actor \<Rightarrow> string \<Rightarrow>
     (('w, 'i, 'rd, 'wr) actor \<times> (string + unit)) run" where
  "ensure_writer dp r a index_name =
     (if hm_contains_key (ac_writers a) index_name then Ret (a, Inr ())
      else run_bind (get_or_create_index (dp_schema dp) (dp_index dp) r (ac_manager a, ac_world a) index_name)
        (\<lambda>(m, w, res).
           let a1 = a\<lparr>ac_manager := m, ac_world := w\<rparr> in
           case res of
             Inl e \<Rightarrow> Ret (a1, Inl e)
           | Inr index \<Rightarrow>
               let merge_min = env_number (dp_env dp) ''EDGEWIT_MERGE_MIN_SEGMENTS'' 10 in
               (case wa_writer (dp_writer dp) w index (ac_index_memory_mb a * 1000000) of
                  (w', Inl e) \<Rightarrow> Ret (a1\<lparr>ac_world := w'\<rparr>, Inl e)
                | (w', Inr writer) \<Rightarrow>
                    Ret (a1\<lparr>ac_world := w',
                            ac_writers := AList.update index_name
                              (wa_set_merge_policy (dp_writer dp) writer merge_min) (ac_writers a)\<rparr>,
                         Inr ()))))"

text \<open>The second half of \<open>process_event\<close>, once the writer and the index are there.\<close>

definition add_event ::
    "('b, 'x, 'w, 'd, 'i, 'rd, 'doc, 'f, 'wr) deps \<Rightarrow> IndexDefinition \<Rightarrow> 'i \<Rightarrow> json \<Rightarrow> string \<Rightarrow> u64 \<Rightarrow>
     ('w, 'i, 'rd, 'wr) actor \<Rightarrow> ('w, 'i, 'rd, 'wr) actor \<times> (string + unit)" where
  "add_event dp d index source index_name wal_offset a =
     (case sj_to_string (dp_json dp) (JObject (build_root (dp_json dp) d source)) of
        Inl e \<Rightarrow> (a, Inl e)
      | Inr doc_str \<Rightarrow>
          (case wa_parse_json (dp_writer dp) (ix_schema (dp_index dp) index) doc_str of
             Inl e \<Rightarrow> (a, Inl (''Failed to parse tantivy doc: '' @ e))
           | Inr doc \<Rightarrow>
               (case map_of (ac_writers a) index_name of
                  None \<Rightarrow> (a\<lparr>ac_dirty := AList.update index_name wal_offset (ac_dirty a)\<rparr>, Inr ())
                | Some writer \<Rightarrow>
                    (case wa_add_document (dp_writer dp) writer doc of
                       (writer', Some e) \<Rightarrow>
                         (a\<lparr>ac_writers := AList.update index_name writer' (ac_writers a)\<rparr>,
                          Inl (''Tantivy write error: '' @ e))
                     | (writer', None) \<Rightarrow>
                         (a\<lparr>ac_writers := AList.update index_name writer' (ac_writers a),
                            ac_dirty := AList.update index_name wal_offset (ac_dirty a)\<rparr>, Inr ())))))"

definition process_event ::
    "('b, 'x, 'w, 'd, 'i, 'rd, 'doc, 'f, 'wr) deps \<Rightarrow> registry \<Rightarrow> ('w, 'i, 'rd, 'wr) actor \<Rightarrow>
     IngestEvent \<Rightarrow> u64 \<Rightarrow> (('w, 'i, 'rd, 'wr) actor \<times> (string + unit)) run" where
  "process_event dp r a event wal_offset =
     (case reg_get r (ev_index event) of
        None \<Rightarrow> Ret (a, Inl (''Unknown index: '' @ quoted (ev_index event)))
      | Some d \<Rightarrow>
          (case sj_from_slice (dp_json dp) (ev_payload event) of
             Inl e \<Rightarrow> Ret (a, Inl (''Invalid JSON payload: '' @ e))
           | Inr source \<Rightarrow>
               if \<not> is_object source then Ret (a, Inl ''Payload must be a JSON object'')
               else run_bind (ensure_writer dp r a (ev_index event))
                 (\<lambda>(a1, res). case res of
                    Inl e \<Rightarrow> Ret (a1, Inl e)
                  | Inr _ \<Rightarrow>
                      run_bind (get_or_create_index (dp_schema dp) (dp_index dp) r
                          (ac_manager a1, ac_world a1) (ev_index event))
                        (\<lambda>(m, w, res'). let a2 = a1\<lparr>ac_manager := m, ac_world := w\<rparr> in
                           case res' of
                             Inl e \<Rightarrow> Ret (a2, Inl e)
                           | Inr index \<Rightarrow> Ret (add_event dp d index source (ev_index event) wal_offset a2)))))"

definition or_insert :: "string \<Rightarrow> 'v \<Rightarrow> (string \<times> 'v) list \<Rightarrow> (string \<times> 'v) list" where
  "or_insert k v m = (if hm_contains_key m k then m else AList.update k v m)"

text \<open>\<open>cutoff\<close> is the cutoff's Unix time.\<close>

definition purge_old_docs ::
    "('b, 'x, 'w, 'd, 'i, 'rd, 'doc, 'f, 'wr) deps \<Rightarrow> registry \<Rightarrow> ('w, 'i, 'rd, 'wr) actor \<Rightarrow>
     string \<Rightarrow> int \<Rightarrow> (('w, 'i, 'rd, 'wr) actor \<times> (string + unit)) run" where
  "purge_old_docs dp r a index_name cutoff =
     (case reg_get r index_name of
        None \<Rightarrow> Ret (a, Inl (''Index '' @ quoted index_name @ '' not found in registry''))
      | Some d \<Rightarrow>
          (case map_of (idx_fields d) (idx_timestamp_field d) of
             None \<Rightarrow> Ret (a, Inl (''Timestamp field '' @ quoted (idx_timestamp_field d) @
                 '' is not declared in index '' @ quoted index_name @
                 [char_of (32 :: nat), char_of (226 :: nat), char_of (128 :: nat), char_of (148 :: nat)] @
                 '' add it to fields: to enable retention''))
           | Some ts_field_def \<Rightarrow>
               if fd_field_type ts_field_def \<noteq> Datetime
               then Ret (a, Inl (''Field '' @ quoted (idx_timestamp_field d) @
                 '' must be type: datetime for retention to work in '' @ quoted index_name))
               else run_bind (ensure_writer dp r a index_name)
                 (\<lambda>(a1, res). case res of
                    Inl e \<Rightarrow> Ret (a1, Inl e)
                  | Inr _ \<Rightarrow>
                      run_bind (get_or_create_index (dp_schema dp) (dp_index dp) r
                          (ac_manager a1, ac_world a1) index_name)
                        (\<lambda>(m, w, res'). let a2 = a1\<lparr>ac_manager := m, ac_world := w\<rparr> in
                           case res' of
                             Inl e \<Rightarrow> Ret (a2, Inl e)
                           | Inr index \<Rightarrow>
                               (case wa_get_field (dp_writer dp) (ix_schema (dp_index dp) index)
                                       (idx_timestamp_field d) of
                                  None \<Rightarrow> Ret (a2, Inl (''Field '' @ quoted (idx_timestamp_field d) @
                                    '' missing from Tantivy schema''))
                                | Some ts_field \<Rightarrow>
                                    (case map_of (ac_writers a2) index_name of
                                       None \<Rightarrow> Panicked
                                     | Some writer \<Rightarrow>
                                         (case wa_delete_before (dp_writer dp) writer ts_field cutoff of
                                            (writer', Some e) \<Rightarrow>
                                              Ret (a2\<lparr>ac_writers := AList.update index_name writer' (ac_writers a2)\<rparr>,
                                                   Inl (''delete_query failed for '' @ quoted index_name @ '': '' @ e))
                                          | (writer', None) \<Rightarrow>
                                              Ret (a2\<lparr>ac_writers := AList.update index_name writer' (ac_writers a2),
                                                      ac_dirty := or_insert index_name 0 (ac_dirty a2)\<rparr>,
                                                   Inr ()))))))))"

fun commit_entries ::
    "('w, 'x, 'i, 'doc, 'f, 'wr) writer_api \<Rightarrow> (string \<times> 'wr) list \<Rightarrow> (string \<times> u64) list \<Rightarrow>
     (string \<times> 'wr) list" where
  "commit_entries wapi writers [] = writers"
| "commit_entries wapi writers ((index_name, offset) # dirty) =
     (case map_of writers index_name of
        None \<Rightarrow> commit_entries wapi writers dirty
      | Some writer \<Rightarrow>
          (case wa_prepare_commit wapi writer of
             (writer1, Some e) \<Rightarrow> commit_entries wapi (AList.update index_name writer1 writers) dirty
           | (writer1, None) \<Rightarrow>
               commit_entries wapi
                 (AList.update index_name (fst (wa_commit wapi writer1 (decimal_text (unat offset)))) writers)
                 dirty))"

definition commit_all ::
    "('b, 'x, 'w, 'd, 'i, 'rd, 'doc, 'f, 'wr) deps \<Rightarrow> ('w, 'i, 'rd, 'wr) actor \<Rightarrow> ('w, 'i, 'rd, 'wr) actor" where
  "commit_all dp a =
     a\<lparr>ac_writers := commit_entries (dp_writer dp) (ac_writers a) (ac_dirty a), ac_dirty := []\<rparr>"

section \<open>The loop\<close>

text \<open>
  One turn of the loop takes an event, a purge command or a timer tick, whichever is ready; the
  registry is the one at that moment.
\<close>

datatype actor_event = Receive IngestEvent u64 | PurgeCommand string int | Tick

fun actor_step ::
    "('b, 'x, 'w, 'd, 'i, 'rd, 'doc, 'f, 'wr) deps \<Rightarrow> ('w, 'i, 'rd, 'wr) actor run \<Rightarrow>
     registry \<times> actor_event \<Rightarrow> ('w, 'i, 'rd, 'wr) actor run" where
  "actor_step dp s (r, Receive event offset) =
     run_bind s (\<lambda>a. run_bind (process_event dp r a event offset)
       (\<lambda>(a1, res).
          let a2 = (case res of
                      Inl _ \<Rightarrow> a1
                    | Inr _ \<Rightarrow> a1\<lparr>ac_docs_since_commit := ac_docs_since_commit a1 + 1\<rparr>)
          in if env_number (dp_env dp) ''EDGEWIT_COMMIT_INTERVAL_DOCS'' 10000 \<le> ac_docs_since_commit a2
             then Ret (commit_all dp a2\<lparr>ac_docs_since_commit := 0\<rparr>) else Ret a2))"
| "actor_step dp s (r, PurgeCommand index_name cutoff) =
     run_bind s (\<lambda>a. run_bind (purge_old_docs dp r a index_name cutoff) (\<lambda>(a1, _). Ret a1))"
| "actor_step dp s (r, Tick) =
     run_bind s (\<lambda>a. Ret (if ac_dirty a \<noteq> [] then commit_all dp a\<lparr>ac_docs_since_commit := 0\<rparr> else a))"

text \<open>The start of the loop: a timer with a period of zero panics.\<close>

definition start_indexer ::
    "(string \<Rightarrow> string option) \<Rightarrow> ('w, 'i, 'rd, 'wr) actor \<Rightarrow> ('w, 'i, 'rd, 'wr) actor run" where
  "start_indexer env a =
     (if env_number env ''EDGEWIT_COMMIT_INTERVAL_SECS'' 5 = 0 then Panicked
      else Ret (a\<lparr>ac_docs_since_commit := 0\<rparr>))"

section \<open>What the code relies on\<close>

text \<open>
  What Tantivy documents of a writer, in terms of the operations it holds uncommitted, those it
  committed, and the payload of the last commit: a new writer holds nothing; adding and
  deleting append an operation or, with an error, change nothing; a successful commit commits
  all of them with its payload, a failed one commits nothing.
\<close>

definition writer_law ::
    "('w, 'x, 'i, 'doc, 'f, 'wr) writer_api \<Rightarrow> ('wr \<Rightarrow> ('doc + 'f \<times> int) list) \<Rightarrow>
     ('wr \<Rightarrow> ('doc + 'f \<times> int) list) \<Rightarrow> ('wr \<Rightarrow> string option) \<Rightarrow> bool" where
  "writer_law wapi pend comm pay \<longleftrightarrow>
     (\<forall>w i budget w' wr n. wa_writer wapi w i budget = (w', Inr wr) \<longrightarrow>
        pend (wa_set_merge_policy wapi wr n) = []) \<and>
     (\<forall>wr doc wr' e. wa_add_document wapi wr doc = (wr', e) \<longrightarrow>
        pend wr' = pend wr @ (if e = None then [Inl doc] else []) \<and> comm wr' = comm wr \<and> pay wr' = pay wr) \<and>
     (\<forall>wr f t wr' e. wa_delete_before wapi wr f t = (wr', e) \<longrightarrow>
        pend wr' = pend wr @ (if e = None then [Inr (f, t)] else []) \<and> comm wr' = comm wr \<and> pay wr' = pay wr) \<and>
     (\<forall>wr wr' e. wa_prepare_commit wapi wr = (wr', e) \<longrightarrow>
        pend wr' = pend wr \<and> comm wr' = comm wr \<and> pay wr' = pay wr) \<and>
     (\<forall>wr p wr' e. wa_commit wapi wr p = (wr', e) \<longrightarrow>
        (if e = None then comm wr' = comm wr @ pend wr \<and> pend wr' = [] \<and> pay wr' = Some p
         else comm wr' = comm wr \<and> pay wr' = pay wr))"

lemma writer_lawD:
  assumes "writer_law wapi pend comm pay"
  shows "wa_writer wapi w i budget = (w', Inr wr) \<Longrightarrow> pend (wa_set_merge_policy wapi wr n) = []"
    and "wa_add_document wapi wr doc = (wr', e) \<Longrightarrow>
      pend wr' = pend wr @ (if e = None then [Inl doc] else []) \<and> comm wr' = comm wr \<and> pay wr' = pay wr"
    and "wa_delete_before wapi wr f t = (wr', e) \<Longrightarrow>
      pend wr' = pend wr @ (if e = None then [Inr (f, t)] else []) \<and> comm wr' = comm wr \<and> pay wr' = pay wr"
    and "wa_prepare_commit wapi wr = (wr', e) \<Longrightarrow>
      pend wr' = pend wr \<and> comm wr' = comm wr \<and> pay wr' = pay wr"
    and "wa_commit wapi wr p = (wr', None) \<Longrightarrow>
      comm wr' = comm wr @ pend wr \<and> pend wr' = [] \<and> pay wr' = Some p"
proof -
  note law = assms [unfolded writer_law_def]
  note l1 = law [THEN conjunct1] and l2 = law [THEN conjunct2, THEN conjunct1]
    and l3 = law [THEN conjunct2, THEN conjunct2, THEN conjunct1]
    and l4 = law [THEN conjunct2, THEN conjunct2, THEN conjunct2, THEN conjunct1]
    and l5 = law [THEN conjunct2, THEN conjunct2, THEN conjunct2, THEN conjunct2]
  show "wa_writer wapi w i budget = (w', Inr wr) \<Longrightarrow> pend (wa_set_merge_policy wapi wr n) = []"
    by (rule l1 [rule_format])
  show "wa_add_document wapi wr doc = (wr', e) \<Longrightarrow>
      pend wr' = pend wr @ (if e = None then [Inl doc] else []) \<and> comm wr' = comm wr \<and> pay wr' = pay wr"
    by (rule l2 [rule_format])
  show "wa_delete_before wapi wr f t = (wr', e) \<Longrightarrow>
      pend wr' = pend wr @ (if e = None then [Inr (f, t)] else []) \<and> comm wr' = comm wr \<and> pay wr' = pay wr"
    by (rule l3 [rule_format])
  show "wa_prepare_commit wapi wr = (wr', e) \<Longrightarrow>
      pend wr' = pend wr \<and> comm wr' = comm wr \<and> pay wr' = pay wr"
    by (rule l4 [rule_format])
  show "wa_commit wapi wr p = (wr', None) \<Longrightarrow>
      comm wr' = comm wr @ pend wr \<and> pend wr' = [] \<and> pay wr' = Some p"
    using l5 [rule_format, of wr p wr' None] by simp
qed

text \<open>What is uncommitted for an index name.\<close>

definition pending :: "('wr \<Rightarrow> 'op list) \<Rightarrow> ('w, 'i, 'rd, 'wr) actor \<Rightarrow> string \<Rightarrow> 'op list" where
  "pending pend a n = (case map_of (ac_writers a) n of None \<Rightarrow> [] | Some wr \<Rightarrow> pend wr)"

definition actor_inv :: "('w, 'i, 'rd, 'wr) actor \<Rightarrow> bool" where
  "actor_inv a \<longleftrightarrow>
     hm_wf (ac_writers a) \<and> hm_wf (ac_dirty a) \<and> fst ` set (ac_dirty a) \<subseteq> fst ` set (ac_writers a)"

section \<open>Effects of the calls\<close>

lemma ensure_writer_cases [consumes 1, case_names ready opened failed]:
  assumes "ensure_writer dp r a n = Ret (a', res)"
  obtains (ready) "hm_contains_key (ac_writers a) n" "a' = a" "res = Inr ()"
  | (opened) m w w1 i writer wr where "\<not> hm_contains_key (ac_writers a) n" "res = Inr ()"
      "wa_writer (dp_writer dp) w1 i (ac_index_memory_mb a * 1000000) = (w, Inr writer)"
      "wr = wa_set_merge_policy (dp_writer dp) writer
         (env_number (dp_env dp) ''EDGEWIT_MERGE_MIN_SEGMENTS'' 10)"
      "a' = a\<lparr>ac_manager := m, ac_world := w, ac_writers := AList.update n wr (ac_writers a)\<rparr>"
  | (failed) m w e where "\<not> hm_contains_key (ac_writers a) n" "res = Inl e"
      "a' = a\<lparr>ac_manager := m, ac_world := w\<rparr>"
proof (cases "hm_contains_key (ac_writers a) n")
  case True
  with assms have "a' = a" "res = Inr ()"
    by (simp_all add: ensure_writer_def)
  with ready True show ?thesis by blast
next
  case False
  with assms obtain m w res1 where
    "get_or_create_index (dp_schema dp) (dp_index dp) r (ac_manager a, ac_world a) n = Ret (m, w, res1)"
    and rest: "(case res1 of
             Inl e \<Rightarrow> Ret (a\<lparr>ac_manager := m, ac_world := w\<rparr>, Inl e)
           | Inr index \<Rightarrow>
               (case wa_writer (dp_writer dp) w index (ac_index_memory_mb a * 1000000) of
                  (w', Inl e) \<Rightarrow> Ret (a\<lparr>ac_manager := m, ac_world := w'\<rparr>, Inl e)
                | (w', Inr writer) \<Rightarrow>
                    Ret (a\<lparr>ac_manager := m, ac_world := w',
                            ac_writers := AList.update n
                              (wa_set_merge_policy (dp_writer dp) writer
                                (env_number (dp_env dp) ''EDGEWIT_MERGE_MIN_SEGMENTS'' 10)) (ac_writers a)\<rparr>,
                         Inr ()))) = Ret (a', res)"
    by (auto simp: ensure_writer_def run_simps Let_def)
  show ?thesis
  proof (cases res1)
    case (Inl e)
    with rest failed False show ?thesis by fastforce
  next
    case (Inr i)
    obtain w' o1 where wr: "wa_writer (dp_writer dp) w i (ac_index_memory_mb a * 1000000) = (w', o1)"
      by fastforce
    show ?thesis
    proof (cases o1)
      case (Inl e)
      with rest \<open>res1 = Inr i\<close> wr have "res = Inl e" "a' = a\<lparr>ac_manager := m, ac_world := w'\<rparr>"
        by simp_all
      with failed False show ?thesis by blast
    next
      case (Inr writer)
      with rest \<open>res1 = Inr i\<close> wr have "res = Inr ()" "a' = a\<lparr>ac_manager := m, ac_world := w',
          ac_writers := AList.update n (wa_set_merge_policy (dp_writer dp) writer
            (env_number (dp_env dp) ''EDGEWIT_MERGE_MIN_SEGMENTS'' 10)) (ac_writers a)\<rparr>"
        by simp_all
      with opened False wr Inr show ?thesis by blast
    qed
  qed
qed

lemma ensure_writer_keeps [keeps]:
  assumes "ensure_writer dp r a n = Ret (a', res)" "actor_inv a"
  shows "actor_inv a' \<and> ac_dirty a' = ac_dirty a \<and>
    (\<forall>x. res = Inr x \<longrightarrow> n \<in> fst ` set (ac_writers a')) \<and>
    (\<forall>k wr. map_of (ac_writers a) k = Some wr \<longrightarrow> map_of (ac_writers a') k = Some wr)"
  using assms(1)
  by (cases rule: ensure_writer_cases)
    (use assms(2) in \<open>auto simp: actor_inv_def fst_set_update update_conv' hm_contains_key_def
      hm_contains_key_iff [symmetric, unfolded hm_contains_key_def]\<close>)

lemma ensure_writer_pending:
  assumes "ensure_writer dp r a n = Ret (a', res)" "writer_law (dp_writer dp) pend comm pay"
  shows "pending pend a' = pending pend a"
  using assms(1)
proof (cases rule: ensure_writer_cases)
  case (opened m w w1 i writer wr)
  then have "pend wr = []" using writer_lawD(1) [OF assms(2)] by blast
  with opened show ?thesis
    by (auto simp: pending_def fun_eq_iff update_conv' hm_contains_key_def split: option.split)
qed (simp_all add: pending_def fun_eq_iff)

section \<open>Processing one event\<close>

text \<open>How \<open>process_event\<close> can end.\<close>

lemma process_event_cases [consumes 1, case_names rejected no_index run]:
  assumes "process_event dp r a ev off = Ret (a', res)"
  obtains (rejected) e where "a' = a" "res = Inl e"
  | (no_index) a1 m w x e where "ensure_writer dp r a (ev_index ev) = Ret (a1, x)"
      "a' = a1 \<and> x = Inl e \<or> a' = a1\<lparr>ac_manager := m, ac_world := w\<rparr>" "res = Inl e"
      "a' = a1 \<or> (\<exists>y. get_or_create_index (dp_schema dp) (dp_index dp) r (ac_manager a1, ac_world a1)
         (ev_index ev) = Ret (ac_manager a', ac_world a', y))"
  | (run) d m a1 man w i where "reg_get r (ev_index ev) = Some d"
      "sj_from_slice (dp_json dp) (ev_payload ev) = Inr (JObject m)"
      "ensure_writer dp r a (ev_index ev) = Ret (a1, Inr ())"
      "get_or_create_index (dp_schema dp) (dp_index dp) r (ac_manager a1, ac_world a1) (ev_index ev) =
         Ret (man, w, Inr i)"
      "(a', res) = add_event dp d i (JObject m) (ev_index ev) off (a1\<lparr>ac_manager := man, ac_world := w\<rparr>)"
proof (cases "\<exists>d m. reg_get r (ev_index ev) = Some d \<and>
    sj_from_slice (dp_json dp) (ev_payload ev) = Inr (JObject m)")
  case False
  have obj: "\<exists>m. v = JObject m" if "is_object v" for v
    using that by (cases v) auto
  have "a' = a \<and> (\<exists>e. res = Inl e)"
    using assms False obj
    by (auto simp: process_event_def split: option.splits sum.splits if_splits)
  with rejected show ?thesis by blast
next
  case True
  then obtain d m where dm: "reg_get r (ev_index ev) = Some d"
      "sj_from_slice (dp_json dp) (ev_payload ev) = Inr (JObject m)"
    by blast
  from assms obtain a1 x where ens: "ensure_writer dp r a (ev_index ev) = Ret (a1, x)"
    and rest: "(case x of
                  Inl e \<Rightarrow> Ret (a1, Inl e)
                | Inr _ \<Rightarrow>
                    run_bind (get_or_create_index (dp_schema dp) (dp_index dp) r
                        (ac_manager a1, ac_world a1) (ev_index ev))
                      (\<lambda>(m', w, res'). let a2 = a1\<lparr>ac_manager := m', ac_world := w\<rparr> in
                         case res' of
                           Inl e \<Rightarrow> Ret (a2, Inl e)
                         | Inr index \<Rightarrow> Ret (add_event dp d index (JObject m) (ev_index ev) off a2))) =
        Ret (a', res)"
    by (auto simp: process_event_def dm run_simps simp del: run_bind.simps)
  show ?thesis
  proof (cases x)
    case (Inl e)
    with rest have "a' = a1" "res = Inl e" by simp_all
    with ens Inl no_index show ?thesis by blast
  next
    case (Inr u)
    with rest obtain man w y where get: "get_or_create_index (dp_schema dp) (dp_index dp) r
        (ac_manager a1, ac_world a1) (ev_index ev) = Ret (man, w, y)"
      and last: "(case y of
          Inl e \<Rightarrow> Ret (a1\<lparr>ac_manager := man, ac_world := w\<rparr>, Inl e)
        | Inr index \<Rightarrow> Ret (add_event dp d index (JObject m) (ev_index ev) off
            (a1\<lparr>ac_manager := man, ac_world := w\<rparr>))) = Ret (a', res)"
      by (auto simp: run_simps Let_def simp del: run_bind.simps)
    show ?thesis
    proof (cases y)
      case (Inl e)
      with last have "a' = a1\<lparr>ac_manager := man, ac_world := w\<rparr>" "res = Inl e" by simp_all
      moreover from this get have "\<exists>y. get_or_create_index (dp_schema dp) (dp_index dp) r
          (ac_manager a1, ac_world a1) (ev_index ev) = Ret (ac_manager a', ac_world a', y)"
        by simp
      ultimately show ?thesis using ens no_index by blast
    next
      case (Inr i)
      with last have "(a', res) = add_event dp d i (JObject m) (ev_index ev) off
          (a1\<lparr>ac_manager := man, ac_world := w\<rparr>)"
        by simp
      moreover have "x = Inr ()" using \<open>x = Inr u\<close> by simp
      ultimately show ?thesis using run dm ens get Inr by blast
    qed
  qed
qed

lemma add_event_cases [consumes 1, case_names no_doc no_writer added refused]:
  assumes "(a', res) = add_event dp d i source n off a"
  obtains (no_doc) e where "a' = a" "res = Inl e"
  | (no_writer) "map_of (ac_writers a) n = None" "res = Inr ()"
      "a' = a\<lparr>ac_dirty := AList.update n off (ac_dirty a)\<rparr>"
  | (added) s doc wr wr' where
      "sj_to_string (dp_json dp) (JObject (build_root (dp_json dp) d source)) = Inr s"
      "wa_parse_json (dp_writer dp) (ix_schema (dp_index dp) i) s = Inr doc"
      "map_of (ac_writers a) n = Some wr" "wa_add_document (dp_writer dp) wr doc = (wr', None)"
      "a' = a\<lparr>ac_writers := AList.update n wr' (ac_writers a),
              ac_dirty := AList.update n off (ac_dirty a)\<rparr>" "res = Inr ()"
  | (refused) doc wr wr' e where "map_of (ac_writers a) n = Some wr"
      "wa_add_document (dp_writer dp) wr doc = (wr', Some e)"
      "a' = a\<lparr>ac_writers := AList.update n wr' (ac_writers a)\<rparr>"
      "res = Inl (''Tantivy write error: '' @ e)"
proof (cases "sj_to_string (dp_json dp) (JObject (build_root (dp_json dp) d source))")
  case (Inl e)
  with assms no_doc show ?thesis by (simp add: add_event_def)
next
  case (Inr s)
  note str = Inr
  show ?thesis
  proof (cases "wa_parse_json (dp_writer dp) (ix_schema (dp_index dp) i) s")
    case (Inl e)
    with assms str no_doc show ?thesis by (simp add: add_event_def)
  next
    case (Inr doc)
    note parsed = Inr
    show ?thesis
    proof (cases "map_of (ac_writers a) n")
      case None
      with assms str parsed no_writer show ?thesis by (simp add: add_event_def)
    next
      case (Some wr)
      obtain wr' e where add: "wa_add_document (dp_writer dp) wr doc = (wr', e)" by fastforce
      show ?thesis
      proof (cases e)
        case None
        with assms str parsed Some add have "res = Inr ()"
          "a' = a\<lparr>ac_writers := AList.update n wr' (ac_writers a), ac_dirty := AList.update n off (ac_dirty a)\<rparr>"
          by (simp_all add: add_event_def)
        with added str parsed Some add None show ?thesis by blast
      next
        case (Some e')
        with assms str parsed \<open>map_of (ac_writers a) n = Some wr\<close> add
        have "res = Inl (''Tantivy write error: '' @ e')"
          "a' = a\<lparr>ac_writers := AList.update n wr' (ac_writers a)\<rparr>"
          by (simp_all add: add_event_def)
        with refused Some \<open>map_of (ac_writers a) n = Some wr\<close> add show ?thesis by blast
      qed
    qed
  qed
qed

lemma actor_inv_manager [simp]:
  "actor_inv (a\<lparr>ac_manager := m\<rparr>) = actor_inv a" "actor_inv (a\<lparr>ac_world := w\<rparr>) = actor_inv a"
  "actor_inv (a\<lparr>ac_docs_since_commit := c\<rparr>) = actor_inv a"
  by (simp_all add: actor_inv_def)

lemma pending_manager [simp]:
  "pending pend (a\<lparr>ac_manager := m\<rparr>) = pending pend a" "pending pend (a\<lparr>ac_world := w\<rparr>) = pending pend a"
  "pending pend (a\<lparr>ac_docs_since_commit := c\<rparr>) = pending pend a"
  "pending pend (a\<lparr>ac_dirty := ds\<rparr>) = pending pend a"
  by (simp_all add: pending_def fun_eq_iff)

lemma actor_inv_update_writer:
  "actor_inv a \<Longrightarrow> actor_inv (a\<lparr>ac_writers := AList.update n wr (ac_writers a)\<rparr>)"
  by (auto simp: actor_inv_def fst_set_update)

lemma actor_inv_update_dirty:
  "actor_inv a \<Longrightarrow> map_of (ac_writers a) n = Some wr \<Longrightarrow>
   actor_inv (a\<lparr>ac_dirty := AList.update n off (ac_dirty a)\<rparr>)"
  by (auto simp: actor_inv_def fst_set_update dest!: map_of_SomeD intro: rev_image_eqI)

lemma process_event_keeps [keeps]:
  assumes "process_event dp r a ev off = Ret (a', res)" "actor_inv a"
  shows "actor_inv a'"
  using assms(1)
proof (cases rule: process_event_cases)
  case (no_index a1 m w x e)
  with ensure_writer_keeps [OF no_index(1) assms(2)] show ?thesis by auto
next
  case (run d m a1 man w i)
  have inv: "actor_inv (a1\<lparr>ac_manager := man, ac_world := w\<rparr>)"
    and has: "ev_index ev \<in> fst ` set (ac_writers a1)"
    using ensure_writer_keeps [OF run(3) assms(2)] by simp_all
  from run(5) show ?thesis
  proof (cases rule: add_event_cases)
    case no_writer
    with has show ?thesis by (simp add: map_of_eq_None_iff)
  next
    case (added s doc wr wr')
    have "actor_inv (a1\<lparr>ac_manager := man, ac_world := w, ac_writers := AList.update (ev_index ev) wr' (ac_writers a1)\<rparr>)"
      using actor_inv_update_writer [OF inv, of "ev_index ev" wr'] by simp
    from actor_inv_update_dirty [OF this, of "ev_index ev" wr' off] added show ?thesis
      by (simp add: update_conv')
  next
    case (refused doc wr wr' e)
    with actor_inv_update_writer [OF inv, of "ev_index ev" wr'] show ?thesis by simp
  qed (use inv in simp)
qed (use assms(2) in simp)

section \<open>Purging and committing\<close>

lemma purge_cases [consumes 1, case_names rejected stopped staged refused]:
  assumes "purge_old_docs dp r a n cutoff = Ret (a', res)"
  obtains (rejected) e where "a' = a" "res = Inl e"
  | (stopped) a1 x m w e where "ensure_writer dp r a n = Ret (a1, x)" "res = Inl e"
      "a' = a1 \<or> a' = a1\<lparr>ac_manager := m, ac_world := w\<rparr>"
      "a' = a1 \<or> (\<exists>y. get_or_create_index (dp_schema dp) (dp_index dp) r (ac_manager a1, ac_world a1) n =
         Ret (ac_manager a', ac_world a', y))"
  | (staged) a1 m w f wr wr' where "ensure_writer dp r a n = Ret (a1, Inr ())" "res = Inr ()"
      "map_of (ac_writers a1) n = Some wr" "wa_delete_before (dp_writer dp) wr f cutoff = (wr', None)"
      "a' = a1\<lparr>ac_manager := m, ac_world := w, ac_writers := AList.update n wr' (ac_writers a1),
              ac_dirty := or_insert n 0 (ac_dirty a1)\<rparr>"
      "\<exists>d i. reg_get r n = Some d \<and>
         wa_get_field (dp_writer dp) (ix_schema (dp_index dp) i) (idx_timestamp_field d) = Some f"
      "\<exists>y. get_or_create_index (dp_schema dp) (dp_index dp) r (ac_manager a1, ac_world a1) n = Ret (m, w, y)"
  | (refused) a1 m w f wr wr' e e' where "ensure_writer dp r a n = Ret (a1, Inr ())" "res = Inl e"
      "map_of (ac_writers a1) n = Some wr" "wa_delete_before (dp_writer dp) wr f cutoff = (wr', Some e')"
      "a' = a1\<lparr>ac_manager := m, ac_world := w, ac_writers := AList.update n wr' (ac_writers a1)\<rparr>"
      "\<exists>y. get_or_create_index (dp_schema dp) (dp_index dp) r (ac_manager a1, ac_world a1) n = Ret (m, w, y)"
proof (cases "\<exists>d fd. reg_get r n = Some d \<and> map_of (idx_fields d) (idx_timestamp_field d) = Some fd \<and>
    fd_field_type fd = Datetime")
  case False
  then have "a' = a \<and> (\<exists>e. res = Inl e)"
    using assms by (auto simp: purge_old_docs_def split: option.splits if_splits)
  with rejected show ?thesis by blast
next
  case True
  then obtain d fd where d: "reg_get r n = Some d"
      "map_of (idx_fields d) (idx_timestamp_field d) = Some fd" "fd_field_type fd = Datetime"
    by blast
  obtain a1 x where ens: "ensure_writer dp r a n = Ret (a1, x)"
    using assms d by (auto simp: purge_old_docs_def run_simps simp del: run_bind.simps)
  show ?thesis
  proof (cases x)
    case (Inl e)
    with assms d ens have "a' = a1" "res = Inl e"
      by (simp_all add: purge_old_docs_def)
    with ens stopped show ?thesis by blast
  next
    case (Inr u)
    then have ens': "ensure_writer dp r a n = Ret (a1, Inr ())"
      using ens by simp
    obtain m w y where get: "get_or_create_index (dp_schema dp) (dp_index dp) r
        (ac_manager a1, ac_world a1) n = Ret (m, w, y)"
      using assms d ens' by (auto simp: purge_old_docs_def run_simps simp del: run_bind.simps)
    show ?thesis
    proof (cases "\<exists>i f. y = Inr i \<and>
        wa_get_field (dp_writer dp) (ix_schema (dp_index dp) i) (idx_timestamp_field d) = Some f")
      case False
      then have "\<exists>e. res = Inl e" and a': "a' = a1\<lparr>ac_manager := m, ac_world := w\<rparr>"
        using assms d ens' get
        by (auto simp: purge_old_docs_def Let_def split: sum.splits option.splits)
      moreover from a' get have "\<exists>y. get_or_create_index (dp_schema dp) (dp_index dp) r
          (ac_manager a1, ac_world a1) n = Ret (ac_manager a', ac_world a', y)"
        by simp
      ultimately show ?thesis using ens' stopped by blast
    next
      case True
      then obtain i f where f: "y = Inr i"
          "wa_get_field (dp_writer dp) (ix_schema (dp_index dp) i) (idx_timestamp_field d) = Some f"
        by blast
      obtain wr where wr: "map_of (ac_writers a1) n = Some wr"
        using assms d ens' get f by (cases "map_of (ac_writers a1) n") (auto simp: purge_old_docs_def)
      obtain wr' o1 where del: "wa_delete_before (dp_writer dp) wr f cutoff = (wr', o1)" by fastforce
      show ?thesis
      proof (cases o1)
        case None
        then have "res = Inr ()"
          "a' = a1\<lparr>ac_manager := m, ac_world := w, ac_writers := AList.update n wr' (ac_writers a1),
              ac_dirty := or_insert n 0 (ac_dirty a1)\<rparr>"
          using assms d ens' get f wr del by (simp_all add: purge_old_docs_def)
        with staged ens' wr del None d(1) f(2) get show ?thesis by blast
      next
        case (Some e)
        then have "\<exists>e. res = Inl e"
          "a' = a1\<lparr>ac_manager := m, ac_world := w, ac_writers := AList.update n wr' (ac_writers a1)\<rparr>"
          using assms d ens' get f wr del by (auto simp: purge_old_docs_def)
        with refused ens' wr del Some get show ?thesis by blast
      qed
    qed
  qed
qed

lemma map_of_or_insert: "map_of (or_insert k v m) = (if map_of m k = None then (map_of m)(k \<mapsto> v) else map_of m)"
  by (auto simp: or_insert_def hm_contains_key_def update_conv')

lemma actor_inv_or_insert:
  "actor_inv a \<Longrightarrow> map_of (ac_writers a) n = Some wr \<Longrightarrow>
   actor_inv (a\<lparr>ac_dirty := or_insert n off (ac_dirty a)\<rparr>)"
  using actor_inv_update_dirty [of a n wr off] by (simp add: or_insert_def)

lemma purge_keeps [keeps]:
  assumes "purge_old_docs dp r a n cutoff = Ret (a', res)" "actor_inv a"
  shows "actor_inv a'"
  using assms(1)
proof (cases rule: purge_cases)
  case (stopped a1 x m w e)
  with ensure_writer_keeps [OF stopped(1) assms(2)] show ?thesis by auto
next
  case (staged a1 m w f wr wr')
  have "actor_inv (a1\<lparr>ac_manager := m, ac_world := w, ac_writers := AList.update n wr' (ac_writers a1)\<rparr>)"
    using ensure_writer_keeps [OF staged(1) assms(2)]
      actor_inv_update_writer [of "a1\<lparr>ac_manager := m, ac_world := w\<rparr>" n wr']
    by simp
  from actor_inv_or_insert [OF this, of n wr' 0] staged show ?thesis
    by (simp add: update_conv')
next
  case (refused a1 m w f wr wr' e e')
  then show ?thesis
    using ensure_writer_keeps [OF refused(1) assms(2)]
      actor_inv_update_writer [of "a1\<lparr>ac_manager := m, ac_world := w\<rparr>" n wr']
    by simp
qed (use assms(2) in simp)

definition commit_one ::
    "('w, 'x, 'i, 'doc, 'f, 'wr) writer_api \<Rightarrow> u64 \<Rightarrow> 'wr \<Rightarrow> 'wr" where
  "commit_one wapi offset writer =
     (case wa_prepare_commit wapi writer of
        (writer1, Some e) \<Rightarrow> writer1
      | (writer1, None) \<Rightarrow> fst (wa_commit wapi writer1 (decimal_text (unat offset))))"

text \<open>The commits touch each dirty writer once, whatever the order of the hash map.\<close>

lemma commit_entries_get:
  "hm_wf dirty \<Longrightarrow>
   map_of (commit_entries wapi writers dirty) k =
     (case map_of writers k of
        None \<Rightarrow> None
      | Some wr \<Rightarrow> (case map_of dirty k of None \<Rightarrow> Some wr | Some off \<Rightarrow> Some (commit_one wapi off wr)))"
proof (induction wapi writers dirty rule: commit_entries.induct)
  case (1 wapi writers)
  then show ?case by (simp split: option.split)
next
  case (2 wapi writers n off dirty)
  have wf: "hm_wf dirty" and n: "map_of dirty n = None"
    using "2.prems" by (simp_all add: hm_wf_def map_of_eq_None_iff)
  show ?case
  proof (cases "map_of writers n")
    case None
    with "2.IH"(1) [OF None wf] n show ?thesis by (auto split: option.split)
  next
    case (Some wr)
    have step: "commit_entries wapi writers ((n, off) # dirty) =
        commit_entries wapi (AList.update n (commit_one wapi off wr) writers) dirty"
      by (simp add: Some commit_one_def split: prod.split option.split)
    obtain wr1 e where p: "wa_prepare_commit wapi wr = (wr1, e)" by fastforce
    have "map_of (commit_entries wapi (AList.update n (commit_one wapi off wr) writers) dirty) k =
      (case map_of (AList.update n (commit_one wapi off wr) writers) k of None \<Rightarrow> None
       | Some wr \<Rightarrow> (case map_of dirty k of None \<Rightarrow> Some wr | Some off \<Rightarrow> Some (commit_one wapi off wr)))"
      using "2.IH"(2) [OF Some p [symmetric] _ wf] "2.IH"(3) [OF Some p [symmetric] _ wf] p
      by (cases e) (simp_all add: commit_one_def)
    with Some n show ?thesis
      unfolding step by (auto simp: update_conv' split: option.split)
  qed
qed

lemma hm_wf_commit_entries: "hm_wf writers \<Longrightarrow> hm_wf (commit_entries wapi writers dirty)"
  by (induction wapi writers dirty rule: commit_entries.induct) (simp_all split: option.split prod.split)

lemma commit_all_keeps [keeps]: "actor_inv a \<Longrightarrow> actor_inv (commit_all dp a)"
  by (simp add: actor_inv_def commit_all_def hm_wf_commit_entries)

section \<open>One event, one document\<close>

lemma event_outcome:
  assumes "writer_law (dp_writer dp) pend comm pay" "actor_inv a"
    and "process_event dp r a ev off = Ret (a', res)"
  shows "case res of
      Inr _ \<Rightarrow> \<exists>d m s i doc. reg_get r (ev_index ev) = Some d \<and>
        sj_from_slice (dp_json dp) (ev_payload ev) = Inr (JObject m) \<and>
        sj_to_string (dp_json dp) (JObject (build_root (dp_json dp) d (JObject m))) = Inr s \<and>
        wa_parse_json (dp_writer dp) (ix_schema (dp_index dp) i) s = Inr doc \<and>
        pending pend a' = (pending pend a)(ev_index ev := pending pend a (ev_index ev) @ [Inl doc]) \<and>
        map_of (ac_dirty a') = (map_of (ac_dirty a))(ev_index ev \<mapsto> off)
    | Inl _ \<Rightarrow> pending pend a' = pending pend a \<and> ac_dirty a' = ac_dirty a"
  using assms(3)
proof (cases rule: process_event_cases)
  case (no_index a1 m w x e)
  with ensure_writer_keeps [OF no_index(1) assms(2)] ensure_writer_pending [OF no_index(1) assms(1)]
  show ?thesis by auto
next
  case (run d m a1 man w i)
  let ?n = "ev_index ev"
  note e1 = ensure_writer_keeps [OF run(3) assms(2)] and p1 = ensure_writer_pending [OF run(3) assms(1)]
  from run(5) show ?thesis
  proof (cases rule: add_event_cases)
    case no_writer
    with e1 show ?thesis by (simp add: map_of_eq_None_iff)
  next
    case (added s doc wr wr')
    have "pend wr' = pend wr @ [Inl doc]"
      using writer_lawD(2) [OF assms(1) added(4)] by simp
    then have "pending pend a' = (pending pend a1)(?n := pending pend a1 ?n @ [Inl doc])"
      using added(3,5) by (auto simp: pending_def fun_eq_iff update_conv')
    with added e1 p1 run(1,2) show ?thesis
      by (auto simp: update_conv')
  next
    case (refused doc wr wr' e)
    have "pend wr' = pend wr"
      using writer_lawD(2) [OF assms(1) refused(2)] by simp
    then have "pending pend a' = pending pend a1"
      using refused(1,3) by (auto simp: pending_def fun_eq_iff update_conv')
    with refused e1 p1 show ?thesis by simp
  qed (use e1 p1 in simp)
qed simp

text \<open>
  The outcome of an event. A success adds exactly one document, parsed from the JSON built
  from the payload and the definition of the event's index, to the uncommitted operations of
  that index, and makes the event's offset the pending offset of the index; every other index
  is left alone. A failure changes no operations and no offsets.
\<close>

theorem event_indexed:
  assumes "writer_law (dp_writer dp) pend comm pay" "actor_inv a"
    and "process_event dp r a ev off = Ret (a', res)"
  shows "case res of
      Inr _ \<Rightarrow> \<exists>d m s i doc. reg_get r (ev_index ev) = Some d \<and>
        sj_from_slice (dp_json dp) (ev_payload ev) = Inr (JObject m) \<and>
        sj_to_string (dp_json dp) (JObject (build_root (dp_json dp) d (JObject m))) = Inr s \<and>
        wa_parse_json (dp_writer dp) (ix_schema (dp_index dp) i) s = Inr doc \<and>
        pending pend a' = (pending pend a)(ev_index ev := pending pend a (ev_index ev) @ [Inl doc]) \<and>
        map_of (ac_dirty a') = (map_of (ac_dirty a))(ev_index ev \<mapsto> off)
    | Inl _ \<Rightarrow> pending pend a' = pending pend a \<and> ac_dirty a' = ac_dirty a"
  by (rule event_outcome [OF assms])

end
