(* ===== verification/Indexer_Run.thy ===== *)
theory Indexer_Run
  imports Indexer
begin

text \<open>
  Runs of the indexing task over arbitrary lists of events, purge commands and ticks: the
  invariant of reachable states, what a tick commits, and that no order of events makes the
  task panic.
\<close>

section \<open>Runs of the task\<close>

text \<open>A writer whose commits do not fail.\<close>

definition reliable :: "('w, 'x, 'i, 'doc, 'f, 'wr) writer_api \<Rightarrow> bool" where
  "reliable wapi \<longleftrightarrow>
     (\<forall>wr. snd (wa_prepare_commit wapi wr) = None) \<and> (\<forall>wr p. snd (wa_commit wapi wr p) = None)"

text \<open>Whatever is uncommitted belongs to an index that waits for a commit.\<close>

definition tidy :: "('wr \<Rightarrow> 'op list) \<Rightarrow> ('w, 'i, 'rd, 'wr) actor \<Rightarrow> bool" where
  "tidy pend a \<longleftrightarrow> (\<forall>n. pending pend a n \<noteq> [] \<longrightarrow> map_of (ac_dirty a) n \<noteq> None)"

lemma commit_one_reliable:
  assumes "writer_law wapi pend comm pay" "reliable wapi"
  shows "pend (commit_one wapi off wr) = [] \<and> comm (commit_one wapi off wr) = comm wr @ pend wr \<and>
    pay (commit_one wapi off wr) = Some (decimal_text (unat off))"
proof -
  obtain wr1 where p: "wa_prepare_commit wapi wr = (wr1, None)"
    using assms(2) by (metis prod.collapse reliable_def)
  obtain wr2 where c: "wa_commit wapi wr1 (decimal_text (unat off)) = (wr2, None)"
    using assms(2) by (metis prod.collapse reliable_def)
  show ?thesis
    using writer_lawD(4) [OF assms(1) p] writer_lawD(5) [OF assms(1) c] by (simp add: commit_one_def p c)
qed

lemma commit_all_pending:
  assumes "writer_law (dp_writer dp) pend comm pay" "reliable (dp_writer dp)" "actor_inv a" "tidy pend a"
  shows "pending pend (commit_all dp a) n = []"
proof (cases "map_of (ac_writers a) n")
  case None
  then show ?thesis
    using assms(3) by (simp add: pending_def commit_all_def commit_entries_get actor_inv_def)
next
  case (Some wr)
  show ?thesis
  proof (cases "map_of (ac_dirty a) n")
    case None
    then have "pend wr = []"
      using assms(4) [unfolded tidy_def, rule_format, of n] Some by (auto simp: pending_def)
    with None Some assms(3) show ?thesis
      by (simp add: pending_def commit_all_def commit_entries_get actor_inv_def)
  next
    case (Some off)
    with \<open>map_of (ac_writers a) n = Some wr\<close> assms(3) commit_one_reliable [OF assms(1,2)] show ?thesis
      by (simp add: pending_def commit_all_def commit_entries_get actor_inv_def)
  qed
qed

lemma process_event_tidy:
  assumes "writer_law (dp_writer dp) pend comm pay" "actor_inv a" "tidy pend a"
    and "process_event dp r a ev off = Ret (a', res)"
  shows "tidy pend a'"
  using event_outcome [OF assms(1,2,4)] assms(3)
  by (auto simp: tidy_def split: sum.splits if_splits)

lemma purge_tidy:
  assumes "writer_law (dp_writer dp) pend comm pay" "actor_inv a" "tidy pend a"
    and "purge_old_docs dp r a n cutoff = Ret (a', res)"
  shows "tidy pend a'"
  using assms(4)
proof (cases rule: purge_cases)
  case (stopped a1 x m w e)
  with ensure_writer_keeps [OF stopped(1) assms(2)] ensure_writer_pending [OF stopped(1) assms(1)] assms(3)
  show ?thesis by (auto simp: tidy_def)
next
  case (staged a1 m w f wr wr')
  note e1 = ensure_writer_keeps [OF staged(1) assms(2)] and p1 = ensure_writer_pending [OF staged(1) assms(1)]
  have "pending pend a' k = pending pend a1 k" if "k \<noteq> n" for k
    using staged(5) that by (simp add: pending_def update_conv')
  moreover have "map_of (ac_dirty a') n \<noteq> None"
    "map_of (ac_dirty a) k \<noteq> None \<Longrightarrow> map_of (ac_dirty a') k \<noteq> None" for k
    using staged(5) e1 by (auto simp: map_of_or_insert)
  ultimately show ?thesis
    using p1 assms(3) unfolding tidy_def by metis
next
  case (refused a1 m w f wr wr' e e')
  note e1 = ensure_writer_keeps [OF refused(1) assms(2)] and p1 = ensure_writer_pending [OF refused(1) assms(1)]
  have "pend wr' = pend wr"
    using writer_lawD(3) [OF assms(1) refused(4)] by simp
  then have "pending pend a' = pending pend a1"
    using refused(3,5) by (auto simp: pending_def fun_eq_iff update_conv')
  with p1 e1 refused(5) assms(3) show ?thesis by (simp add: tidy_def)
qed (use assms(3) in simp)

definition actor_ok ::
    "('b, 'x, 'w, 'd, 'i, 'rd, 'doc, 'f, 'wr) deps \<Rightarrow> ('wr \<Rightarrow> ('doc + 'f \<times> int) list) \<Rightarrow>
     ('wr \<Rightarrow> ('doc + 'f \<times> int) list) \<Rightarrow> ('wr \<Rightarrow> string option) \<Rightarrow>
     ('w, 'i, 'rd, 'wr) actor run \<Rightarrow> bool" where
  "actor_ok dp pend comm pay s \<longleftrightarrow>
     (\<forall>a. s = Ret a \<longrightarrow> actor_inv a \<and>
        (writer_law (dp_writer dp) pend comm pay \<and> reliable (dp_writer dp) \<longrightarrow> tidy pend a))"

lemma tidy_simps [simp]:
  "tidy pend (a\<lparr>ac_docs_since_commit := c\<rparr>) = tidy pend a"
  by (simp add: tidy_def)

lemma commit_all_tidy:
  "writer_law (dp_writer dp) pend comm pay \<Longrightarrow> reliable (dp_writer dp) \<Longrightarrow> actor_inv a \<Longrightarrow>
   tidy pend a \<Longrightarrow> tidy pend (commit_all dp a)"
  unfolding tidy_def [of pend "commit_all dp a"] using commit_all_pending by blast

lemma actor_step_ok:
  assumes "actor_ok dp pend comm pay s"
  shows "actor_ok dp pend comm pay (actor_step dp s e)"
proof (cases e)
  case (Pair r ev)
  show ?thesis
    unfolding actor_ok_def
  proof (intro allI impI)
    fix a'
    assume step: "actor_step dp s e = Ret a'"
    then obtain a where a: "s = Ret a"
      by (cases s; cases ev) (auto simp: Pair)
    then have inv: "actor_inv a"
      and tidy: "writer_law (dp_writer dp) pend comm pay \<Longrightarrow> reliable (dp_writer dp) \<Longrightarrow> tidy pend a"
      using assms by (simp_all add: actor_ok_def)
    show "actor_inv a' \<and>
        (writer_law (dp_writer dp) pend comm pay \<and> reliable (dp_writer dp) \<longrightarrow> tidy pend a')"
    proof (cases ev)
      case (Receive event off)
      then obtain a1 res where p: "process_event dp r a event off = Ret (a1, res)"
        using step by (auto simp: a Pair run_simps simp del: run_bind.simps)
      define a2 where "a2 = (case res of Inl _ \<Rightarrow> a1
          | Inr _ \<Rightarrow> a1\<lparr>ac_docs_since_commit := ac_docs_since_commit a1 + 1\<rparr>)"
      have "actor_inv a2" "writer_law (dp_writer dp) pend comm pay \<Longrightarrow> reliable (dp_writer dp) \<Longrightarrow> tidy pend a2"
        using process_event_keeps [OF p inv] process_event_tidy [OF _ inv tidy p]
        by (auto simp: a2_def split: sum.split)
      moreover have "a' = commit_all dp a2\<lparr>ac_docs_since_commit := 0\<rparr> \<or> a' = a2"
        using step p Receive by (auto simp: a Pair Let_def a2_def split: if_splits)
      ultimately show ?thesis
        using commit_all_keeps [of a2 dp] commit_all_tidy [of dp pend comm pay a2] by auto
    next
      case (PurgeCommand n cutoff)
      then obtain res where p: "purge_old_docs dp r a n cutoff = Ret (a', res)"
        using step by (auto simp: a Pair run_simps simp del: run_bind.simps)
      show ?thesis
        using purge_keeps [OF p inv] purge_tidy [OF _ inv tidy p] by blast
    next
      case Tick
      then have "a' = commit_all dp a\<lparr>ac_docs_since_commit := 0\<rparr> \<or> a' = a"
        using step by (auto simp: a Pair split: if_splits)
      then show ?thesis
        using commit_all_keeps [OF inv, of dp] commit_all_tidy [of dp pend comm pay a] inv tidy by auto
    qed
  qed
qed

interpretation indexing: invariant_machine "actor_step dp" "actor_ok dp pend comm pay" for dp pend comm pay
  by unfold_locales (rule actor_step_ok)

lemma new_actor_ok: "actor_ok dp pend comm pay (Ret (new_actor m w mb))"
  by (simp add: actor_ok_def actor_inv_def new_actor_def tidy_def pending_def)

lemma reachable_ok:
  "foldl (actor_step dp) (Ret (new_actor m w mb)) es = Ret a \<Longrightarrow> actor_ok dp pend comm pay (Ret a)"
  using indexing.run_inv [OF new_actor_ok, of dp pend comm pay m w mb es] by simp

lemma tick_outcome:
  assumes "writer_law (dp_writer dp) pend comm pay" "reliable (dp_writer dp)"
    and inv: "actor_inv a" and tidy: "tidy pend a"
  shows "\<exists>a'. actor_step dp (Ret a) (r, Tick) = Ret a' \<and> ac_dirty a' = [] \<and>
    (\<forall>n wr. map_of (ac_writers a) n = Some wr \<longrightarrow>
       (\<exists>wr'. map_of (ac_writers a') n = Some wr' \<and> pend wr' = [] \<and> comm wr' = comm wr @ pend wr \<and>
          (\<forall>off. map_of (ac_dirty a) n = Some off \<longrightarrow>
             (\<exists>p. pay wr' = Some p \<and> parse_u64 p = Some off))))"
proof -
  let ?a' = "if ac_dirty a \<noteq> [] then commit_all dp a\<lparr>ac_docs_since_commit := 0\<rparr> else a"
  have get: "map_of (ac_writers ?a') n =
      (case map_of (ac_dirty a) n of None \<Rightarrow> Some wr | Some off \<Rightarrow> Some (commit_one (dp_writer dp) off wr))"
    if "map_of (ac_writers a) n = Some wr" for n wr
    using that inv by (simp add: commit_all_def commit_entries_get actor_inv_def)
  have clean: "pend wr = []" if "map_of (ac_writers a) n = Some wr" "map_of (ac_dirty a) n = None" for n wr
    using tidy [unfolded tidy_def, rule_format, of n] that by (auto simp: pending_def)
  have "\<exists>wr'. map_of (ac_writers ?a') n = Some wr' \<and> pend wr' = [] \<and> comm wr' = comm wr @ pend wr \<and>
      (\<forall>off. map_of (ac_dirty a) n = Some off \<longrightarrow> (\<exists>p. pay wr' = Some p \<and> parse_u64 p = Some off))"
    if "map_of (ac_writers a) n = Some wr" for n wr
    using get [OF that] clean [OF that] commit_one_reliable [OF assms(1,2)] parse_decimal_text
    by (cases "map_of (ac_dirty a) n") simp_all
  then show ?thesis
    by (intro exI [of _ ?a']) (simp add: commit_all_def)
qed

text \<open>
  C17. With a writer whose commits do not fail, a timer tick in any reachable state leaves
  nothing uncommitted: every writer has committed all its operations, in order, and for every
  index that had pending operations the payload of the commit is the decimal text of the
  pending offset and parses back to it.
\<close>

theorem tick_commits_everything:
  assumes "writer_law (dp_writer dp) pend comm pay" "reliable (dp_writer dp)"
    and "foldl (actor_step dp) (Ret (new_actor m w mb)) es = Ret a"
  shows "\<exists>a'. actor_step dp (Ret a) (r, Tick) = Ret a' \<and> ac_dirty a' = [] \<and>
    (\<forall>n wr. map_of (ac_writers a) n = Some wr \<longrightarrow>
       (\<exists>wr'. map_of (ac_writers a') n = Some wr' \<and> pend wr' = [] \<and> comm wr' = comm wr @ pend wr \<and>
          (\<forall>off. map_of (ac_dirty a) n = Some off \<longrightarrow>
             (\<exists>p. pay wr' = Some p \<and> parse_u64 p = Some off))))"
proof -
  have "actor_inv a" "tidy pend a"
    using reachable_ok [OF assms(3), of pend comm pay] assms(1,2) by (simp_all add: actor_ok_def)
  then show ?thesis
    by (rule tick_outcome [OF assms(1,2)])
qed

definition builds :: "('b, 'x) schema_api \<Rightarrow> registry \<Rightarrow> string \<Rightarrow> bool" where
  "builds sapi r n \<longleftrightarrow> (\<forall>d. reg_get r n = Some d \<longrightarrow> build_schema sapi d \<noteq> Panicked)"

lemma get_or_create_builds:
  assumes "builds sapi r n"
  obtains m w x where "get_or_create_index sapi api r mw n = Ret (m, w, x)"
proof -
  have "get_or_create_index sapi api r mw n \<noteq> Panicked"
  proof (cases "reg_get r n")
    case None
    then show ?thesis by (simp add: get_or_create_index_def split: option.split prod.split)
  next
    case (Some d)
    with assms obtain s where "build_schema sapi d = Ret s"
      by (cases "build_schema sapi d") (auto simp: builds_def)
    with Some show ?thesis
      by (simp add: get_or_create_index_def Let_def split: option.split prod.split sum.split)
  qed
  with that show ?thesis
    by (cases "get_or_create_index sapi api r mw n") auto
qed

lemma ensure_writer_builds:
  assumes "builds (dp_schema dp) r n"
  obtains a1 x where "ensure_writer dp r a n = Ret (a1, x)"
proof -
  obtain m w x where "get_or_create_index (dp_schema dp) (dp_index dp) r (ac_manager a, ac_world a) n = Ret (m, w, x)"
    using get_or_create_builds [OF assms] .
  then have "ensure_writer dp r a n \<noteq> Panicked"
    by (simp add: ensure_writer_def Let_def split: sum.split prod.split)
  with that show ?thesis by (cases "ensure_writer dp r a n") auto
qed

lemma process_event_builds:
  assumes "builds (dp_schema dp) r (ev_index ev)"
  shows "process_event dp r a ev off \<noteq> Panicked"
proof -
  obtain a1 x where ens: "ensure_writer dp r a (ev_index ev) = Ret (a1, x)"
    using ensure_writer_builds [OF assms] .
  obtain m w y where get: "get_or_create_index (dp_schema dp) (dp_index dp) r (ac_manager a1, ac_world a1) (ev_index ev) = Ret (m, w, y)"
    using get_or_create_builds [OF assms] .
  show ?thesis
    by (simp add: process_event_def ens get Let_def split: option.split sum.split)
qed

lemma purge_builds:
  assumes "builds (dp_schema dp) r n" "actor_inv a"
  shows "purge_old_docs dp r a n cutoff \<noteq> Panicked"
proof -
  obtain a1 x where ens: "ensure_writer dp r a n = Ret (a1, x)"
    using ensure_writer_builds [OF assms(1)] .
  obtain m w y where get: "get_or_create_index (dp_schema dp) (dp_index dp) r (ac_manager a1, ac_world a1) n = Ret (m, w, y)"
    using get_or_create_builds [OF assms(1)] .
  show ?thesis
  proof (cases x)
    case (Inl e)
    then show ?thesis
      by (simp add: purge_old_docs_def ens split: option.split)
  next
    case (Inr u)
    then have "n \<in> fst ` set (ac_writers a1)"
      using ensure_writer_keeps [OF ens assms(2)] by simp
    then obtain wr where "map_of (ac_writers a1) n = Some wr"
      by (cases "map_of (ac_writers a1) n") (auto simp: map_of_eq_None_iff)
    with Inr show ?thesis
      by (simp add: purge_old_docs_def ens get Let_def split: option.split sum.split prod.split)
  qed
qed

text \<open>
  The task does not panic in any order of events, purges and ticks, as long as a schema can
  be built for every registered definition: the \<open>unwrap\<close> of the purge always finds its
  writer.
\<close>

theorem indexer_never_panics:
  assumes "\<And>r e n d. (r, e) \<in> set es \<Longrightarrow> reg_get r n = Some d \<Longrightarrow> build_schema (dp_schema dp) d \<noteq> Panicked"
  shows "foldl (actor_step dp) (Ret (new_actor m w mb)) es \<noteq> Panicked"
  using assms
proof (induction es rule: rev_induct)
  case (snoc x es)
  obtain r e where x: "x = (r, e)" by (cases x)
  have "foldl (actor_step dp) (Ret (new_actor m w mb)) es \<noteq> Panicked"
    by (rule snoc.IH) (use snoc.prems in auto)
  then obtain a where a: "foldl (actor_step dp) (Ret (new_actor m w mb)) es = Ret a"
    by (cases "foldl (actor_step dp) (Ret (new_actor m w mb)) es") auto
  have inv: "actor_inv a"
    using reachable_ok [OF a] by (simp add: actor_ok_def)
  have b: "builds (dp_schema dp) r n" for n
    using snoc.prems [of r e n] x by (simp add: builds_def)
  show ?case
    using process_event_builds [OF b] purge_builds [OF b inv]
    by (cases e) (auto simp: a x run_simps Let_def split: if_splits simp del: run_bind.simps)
qed simp


end
