(* ===== verification/Ingest_Valid.thy ===== *)
theory Ingest_Valid
  imports Schema_Valid
begin

text \<open>
  \<open>src/ingestion/validation.rs\<close>: the check of a document against an index definition,
  which also drops unmapped fields and fills in defaults. The loop over the fields follows the
  iteration order of a hash map; success and the resulting document do not depend on it, only
  the choice among several errors does.
\<close>

section \<open>The code\<close>

datatype IngestionValidationError =
    NotAnObject
  | UnknownField string
  | MissingRequiredField string
  | TypeMismatch string FieldType

text \<open>The keys to remove, or the first unknown key in strict mode.\<close>

fun mode_loop ::
    "IndexDefinition \<Rightarrow> string list \<Rightarrow> string list \<Rightarrow> IngestionValidationError + string list" where
  "mode_loop d keys_to_remove [] = Inr keys_to_remove"
| "mode_loop d keys_to_remove (key # keys) =
     (if \<not> hm_contains_key (idx_fields d) key \<and> key \<noteq> ''_source'' then
        (case idx_mode d of
           Strict \<Rightarrow> Inl (UnknownField key)
         | DropUnmapped \<Rightarrow> mode_loop d (keys_to_remove @ [key]) keys
         | Dynamic \<Rightarrow> mode_loop d keys_to_remove keys)
      else mode_loop d keys_to_remove keys)"

definition remove_keys :: "string list \<Rightarrow> (string \<times> json) list \<Rightarrow> (string \<times> json) list" where
  "remove_keys keys obj = foldl (\<lambda>m k. bt_remove k m) obj keys"

definition is_valid_value :: "FieldType \<Rightarrow> json \<Rightarrow> bool" where
  "is_valid_value ty val =
     (case ty of
        Text \<Rightarrow> is_string val
      | Keyword \<Rightarrow> is_string val
      | Integer \<Rightarrow> is_i64 val \<or> is_u64 val
      | FloatField \<Rightarrow> is_number val
      | Boolean \<Rightarrow> is_boolean val
      | Datetime \<Rightarrow> is_string val \<or> is_number val
      | Bytes \<Rightarrow> is_string val \<or> is_array val)"

definition check_field ::
    "(string \<times> json) list \<Rightarrow> string \<times> FieldDefinition \<Rightarrow>
     IngestionValidationError + (string \<times> json) list" where
  "check_field obj e =
     (case e of (field_name, fd) \<Rightarrow>
        case map_of obj field_name of
          Some val \<Rightarrow>
            if is_null val then
              (if \<not> fd_optional fd then Inl (MissingRequiredField field_name) else Inr obj)
            else if \<not> is_valid_value (fd_field_type fd) val
            then Inl (TypeMismatch field_name (fd_field_type fd))
            else Inr obj
        | None \<Rightarrow>
            (case fd_default fd of
               Some default_val \<Rightarrow> Inr (bt_insert field_name default_val obj)
             | None \<Rightarrow>
                 if \<not> fd_optional fd then Inl (MissingRequiredField field_name) else Inr obj))"

fun fields_loop ::
    "(string \<times> json) list \<Rightarrow> (string \<times> FieldDefinition) list \<Rightarrow>
     IngestionValidationError + (string \<times> json) list" where
  "fields_loop obj [] = Inr obj"
| "fields_loop obj (e # es) =
     (case check_field obj e of Inl err \<Rightarrow> Inl err | Inr obj' \<Rightarrow> fields_loop obj' es)"

definition validate_and_process_document ::
    "IndexDefinition \<Rightarrow> json \<Rightarrow> IngestionValidationError + json" where
  "validate_and_process_document d document =
     (case document of
        JObject obj \<Rightarrow>
          (case mode_loop d [] (map fst obj) of
             Inl err \<Rightarrow> Inl err
           | Inr keys_to_remove \<Rightarrow>
               (case fields_loop (remove_keys keys_to_remove obj) (idx_fields d) of
                  Inl err \<Rightarrow> Inl err
                | Inr obj' \<Rightarrow> Inr (JObject obj')))
      | _ \<Rightarrow> Inl NotAnObject)"

section \<open>The loop over the fields\<close>

definition ok_value :: "'e + 'a \<Rightarrow> 'a option" where
  "ok_value r = (case r of Inl _ \<Rightarrow> None | Inr x \<Rightarrow> Some x)"

lemma ok_value_simps [simp]: "ok_value (Inl e) = None" "ok_value (Inr x) = Some x"
  by (simp_all add: ok_value_def)

lemma ok_value_iff: "ok_value r = Some x \<longleftrightarrow> r = Inr x" "ok_value r = None \<longleftrightarrow> (\<exists>e. r = Inl e)"
  by (cases r; simp)+

lemma ok_fields_loop:
  "ok_value (fields_loop obj fs) = try_fold (\<lambda>m e. ok_value (check_field m e)) obj fs"
proof (induction obj fs rule: fields_loop.induct)
  case (2 obj e es)
  then show ?case by (cases "check_field obj e") simp_all
qed simp

text \<open>Fields with different names may be checked in either order.\<close>

lemma check_field_swap:
  assumes "fst d \<noteq> fst e"
  shows "try_fold (\<lambda>m e. ok_value (check_field m e)) obj [d, e] =
    try_fold (\<lambda>m e. ok_value (check_field m e)) obj [e, d]"
proof -
  obtain n fd n' fd' where de: "d = (n, fd)" "e = (n', fd')"
    by (cases d; cases e)
  with assms have "n \<noteq> n'" by simp
  then show ?thesis
    by (cases "map_of obj n"; cases "map_of obj n'"; cases "fd_default fd"; cases "fd_default fd'")
      (simp_all add: de check_field_def bt_insert_commute [OF \<open>n \<noteq> n'\<close>])
qed

interpretation field_order: unordered_loop "\<lambda>m e. ok_value (check_field m e)" "\<lambda>d e. fst d \<noteq> fst e"
  by unfold_locales (rule check_field_swap)

lemma fields_loop_order:
  assumes "mset fs = mset gs" "hm_wf fs"
  shows "ok_value (fields_loop obj fs) = ok_value (fields_loop obj gs)"
proof -
  have "pairwise (\<lambda>d e. fst d \<noteq> fst e) (set fs)" "distinct fs"
    using assms(2) by (auto simp: hm_wf_def pairwise_def distinct_map inj_on_def)
  then show ?thesis
    unfolding ok_fields_loop by (rule field_order.order_irrelevant [OF assms(1)])
qed

section \<open>What the check accepts and returns\<close>

definition field_ok :: "(string \<rightharpoonup> json) \<Rightarrow> string \<times> FieldDefinition \<Rightarrow> bool" where
  "field_ok m e \<longleftrightarrow>
     (case m (fst e) of
        Some val \<Rightarrow>
          if val = JNull then fd_optional (snd e) else is_valid_value (fd_field_type (snd e)) val
      | None \<Rightarrow> fd_default (snd e) \<noteq> None \<or> fd_optional (snd e))"

definition with_defaults :: "(string \<times> FieldDefinition) list \<Rightarrow> (string \<rightharpoonup> json) \<Rightarrow> string \<rightharpoonup> json" where
  "with_defaults fs m k =
     (case m k of
        Some v \<Rightarrow> Some v
      | None \<Rightarrow> (case map_of fs k of Some fd \<Rightarrow> fd_default fd | None \<Rightarrow> None))"

lemma is_null_iff [simp]: "is_null v \<longleftrightarrow> v = JNull"
  by (cases v) simp_all

lemma check_field_ok_iff:
  "check_field obj e = Inr obj' \<longleftrightarrow>
    field_ok (map_of obj) e \<and>
    obj' = (case (map_of obj (fst e), fd_default (snd e)) of
              (None, Some v) \<Rightarrow> bt_insert (fst e) v obj | _ \<Rightarrow> obj)"
  by (auto simp: check_field_def field_ok_def split: prod.splits option.splits)

lemma fields_loop_ok_iff:
  "hm_wf fs \<Longrightarrow> bt_wf obj \<Longrightarrow>
   (\<exists>obj'. fields_loop obj fs = Inr obj' \<and> bt_wf obj' \<and> map_of obj' = with_defaults fs (map_of obj)) \<and>
     list_all (field_ok (map_of obj)) fs \<or>
   (\<exists>err. fields_loop obj fs = Inl err) \<and> \<not> list_all (field_ok (map_of obj)) fs"
proof (induction fs arbitrary: obj)
  case Nil
  then show ?case by (simp add: with_defaults_def fun_eq_iff split: option.split)
next
  case (Cons e fs)
  obtain n fd where e: "e = (n, fd)" by (cases e)
  have n: "n \<notin> fst ` set fs" "hm_wf fs"
    using Cons.prems(1) by (simp_all add: hm_wf_def e)
  show ?case
  proof (cases "field_ok (map_of obj) e")
    case False
    then have "ok_value (check_field obj e) = None"
      using check_field_ok_iff [of obj e] by (cases "check_field obj e") auto
    with False show ?thesis by (auto simp: ok_value_iff)
  next
    case True
    define obj1 where "obj1 = (case (map_of obj n, fd_default fd) of
        (None, Some v) \<Rightarrow> bt_insert n v obj | _ \<Rightarrow> obj)"
    have one: "check_field obj e = Inr obj1"
      using True by (simp add: check_field_ok_iff e obj1_def split: option.split)
    have wf: "bt_wf obj1"
      using Cons.prems(2) by (simp add: obj1_def split: option.split)
    have get: "map_of obj1 k = (if k = n \<and> map_of obj n = None then fd_default fd else map_of obj k)" for k
      by (auto simp: obj1_def split: option.split)
    have "field_ok (map_of obj1) f = field_ok (map_of obj) f" if "f \<in> set fs" for f
      using n(1) that by (auto simp: field_ok_def get)
    then have all: "list_all (field_ok (map_of obj1)) fs = list_all (field_ok (map_of obj)) fs"
      by (auto simp: list_all_iff)
    have "map_of fs n = None"
      using n(1) by (simp add: map_of_eq_None_iff)
    then have "with_defaults fs (map_of obj1) = with_defaults (e # fs) (map_of obj)"
      by (auto simp: with_defaults_def get e fun_eq_iff split: option.split)
    with Cons.IH [OF n(2) wf] one all True show ?thesis by simp
  qed
qed

text \<open>The keys a definition without a strict mode keeps.\<close>

definition keeps_key :: "IndexDefinition \<Rightarrow> string \<Rightarrow> bool" where
  "keeps_key d k \<longleftrightarrow> hm_contains_key (idx_fields d) k \<or> k = ''_source'' \<or> idx_mode d \<noteq> DropUnmapped"

lemma mode_loop_eq:
  "mode_loop d acc keys =
    (case find (\<lambda>k. \<not> hm_contains_key (idx_fields d) k \<and> k \<noteq> ''_source'') keys of
       Some k \<Rightarrow> if idx_mode d = Strict then Inl (UnknownField k)
                 else Inr (acc @ filter (\<lambda>k. \<not> keeps_key d k) keys)
     | None \<Rightarrow> Inr acc)"
proof (induction d acc keys rule: mode_loop.induct)
  case (2 d acc key keys)
  have *: "filter (\<lambda>k. \<not> keeps_key d k) keys = []"
    if "find (\<lambda>k. \<not> hm_contains_key (idx_fields d) k \<and> k \<noteq> ''_source'') keys = None"
    using that by (auto simp: find_None_iff keeps_key_def filter_empty_conv)
  from 2 * show ?case
    by (cases "idx_mode d") (auto simp: keeps_key_def split: option.split)
qed simp

lemma map_of_remove_keys:
  "map_of (remove_keys keys obj) k = (if k \<in> set keys then None else map_of obj k)"
  by (induction keys arbitrary: obj) (auto simp: remove_keys_def)

lemma bt_wf_remove_keys: "bt_wf obj \<Longrightarrow> bt_wf (remove_keys keys obj)"
  by (induction keys arbitrary: obj) (auto simp: remove_keys_def)

text \<open>
  The specification: which documents a definition accepts, and what it turns them into. Fields
  that are declared keep their value or get their default; undeclared ones are kept unless the
  mode drops them.
\<close>

definition accepts_document :: "IndexDefinition \<Rightarrow> (string \<rightharpoonup> json) \<Rightarrow> bool" where
  "accepts_document d m \<longleftrightarrow>
     (idx_mode d = Strict \<longrightarrow> dom m \<subseteq> insert ''_source'' (fst ` set (idx_fields d))) \<and>
     list_all (field_ok m) (idx_fields d)"

definition processed_document :: "IndexDefinition \<Rightarrow> (string \<rightharpoonup> json) \<Rightarrow> string \<rightharpoonup> json" where
  "processed_document d m k =
     (case map_of (idx_fields d) k of
        Some fd \<Rightarrow> (case m k of Some v \<Rightarrow> Some v | None \<Rightarrow> fd_default fd)
      | None \<Rightarrow> if idx_mode d = DropUnmapped \<and> k \<noteq> ''_source'' then None else m k)"

lemma document_cases:
  assumes "hm_wf (idx_fields d)" "bt_wf obj"
  shows "if accepts_document d (map_of obj)
    then \<exists>obj'. validate_and_process_document d (JObject obj) = Inr (JObject obj') \<and> bt_wf obj' \<and>
      map_of obj' = processed_document d (map_of obj)
    else \<exists>err. validate_and_process_document d (JObject obj) = Inl err"
proof -
  let ?unknown = "find (\<lambda>k. \<not> hm_contains_key (idx_fields d) k \<and> k \<noteq> ''_source'') (map fst obj)"
  let ?keys = "filter (\<lambda>k. \<not> keeps_key d k) (map fst obj)"
  have dom: "dom (map_of obj) = fst ` set obj"
    by (rule dom_map_of_conv_image_fst)
  have unknown: "?unknown = None \<longleftrightarrow> dom (map_of obj) \<subseteq> insert ''_source'' (fst ` set (idx_fields d))"
    by (auto simp: find_None_iff dom hm_contains_key_iff)
  show ?thesis
  proof (cases "idx_mode d = Strict \<and> ?unknown \<noteq> None")
    case True
    then obtain k where "?unknown = Some k" by blast
    then have "mode_loop d [] (map fst obj) = Inl (UnknownField k)"
      using True by (simp add: mode_loop_eq)
    moreover have "\<not> accepts_document d (map_of obj)"
      using True unknown by (simp add: accepts_document_def)
    ultimately show ?thesis by (simp add: validate_and_process_document_def)
  next
    case False
    have "?unknown = None \<Longrightarrow> ?keys = []"
      by (auto simp: find_None_iff keeps_key_def filter_empty_conv)
    then have mode: "mode_loop d [] (map fst obj) = Inr ?keys"
      using False by (auto simp: mode_loop_eq split: option.split)
    define obj1 where "obj1 = remove_keys ?keys obj"
    have get: "map_of obj1 k = (if keeps_key d k then map_of obj k else None)" for k
    proof (cases "k \<in> fst ` set obj")
      case True
      then show ?thesis by (auto simp: obj1_def map_of_remove_keys)
    next
      case False
      then have "map_of obj k = None" by (simp add: map_of_eq_None_iff)
      then show ?thesis by (simp add: obj1_def map_of_remove_keys)
    qed
    have "field_ok (map_of obj1) f = field_ok (map_of obj) f" if "f \<in> set (idx_fields d)" for f
      using that by (auto simp: field_ok_def get keeps_key_def hm_contains_key_iff)
    then have ok: "list_all (field_ok (map_of obj1)) (idx_fields d) \<longleftrightarrow> accepts_document d (map_of obj)"
      using False unknown by (auto simp: accepts_document_def list_all_iff)
    have "with_defaults (idx_fields d) (map_of obj1) k = processed_document d (map_of obj) k" for k
      using False unknown
      by (auto simp: with_defaults_def processed_document_def get keeps_key_def hm_contains_key_def
          split: option.split)
    then have result: "with_defaults (idx_fields d) (map_of obj1) = processed_document d (map_of obj)"
      by (rule ext)
    have "validate_and_process_document d (JObject obj) =
        (case fields_loop obj1 (idx_fields d) of Inl err \<Rightarrow> Inl err | Inr obj' \<Rightarrow> Inr (JObject obj'))"
      by (simp add: validate_and_process_document_def mode obj1_def)
    moreover have "bt_wf obj1"
      using assms(2) by (simp add: obj1_def bt_wf_remove_keys)
    ultimately show ?thesis
      using fields_loop_ok_iff [OF assms(1), of obj1] ok result by auto
  qed
qed

text \<open>
  C15. The check implements its specification: on an object it succeeds exactly for the accepted
  documents, and then returns the processed document, a well-formed object again; on anything
  else it reports that the document is not an object.
\<close>

theorem validate_document_refines:
  assumes "hm_wf (idx_fields d)" "\<And>obj. doc = JObject obj \<Longrightarrow> bt_wf obj"
  shows "case doc of
      JObject obj \<Rightarrow>
        (if accepts_document d (map_of obj)
         then \<exists>obj'. validate_and_process_document d doc = Inr (JObject obj') \<and> bt_wf obj' \<and>
           map_of obj' = processed_document d (map_of obj)
         else \<exists>err. validate_and_process_document d doc = Inl err)
    | _ \<Rightarrow> validate_and_process_document d doc = Inl NotAnObject"
proof (cases doc)
  case (JObject obj)
  with document_cases [OF assms(1), of obj] assms(2) show ?thesis by simp
qed (simp_all add: validate_and_process_document_def)

text \<open>
  C33. The iteration order of the hash map of fields does not matter: two definitions that differ
  only in it accept the same documents and turn them into the same result. Only the choice
  among several errors may differ.
\<close>

theorem document_check_order:
  assumes "mset fs = mset (idx_fields d)" "hm_wf fs"
  shows "ok_value (validate_and_process_document (d\<lparr>idx_fields := fs\<rparr>) doc) =
    ok_value (validate_and_process_document d doc)"
proof (cases doc)
  case (JObject obj)
  have "hm_contains_key fs = hm_contains_key (idx_fields d)"
    using mset_eq_setD [OF assms(1)] by (simp add: fun_eq_iff hm_contains_key_iff)
  then have "mode_loop (d\<lparr>idx_fields := fs\<rparr>) [] (map fst obj) = mode_loop d [] (map fst obj)"
    unfolding mode_loop_eq by (simp add: keeps_key_def split: option.split)
  moreover have "ok_value (fields_loop m fs) = ok_value (fields_loop m (idx_fields d))" for m
    using fields_loop_order [OF assms] .
  moreover have "ok_value (case fields_loop m gs of Inl err \<Rightarrow> Inl err | Inr obj' \<Rightarrow> Inr (JObject obj')) =
      map_option JObject (ok_value (fields_loop m gs))" for m gs
    by (cases "fields_loop m gs") simp_all
  ultimately show ?thesis
    by (simp add: JObject validate_and_process_document_def split: sum.split)
qed (simp_all add: validate_and_process_document_def)

definition error_holds :: "IndexDefinition \<Rightarrow> json \<Rightarrow> IngestionValidationError \<Rightarrow> bool" where
  "error_holds d doc err \<longleftrightarrow>
     (case err of
        NotAnObject \<Rightarrow> \<not> is_object doc
      | UnknownField k \<Rightarrow> idx_mode d = Strict \<and> json_get doc k \<noteq> None \<and> k \<notin> fst ` set (idx_fields d)
      | MissingRequiredField k \<Rightarrow>
          (\<exists>fd. map_of (idx_fields d) k = Some fd \<and> \<not> fd_optional fd \<and>
             (json_get doc k = None \<and> fd_default fd = None \<or> json_get doc k = Some JNull))
      | TypeMismatch k ty \<Rightarrow>
          (\<exists>fd v. map_of (idx_fields d) k = Some fd \<and> fd_field_type fd = ty \<and>
             json_get doc k = Some v \<and> \<not> is_valid_value ty v))"

lemma fields_loop_error:
  "fields_loop obj fs = Inl err \<Longrightarrow> hm_wf fs \<Longrightarrow>
   (\<exists>k fd. map_of fs k = Some fd \<and> \<not> fd_optional fd \<and> err = MissingRequiredField k \<and>
      (map_of obj k = None \<and> fd_default fd = None \<or> map_of obj k = Some JNull)) \<or>
   (\<exists>k fd v. map_of fs k = Some fd \<and> err = TypeMismatch k (fd_field_type fd) \<and>
      map_of obj k = Some v \<and> \<not> is_valid_value (fd_field_type fd) v)"
proof (induction obj fs rule: fields_loop.induct)
  case (2 obj e fs)
  obtain n fd where e: "e = (n, fd)" by (cases e)
  have n: "map_of fs n = None" "hm_wf fs"
    using "2.prems"(2) by (simp_all add: hm_wf_def e map_of_eq_None_iff)
  show ?case
  proof (cases "check_field obj e")
    case (Inl err')
    with "2.prems" have "check_field obj (n, fd) = Inl err"
      by (simp add: e)
    then have "\<not> fd_optional fd \<and> err = MissingRequiredField n \<and>
        (map_of obj n = None \<and> fd_default fd = None \<or> map_of obj n = Some JNull) \<or>
        (\<exists>v. err = TypeMismatch n (fd_field_type fd) \<and> map_of obj n = Some v \<and>
          \<not> is_valid_value (fd_field_type fd) v)"
      by (auto simp: check_field_def split: option.splits if_splits)
    moreover have "map_of (e # fs) n = Some fd"
      by (simp add: e)
    ultimately show ?thesis by blast
  next
    case (Inr obj1)
    then have get: "map_of obj1 k = map_of obj k" if "k \<noteq> n" for k
      using that by (auto simp: check_field_ok_iff e split: option.splits)
    have loop: "fields_loop obj1 fs = Inl err"
      using Inr "2.prems"(1) by simp
    have "map_of (e # fs) k = Some fd' \<and> map_of obj k = map_of obj1 k" if "map_of fs k = Some fd'" for k fd'
      using that n(1) get [of k] by (auto simp: e)
    with "2.IH" [OF Inr loop n(2)] show ?thesis by metis
  qed
qed simp

text \<open>
  C34. A reported error is true of the document: an unknown field is a key that the definition
  does not declare, in strict mode; a missing field is declared, not optional, and absent
  without a default or null; a type mismatch is a value of another type than the declared one.
\<close>

theorem reported_error_holds:
  assumes "hm_wf (idx_fields d)" "validate_and_process_document d doc = Inl err"
  shows "error_holds d doc err"
proof (cases doc)
  case (JObject obj)
  show ?thesis
  proof (cases "mode_loop d [] (map fst obj)")
    case (Inl e)
    with assms(2) JObject have "e = err"
      by (simp add: validate_and_process_document_def)
    with Inl obtain k where "idx_mode d = Strict" "err = UnknownField k"
        "find (\<lambda>k. \<not> hm_contains_key (idx_fields d) k \<and> k \<noteq> ''_source'') (map fst obj) = Some k"
      by (auto simp: mode_loop_eq split: option.splits if_splits)
    then show ?thesis
      using JObject find_SomeD [of _ "map fst obj" k]
      by (auto simp: error_holds_def json_get_def hm_contains_key_iff map_of_eq_None_iff image_iff)
  next
    case (Inr keys)
    let ?obj1 = "remove_keys keys obj"
    have loop: "fields_loop ?obj1 (idx_fields d) = Inl err"
      using assms(2) JObject Inr
      by (simp add: validate_and_process_document_def split: sum.splits)
    have "k \<notin> set keys" if "map_of (idx_fields d) k = Some fd" for k fd
      using Inr that
      by (auto simp: mode_loop_eq keeps_key_def hm_contains_key_def split: option.splits if_splits)
    then have "map_of ?obj1 k = json_get doc k" if "map_of (idx_fields d) k = Some fd" for k fd
      using that by (auto simp: map_of_remove_keys JObject json_get_def)
    with fields_loop_error [OF loop assms(1)] show ?thesis
      by (fastforce simp: error_holds_def)
  qed
qed (use assms(2) in \<open>simp_all add: validate_and_process_document_def error_holds_def\<close>)

section \<open>Processing twice\<close>

definition defaults_conform :: "IndexDefinition \<Rightarrow> bool" where
  "defaults_conform d \<longleftrightarrow>
     (\<forall>(n, fd) \<in> set (idx_fields d). case fd_default fd of
        None \<Rightarrow> True
      | Some v \<Rightarrow> if v = JNull then fd_optional fd else is_valid_value (fd_field_type fd) v)"

text \<open>
  A document that was processed is accepted again and does not change any more, provided the
  defaults of the definition have the types of their fields.
\<close>

theorem processing_idempotent:
  assumes "hm_wf (idx_fields d)" "bt_wf obj" "defaults_conform d"
    and "validate_and_process_document d (JObject obj) = Inr doc"
  shows "validate_and_process_document d doc = Inr doc"
proof -
  have acc: "accepts_document d (map_of obj)"
    using document_cases [OF assms(1,2)] assms(4) by (auto split: if_splits)
  then obtain obj' where obj': "doc = JObject obj'" "bt_wf obj'"
      "map_of obj' = processed_document d (map_of obj)"
    using document_cases [OF assms(1,2)] assms(4) by auto
  have "field_ok (map_of obj') e" if "e \<in> set (idx_fields d)" for e
  proof -
    obtain n fd where e: "e = (n, fd)" by (cases e)
    have fd: "map_of (idx_fields d) n = Some fd"
      using that assms(1) by (simp add: e hm_set_iff)
    have "case fd_default fd of None \<Rightarrow> True
        | Some v \<Rightarrow> if v = JNull then fd_optional fd else is_valid_value (fd_field_type fd) v"
      using bspec [OF assms(3) [unfolded defaults_conform_def] that] by (simp only: e prod.case)
    moreover have "field_ok (map_of obj) e"
      using acc that by (auto simp: accepts_document_def list_all_iff)
    ultimately show ?thesis
      by (auto simp: field_ok_def e obj'(3) processed_document_def fd split: option.splits)
  qed
  moreover have "dom (map_of obj') \<subseteq> insert ''_source'' (fst ` set (idx_fields d))" if "idx_mode d = Strict"
  proof
    fix k assume "k \<in> dom (map_of obj')"
    then have "k \<in> dom (map_of obj)" if "k \<notin> fst ` set (idx_fields d)"
      using that unfolding obj'(3) map_of_eq_None_iff [symmetric]
      by (auto simp: processed_document_def split: if_splits)
    then show "k \<in> insert ''_source'' (fst ` set (idx_fields d))"
      using acc that by (auto simp: accepts_document_def)
  qed
  ultimately have "accepts_document d (map_of obj')"
    by (auto simp: accepts_document_def list_all_iff)
  then obtain obj2 where obj2: "validate_and_process_document d doc = Inr (JObject obj2)" "bt_wf obj2"
      "map_of obj2 = processed_document d (map_of obj')"
    using document_cases [OF assms(1) obj'(2)] obj'(1) by auto
  have "map_of obj2 = map_of obj'"
    unfolding obj2(3) obj'(3) by (auto simp: processed_document_def fun_eq_iff split: option.split)
  with bt_wf_unique [OF obj2(2) obj'(2)] obj2(1) obj'(1) show ?thesis by simp
qed

definition bad_default_definition :: IndexDefinition where
  "bad_default_definition =
     index_of_fields ''logs'' [(''level'', (field_of_type Integer)\<lparr>fd_default := Some (JString ''info'')\<rparr>)]"

text \<open>
  Defaults are not checked: a definition that passes its own check can carry a default of
  another type than its field, which processing puts into the document; the processed document
  is then one that the same check rejects.
\<close>

theorem wrong_default_accepted:
  "validate bad_default_definition = Ret (Inr ()) \<and>
   (\<exists>doc. validate_and_process_document bad_default_definition (JObject []) = Inr doc \<and>
     validate_and_process_document bad_default_definition doc = Inl (TypeMismatch ''level'' Integer))"
  by (simp add: validate_def validate_schema_def default_partition_def bad_default_definition_def index_of_fields_def field_of_type_def default_mode_def
      validate_and_process_document_def check_field_def remove_keys_def is_valid_value_def
      hm_contains_key_def)

section \<open>Witnesses\<close>

definition drop_definition :: IndexDefinition where
  "drop_definition = (index_of_fields ''logs''
     [(''level'', (field_of_type Keyword)\<lparr>fd_default := Some (JString ''info'')\<rparr>),
      (''size'', (field_of_type Integer)\<lparr>fd_optional := True\<rparr>)])\<lparr>idx_mode := DropUnmapped\<rparr>"

definition drop_document :: "(string \<times> json) list" where
  "drop_document = [(''host'', JString ''a''), (''size'', JNumber (PosInt 3))]"

lemma drop_wf: "hm_wf (idx_fields drop_definition)" "bt_wf drop_document"
  by (simp_all add: drop_definition_def index_of_fields_def hm_wf_def drop_document_def bt_wf_def
      less_char_def)

lemma drop_processed:
  "validate_and_process_document drop_definition (JObject drop_document) =
    Inr (JObject [(''level'', JString ''info''), (''size'', JNumber (PosInt 3))])"
  by (simp add: drop_definition_def index_of_fields_def drop_document_def field_of_type_def
      validate_and_process_document_def check_field_def remove_keys_def is_valid_value_def
      hm_contains_key_def bt_remove_def less_char_def)

theorem validate_document_refines_witness:
  "accepts_document drop_definition (map_of drop_document) \<and>
   processed_document drop_definition (map_of drop_document) ''host'' = None"
  using validate_document_refines [of drop_definition "JObject drop_document"] drop_wf drop_processed
  by (auto simp: processed_document_def drop_definition_def index_of_fields_def split: if_splits)

theorem document_check_order_witness:
  "ok_value (validate_and_process_document
      (drop_definition\<lparr>idx_fields := rev (idx_fields drop_definition)\<rparr>) (JObject drop_document)) =
    Some (JObject [(''level'', JString ''info''), (''size'', JNumber (PosInt 3))])"
  using document_check_order [of "rev (idx_fields drop_definition)" drop_definition "JObject drop_document"]
    drop_wf drop_processed
  by (simp add: hm_wf_def rev_map [symmetric])

theorem reported_error_holds_witness:
  "error_holds (drop_definition\<lparr>idx_mode := Strict\<rparr>) (JObject drop_document) (UnknownField ''host'')"
proof -
  have "validate_and_process_document (drop_definition\<lparr>idx_mode := Strict\<rparr>) (JObject drop_document) =
      Inl (UnknownField ''host'')"
    by (simp add: drop_definition_def index_of_fields_def drop_document_def
        validate_and_process_document_def hm_contains_key_def)
  from reported_error_holds [OF _ this] drop_wf show ?thesis by simp
qed

theorem processing_idempotent_witness:
  "validate_and_process_document drop_definition
      (JObject [(''level'', JString ''info''), (''size'', JNumber (PosInt 3))]) =
    Inr (JObject [(''level'', JString ''info''), (''size'', JNumber (PosInt 3))])"
  by (rule processing_idempotent [OF drop_wf _ drop_processed])
    (simp add: defaults_conform_def drop_definition_def index_of_fields_def field_of_type_def
      is_valid_value_def)

end
