(* ===== verification/Indexer_Doc.thy ===== *)
theory Indexer_Doc
  imports Indexer_Run Ingest_Valid
begin

text \<open>
  More on the indexing task: what the document built from an event looks like, that the strict
  mode of a definition is not enforced on the way, and two ways in which the offset and the
  operations of an index get lost around a commit. The witnesses of the task's properties
  run it on a small writer that keeps its operations in lists.
\<close>

section \<open>The shape of a document\<close>

definition is_mapped :: "IndexDefinition \<Rightarrow> string \<times> json \<Rightarrow> bool" where
  "is_mapped d e \<longleftrightarrow> hm_contains_key (idx_fields d) (fst e) \<and> snd e \<noteq> JNull"

definition is_unmapped :: "IndexDefinition \<Rightarrow> string \<times> json \<Rightarrow> bool" where
  "is_unmapped d e \<longleftrightarrow> \<not> hm_contains_key (idx_fields d) (fst e) \<and> snd e \<noteq> JNull"

definition dynamic_texts :: "serde_api \<Rightarrow> IndexDefinition \<Rightarrow> (string \<times> json) list \<Rightarrow> string list" where
  "dynamic_texts sj d m = concat (map (dynamic_text sj \<circ> snd) (filter (is_unmapped d) m))"

lemma snd_split_fields: "snd (split_fields sj d root parts m) = parts @ dynamic_texts sj d m"
  by (induction sj d root parts m rule: split_fields.induct)
    (auto simp: dynamic_texts_def is_unmapped_def)

lemma bt_wf_split_fields: "bt_wf root \<Longrightarrow> bt_wf (fst (split_fields sj d root parts m))"
  by (induction sj d root parts m rule: split_fields.induct) auto

lemma map_of_split_fields:
  "distinct (map fst m) \<Longrightarrow>
   map_of (fst (split_fields sj d root parts m)) k =
     (case map_of m k of
        Some v \<Rightarrow> if is_mapped d (k, v) then Some v else map_of root k
      | None \<Rightarrow> map_of root k)"
proof (induction sj d root parts m rule: split_fields.induct)
  case (2 sj d root parts k' v m)
  then have "map_of m k' = None" by (simp add: map_of_eq_None_iff)
  with 2 show ?case by (auto simp: is_mapped_def split: option.split)
qed simp

text \<open>
  C30. The document of an event: a well-formed object that always carries the whole payload under
  \<open>_source\<close>, has under every other name exactly the declared, non-null values of the
  payload, and, in dynamic mode only, under \<open>_dynamic\<close> the texts of the undeclared
  non-null values in key order, joined by blanks.
\<close>

theorem document_shape:
  assumes "bt_wf m" "root = build_root sj d (JObject m)"
  shows "bt_wf root \<and>
    (\<forall>k. map_of root k =
      (if k = ''_dynamic'' \<and> idx_mode d = Dynamic \<and> dynamic_texts sj d m \<noteq> []
       then Some (JString (join '' '' (dynamic_texts sj d m)))
       else if k = ''_source'' then Some (JObject m)
       else if hm_contains_key (idx_fields d) k \<and> map_of m k \<noteq> Some JNull then map_of m k
       else None))"
proof -
  obtain root0 parts where split: "split_fields sj d [] [] m = (root0, parts)" by fastforce
  have parts: "parts = dynamic_texts sj d m"
    using snd_split_fields [of sj d "[]" "[]" m] by (simp add: split)
  have "distinct (map fst m)"
    using bt_wf_hm_wf [OF assms(1)] by (simp add: hm_wf_def)
  then have get: "map_of root0 k =
      (if hm_contains_key (idx_fields d) k \<and> map_of m k \<noteq> Some JNull then map_of m k else None)" for k
    using map_of_split_fields [of m sj d "[]" "[]" k]
    by (cases "map_of m k") (simp_all add: split is_mapped_def)
  have "bt_wf root0"
    using bt_wf_split_fields [of "[]" sj d "[]" m] by (simp add: split)
  then show ?thesis
    by (cases "idx_mode d = Dynamic \<and> dynamic_texts sj d m \<noteq> []")
      (auto simp: assms(2) build_root_def split parts get Let_def)
qed

section \<open>A commit without an event\<close>

lemma decimal_text_0: "decimal_text 0 = ''0''"
  by (simp add: decimal_text.simps digit_char_def char_of_def bit_0)

text \<open>
  A purge on an index with nothing pending makes the next commit store the offset 0, whatever
  offset the last commit stored: after a restart the payload claims that nothing of the log was
  ever indexed.
\<close>

theorem purge_resets_offset:
  assumes "writer_law (dp_writer dp) pend comm pay" "reliable (dp_writer dp)" "actor_inv a"
    and "map_of (ac_dirty a) n = None" "purge_old_docs dp r a n cutoff = Ret (a1, Inr ())"
  shows "\<exists>a2 wr. actor_step dp (Ret a1) (r, Tick) = Ret a2 \<and> map_of (ac_writers a2) n = Some wr \<and>
    pay wr = Some ''0''"
proof -
  from assms(5) have "map_of (ac_dirty a1) n = Some 0 \<and> (\<exists>wr. map_of (ac_writers a1) n = Some wr)"
  proof (cases rule: purge_cases)
    case (staged a0 m w f wr wr')
    with ensure_writer_keeps [OF staged(1) assms(3)] assms(4) show ?thesis
      by (auto simp: map_of_or_insert update_conv')
  qed simp_all
  then obtain wr where wr: "map_of (ac_dirty a1) n = Some 0" "map_of (ac_writers a1) n = Some wr"
    by blast
  then have "ac_dirty a1 \<noteq> []" by auto
  moreover have "map_of (ac_writers (commit_all dp a1)) n = Some (commit_one (dp_writer dp) 0 wr)"
    using wr purge_keeps [OF assms(5,3)] by (simp add: commit_all_def commit_entries_get actor_inv_def)
  ultimately show ?thesis
    using commit_one_reliable [OF assms(1,2), of 0 wr] decimal_text_0 by simp
qed

text \<open>
  A commit that fails is forgotten: the operations stay uncommitted, the index is no longer
  marked as dirty, and no number of timer ticks tries again; only another event or purge for
  the same index does.
\<close>

theorem failed_commit_not_retried:
  assumes "writer_law (dp_writer dp) pend comm pay" "actor_inv a"
    and "map_of (ac_writers a) n = Some wr" "map_of (ac_dirty a) n = Some off"
    and "snd (wa_prepare_commit (dp_writer dp) wr) \<noteq> None"
    and "actor_step dp (Ret a) (r, Tick) = Ret a'"
  shows "pending pend a' n = pend wr \<and> ac_dirty a' = [] \<and>
    foldl (actor_step dp) (Ret a') (replicate k (r', Tick)) = Ret a'"
proof -
  obtain wr1 e where p: "wa_prepare_commit (dp_writer dp) wr = (wr1, Some e)"
    using assms(5) by (cases "wa_prepare_commit (dp_writer dp) wr") auto
  have a': "a' = commit_all dp a\<lparr>ac_docs_since_commit := 0\<rparr>"
    using assms(4,6) by (auto split: if_splits)
  have "pending pend a' n = pend wr1"
    using assms(2-4) p by (simp add: a' pending_def commit_all_def commit_entries_get actor_inv_def commit_one_def)
  moreover have "pend wr1 = pend wr"
    using writer_lawD(4) [OF assms(1) p] by simp
  moreover have dirty: "ac_dirty a' = []"
    by (simp add: a' commit_all_def)
  moreover have "foldl (actor_step dp) (Ret a') (replicate k (r', Tick)) = Ret a'"
    by (induction k) (simp_all add: dirty)
  ultimately show ?thesis by simp
qed

section \<open>A small instance\<close>

text \<open>A writer: its uncommitted operations, its committed ones, and the payload.\<close>

type_synonym demo_op = "string + string \<times> int"
type_synonym demo_writer = "demo_op list \<times> demo_op list \<times> string option"

definition demo_writer_api ::
    "(string list, (string \<times> field_options) list, string \<times> (string \<times> field_options) list,
      string, string, demo_writer) writer_api" where
  "demo_writer_api =
     \<lparr>wa_writer = (\<lambda>w i budget. (w, Inr ([], [], None))), wa_set_merge_policy = (\<lambda>wr n. wr),
      wa_parse_json = (\<lambda>x s. Inr s),
      wa_add_document = (\<lambda>(p, c, y) doc. ((p @ [Inl doc], c, y), None)),
      wa_get_field = (\<lambda>x n. if n \<in> fst ` set x then Some n else None),
      wa_delete_before = (\<lambda>(p, c, y) f t. ((p @ [Inr (f, t)], c, y), None)),
      wa_prepare_commit = (\<lambda>wr. (wr, None)),
      wa_commit = (\<lambda>(p, c, y) s. (([], c @ p, Some s), None))\<rparr>"

definition host_document :: "(string \<times> json) list" where
  "host_document = [(''host'', JString ''a''), (''timestamp'', JNumber (PosInt 3))]"

definition demo_json :: serde_api where
  "demo_json =
     \<lparr>sj_from_slice = (\<lambda>bs. if bs = [] then Inl ''EOF'' else Inr (JObject host_document)),
      sj_to_string = (\<lambda>v. Inr ''{}''), sj_number = (\<lambda>n. ''3'')\<rparr>"

definition demo_deps where
  "demo_deps = \<lparr>dp_schema = list_api, dp_index = demo_index_api, dp_writer = demo_writer_api,
     dp_json = demo_json, dp_env = (\<lambda>k. None)\<rparr>"

lemma demo_law: "writer_law (dp_writer demo_deps) fst (fst \<circ> snd) (snd \<circ> snd)"
  by (auto simp: writer_law_def demo_deps_def demo_writer_api_def)

lemma demo_reliable: "reliable (dp_writer demo_deps)"
  by (auto simp: reliable_def demo_deps_def demo_writer_api_def)

definition demo_start :: "(string list, string \<times> (string \<times> field_options) list, u64, demo_writer) actor" where
  "demo_start = new_actor (new_manager ''d'' 20) [] 30"

definition logs_event :: IngestEvent where
  "logs_event = \<lparr>ev_index = ''logs'', ev_payload = [123, 125]\<rparr>"

text \<open>The actor with the index of \<open>logs\<close> open and the given writer state.\<close>

definition demo_actor :: "demo_writer \<Rightarrow> (string \<times> u64) list \<Rightarrow> u64 \<Rightarrow>
    (string list, string \<times> (string \<times> field_options) list, u64, demo_writer) actor" where
  "demo_actor wr dirty docs =
     \<lparr>ac_manager = (new_manager ''d'' 20)\<lparr>im_indexes := [(''logs'', (''d/indexes/logs'', logs_schema))]\<rparr>,
      ac_world = [''d/indexes/logs''], ac_writers = [(''logs'', wr)], ac_dirty = dirty,
      ac_index_memory_mb = 30, ac_docs_since_commit = docs\<rparr>"

lemma demo_env [simp]: "env_number (dp_env demo_deps) key n = n"
  by (simp add: demo_deps_def env_number_def)

lemma demo_cached:
  "get_or_create_index list_api demo_index_api r (ac_manager (demo_actor wr dirty docs), ac_world (demo_actor wr dirty docs)) ''logs'' =
    Ret (ac_manager (demo_actor wr dirty docs), ac_world (demo_actor wr dirty docs), Inr (''d/indexes/logs'', logs_schema))"
  by (simp add: get_or_create_index_def demo_actor_def)

lemma demo_first_event:
  "process_event demo_deps logs_registry demo_start logs_event off =
    Ret (demo_actor ([Inl ''{}''], [], None) [(''logs'', off)] 0, Inr ())"
proof -
  have "ensure_writer demo_deps logs_registry demo_start ''logs'' =
      Ret (demo_actor ([], [], None) [] 0, Inr ())"
    using demo_lookup
    by (simp add: ensure_writer_def demo_start_def new_actor_def hm_contains_key_def demo_deps_def
        demo_writer_api_def demo_actor_def Let_def)
  moreover have "reg_get logs_registry ''logs'' = Some logs_definition"
    by (simp add: reg_get_def logs_registry_def new_registry_def)
  ultimately show ?thesis
    using demo_cached [of logs_registry "([], [], None)" "[]" 0]
    by (simp add: process_event_def logs_event_def demo_deps_def demo_json_def add_event_def
        demo_writer_api_def demo_actor_def Let_def)
qed

lemma demo_commit:
  "commit_all demo_deps (demo_actor (p, c, y) [(''logs'', off)] docs) =
    demo_actor ([], c @ p, Some (decimal_text (unat off))) [] docs"
  by (simp add: commit_all_def demo_actor_def demo_deps_def demo_writer_api_def)

lemma demo_run:
  "foldl (actor_step demo_deps) (Ret demo_start) [(logs_registry, Receive logs_event 18)] =
    Ret (demo_actor ([Inl ''{}''], [], None) [(''logs'', 18)] 1)"
  by (simp add: demo_first_event) (simp add: demo_actor_def Let_def word_le_nat_alt)

definition strict_definition :: IndexDefinition where
  "strict_definition = logs_definition\<lparr>idx_mode := Strict\<rparr>"

definition strict_registry :: registry where
  "strict_registry = new_registry\<lparr>reg_indexes := [(''logs'', strict_definition)]\<rparr>"

text \<open>
  The strict mode is not enforced on the way of a document: the check of documents rejects
  the unknown field, but the indexing task, which never calls it, accepts the same document for
  the same definition and stores it.
\<close>

theorem strict_mode_not_enforced:
  "validate_and_process_document strict_definition (JObject host_document) = Inl (UnknownField ''host'') \<and>
   process_event demo_deps strict_registry (demo_actor ([], [], None) [] 0) logs_event 18 =
     Ret (demo_actor ([Inl ''{}''], [], None) [(''logs'', 18)] 0, Inr ())"
proof
  show "validate_and_process_document strict_definition (JObject host_document) = Inl (UnknownField ''host'')"
    by (simp add: validate_and_process_document_def strict_definition_def logs_definition_def
        index_of_fields_def host_document_def hm_contains_key_def)
  have "reg_get strict_registry ''logs'' = Some strict_definition"
    by (simp add: reg_get_def strict_registry_def new_registry_def)
  moreover have "ensure_writer demo_deps strict_registry (demo_actor ([], [], None) [] 0) ''logs'' =
      Ret (demo_actor ([], [], None) [] 0, Inr ())"
    by (simp add: ensure_writer_def demo_actor_def hm_contains_key_def)
  ultimately show "process_event demo_deps strict_registry (demo_actor ([], [], None) [] 0) logs_event 18 =
     Ret (demo_actor ([Inl ''{}''], [], None) [(''logs'', 18)] 0, Inr ())"
    using demo_cached [of strict_registry "([], [], None)" "[]" 0]
    by (simp add: process_event_def logs_event_def demo_deps_def demo_json_def add_event_def
        demo_writer_api_def demo_actor_def Let_def)
qed

section \<open>Witnesses\<close>

lemma demo_start_inv: "actor_inv demo_start"
  by (simp add: actor_inv_def demo_start_def new_actor_def)

lemma demo_actor_inv: "actor_inv (demo_actor wr [] docs)" "actor_inv (demo_actor wr [(''logs'', off)] docs)"
  by (simp_all add: actor_inv_def demo_actor_def hm_wf_def)

theorem event_indexed_witness:
  "\<exists>doc. pending fst (demo_actor ([Inl ''{}''], [], None) [(''logs'', 18)] 0) ''logs'' =
    pending fst demo_start ''logs'' @ [Inl doc]"
  using event_indexed [OF demo_law demo_start_inv demo_first_event [of 18]]
  by (auto simp: logs_event_def)

theorem tick_commits_everything_witness:
  "\<exists>a'. actor_step demo_deps (Ret (demo_actor ([Inl ''{}''], [], None) [(''logs'', 18)] 1))
      (logs_registry, Tick) = Ret a' \<and>
    (\<exists>wr. map_of (ac_writers a') ''logs'' = Some wr \<and> fst wr = [] \<and> (fst \<circ> snd) wr = [Inl ''{}'']) \<and>
    ac_dirty a' = []"
proof -
  have "map_of (ac_writers (demo_actor ([Inl ''{}''], [], None) [(''logs'', 18)] 1)) ''logs'' =
      Some ([Inl ''{}''], [], None)"
    by (simp add: demo_actor_def)
  then show ?thesis
    using tick_commits_everything [OF demo_law demo_reliable demo_run [unfolded demo_start_def], of logs_registry]
    by fastforce
qed

theorem indexer_never_panics_witness:
  "foldl (actor_step demo_deps) (Ret (new_actor (new_manager ''d'' 20) [] 30))
    [(logs_registry, Receive logs_event 18), (logs_registry, PurgeCommand ''logs'' 7), (logs_registry, Tick)]
    \<noteq> Panicked"
proof (rule indexer_never_panics)
  fix r e n d
  assume "(r, e) \<in> set [(logs_registry, Receive logs_event 18),
      (logs_registry, PurgeCommand ''logs'' 7), (logs_registry, Tick)]" "reg_get r n = Some d"
  then have "d = logs_definition"
    by (auto simp: reg_get_def logs_registry_def new_registry_def split: if_splits)
  then show "build_schema (dp_schema demo_deps) d \<noteq> Panicked"
    using logs_builds by (simp add: demo_deps_def)
qed

theorem document_shape_witness:
  "build_root demo_json logs_definition (JObject host_document) \<noteq> [] \<and>
   map_of (build_root demo_json logs_definition (JObject host_document)) ''_dynamic'' = Some (JString ''a'')"
proof -
  have "bt_wf host_document"
    by (simp add: host_document_def bt_wf_def less_char_def)
  moreover have "dynamic_texts demo_json logs_definition host_document = [''a'']"
    by (simp add: dynamic_texts_def is_unmapped_def host_document_def logs_definition_def
        index_of_fields_def hm_contains_key_def dynamic_text_def)
  moreover have "idx_mode logs_definition = Dynamic"
    by (simp add: logs_definition_def index_of_fields_def default_mode_def)
  ultimately have "map_of (build_root demo_json logs_definition (JObject host_document)) ''_dynamic'' =
      Some (JString ''a'')"
    using document_shape [OF _ refl, of host_document demo_json logs_definition] by simp
  then show ?thesis by auto
qed

lemma demo_purge:
  "purge_old_docs demo_deps logs_registry (demo_actor (p, c, y) [] docs) ''logs'' 7 =
    Ret (demo_actor (p @ [Inr (''timestamp'', 7)], c, y) [(''logs'', 0)] docs, Inr ())"
proof -
  have "reg_get logs_registry ''logs'' = Some logs_definition"
    by (simp add: reg_get_def logs_registry_def new_registry_def)
  moreover have "ensure_writer demo_deps logs_registry (demo_actor (p, c, y) [] docs) ''logs'' =
      Ret (demo_actor (p, c, y) [] docs, Inr ())"
    by (simp add: ensure_writer_def demo_actor_def hm_contains_key_def)
  moreover have "''timestamp'' \<in> fst ` set logs_schema"
    by (simp add: logs_schema_def schema_entries_def logs_definition_def index_of_fields_def)
  ultimately show ?thesis
    using demo_cached [of logs_registry "(p, c, y)" "[]" docs]
    by (simp add: purge_old_docs_def logs_definition_def index_of_fields_def default_timestamp_field_def
        field_of_type_def demo_deps_def demo_index_api_def demo_writer_api_def demo_actor_def
        or_insert_def hm_contains_key_def)
qed

theorem purge_resets_offset_witness:
  "\<exists>a2 wr. actor_step demo_deps
      (Ret (demo_actor ([Inr (''timestamp'', 7)], [Inl ''{}''], Some ''18'') [(''logs'', 0)] 0))
      (logs_registry, Tick) = Ret a2 \<and>
    map_of (ac_writers a2) ''logs'' = Some wr \<and> (snd \<circ> snd) wr = Some ''0''"
  by (rule purge_resets_offset [OF demo_law demo_reliable demo_actor_inv(1)
        [of "([], [Inl ''{}''], Some ''18'')" 0] _ demo_purge [of "[]", simplified]])
    (simp add: demo_actor_def)

definition failing_deps where
  "failing_deps = demo_deps\<lparr>dp_writer := demo_writer_api\<lparr>wa_prepare_commit := (\<lambda>wr. (wr, Some ''disk full''))\<rparr>\<rparr>"

theorem failed_commit_not_retried_witness:
  "\<exists>a'. actor_step failing_deps (Ret (demo_actor ([Inl ''{}''], [], None) [(''logs'', 18)] 1))
      (logs_registry, Tick) = Ret a' \<and> pending fst a' ''logs'' = [Inl ''{}''] \<and>
    foldl (actor_step failing_deps) (Ret a') (replicate 100 (logs_registry, Tick)) = Ret a'"
proof -
  have law: "writer_law (dp_writer failing_deps) fst (fst \<circ> snd) (snd \<circ> snd)"
    by (auto simp: writer_law_def failing_deps_def demo_deps_def demo_writer_api_def)
  have "pending fst a' ''logs'' = fst (([Inl ''{}''], [], None) :: demo_writer) \<and> ac_dirty a' = [] \<and>
      foldl (actor_step failing_deps) (Ret a') (replicate 100 (logs_registry, Tick)) = Ret a'"
    if "actor_step failing_deps (Ret (demo_actor ([Inl ''{}''], [], None) [(''logs'', 18)] 1))
      (logs_registry, Tick) = Ret a'" for a'
    by (rule failed_commit_not_retried [OF law demo_actor_inv(2) _ _ _ that, where off = 18])
      (simp_all add: demo_actor_def failing_deps_def)
  moreover have "\<exists>a'. actor_step failing_deps (Ret (demo_actor ([Inl ''{}''], [], None) [(''logs'', 18)] 1))
      (logs_registry, Tick) = Ret a'"
    by simp
  ultimately show ?thesis by auto
qed

end
