(* ===== verification/Compaction.thy ===== *)
theory Compaction
  imports Indexer_Doc
begin

text \<open>
  The compaction worker, \<open>src/compaction.rs\<close>: it scans the index directories and merges the
  segments of those that have too many. Tantivy and the file system are parameters. The last
  section puts the worker beside the indexing task, whose writers hold the locks the worker needs.
\<close>

section \<open>The worker\<close>

record CompactionWorker =
  cw_data_dir :: string
  cw_interval :: u64
  cw_min_segments :: u64

definition new_worker :: "(string \<Rightarrow> string option) \<Rightarrow> string \<Rightarrow> CompactionWorker" where
  "new_worker env data_dir =
     \<lparr>cw_data_dir = data_dir, cw_interval = env_number env ''EDGEWIT_COMPACTION_INTERVAL_SECS'' 300,
      cw_min_segments = env_number env ''EDGEWIT_MERGE_MIN_SEGMENTS'' 10\<rparr>"

text \<open>
  Opening an index, its segments as the reader shows them now and a moment later, a writer
  with its possible outcomes, and the writer's calls. Errors are texts; the join errors of the
  blocking tasks are among those of the calls.
\<close>

datatype 'wr writer_outcome = GotWriter 'wr | LockFailure | WriterError string

record ('w, 'i, 'wr, 'seg) compaction_api =
  co_exists :: "'w \<Rightarrow> string \<Rightarrow> bool"
  co_is_dir :: "'w \<Rightarrow> string \<Rightarrow> bool"
  co_read_dir :: "'w \<Rightarrow> string \<Rightarrow> string + (string + string) list"
  co_open :: "'w \<Rightarrow> string \<Rightarrow> string + 'i"
  co_segments :: "'w \<Rightarrow> 'i \<Rightarrow> string + 'seg list"
  co_segments_later :: "'w \<Rightarrow> 'i \<Rightarrow> 'seg list"
  co_writer :: "'w \<Rightarrow> 'i \<Rightarrow> 'w \<times> 'wr writer_outcome"
  co_merge :: "'w \<Rightarrow> 'wr \<Rightarrow> 'seg list \<Rightarrow> 'w \<times> 'wr \<times> string option"
  co_commit :: "'w \<Rightarrow> 'wr \<Rightarrow> 'w \<times> 'wr \<times> string option"
  co_wait_merging_threads :: "'w \<Rightarrow> 'wr \<Rightarrow> 'w \<times> string option"

definition merge_segments ::
    "('w, 'i, 'wr, 'seg) compaction_api \<Rightarrow> 'w \<Rightarrow> 'wr \<Rightarrow> 'seg list \<Rightarrow> 'w \<times> (string + unit)" where
  "merge_segments api w writer segment_ids =
     (case co_merge api w writer segment_ids of
        (w1, writer1, Some e) \<Rightarrow> (w1, Inr ())
      | (w1, writer1, None) \<Rightarrow>
          (case co_commit api w1 writer1 of
             (w2, writer2, Some e) \<Rightarrow> (w2, Inr ())
           | (w2, writer2, None) \<Rightarrow>
               (case co_wait_merging_threads api w2 writer2 of
                  (w3, Some e) \<Rightarrow> (w3, Inr ())
                | (w3, None) \<Rightarrow> (w3, Inr ()))))"

definition compact_index ::
    "('w, 'i, 'wr, 'seg) compaction_api \<Rightarrow> CompactionWorker \<Rightarrow> 'w \<Rightarrow> string \<Rightarrow> 'w \<times> (string + unit)" where
  "compact_index api worker w path =
     (case co_open api w path of
        Inl e \<Rightarrow> (w, Inl e)
      | Inr index \<Rightarrow>
          (case co_segments api w index of
             Inl e \<Rightarrow> (w, Inl e)
           | Inr segments \<Rightarrow>
               if length segments < unat (cw_min_segments worker) then (w, Inr ())
               else
                 (case co_writer api w index of
                    (w1, GotWriter writer) \<Rightarrow> merge_segments api w1 writer (co_segments_later api w index)
                  | (w1, LockFailure) \<Rightarrow> (w1, Inr ())
                  | (w1, WriterError e) \<Rightarrow> (w1, Inl e))))"

definition is_index_dir :: "('w, 'i, 'wr, 'seg) compaction_api \<Rightarrow> 'w \<Rightarrow> string \<Rightarrow> bool" where
  "is_index_dir api w path \<longleftrightarrow> co_is_dir api w path \<and> co_exists api w (path_join path ''meta.json'')"

fun cycle_loop ::
    "('w, 'i, 'wr, 'seg) compaction_api \<Rightarrow> CompactionWorker \<Rightarrow> 'w \<Rightarrow> (string + string) list \<Rightarrow>
     'w \<times> (string + unit)" where
  "cycle_loop api worker w [] = (w, Inr ())"
| "cycle_loop api worker w (Inl e # entries) = (w, Inl e)"
| "cycle_loop api worker w (Inr path # entries) =
     (if is_index_dir api w path
      then cycle_loop api worker (fst (compact_index api worker w path)) entries
      else cycle_loop api worker w entries)"

definition run_cycle ::
    "('w, 'i, 'wr, 'seg) compaction_api \<Rightarrow> CompactionWorker \<Rightarrow> 'w \<Rightarrow> 'w \<times> (string + unit)" where
  "run_cycle api worker w =
     (let indexes_dir = path_join (cw_data_dir worker) ''indexes'' in
      if \<not> co_exists api w indexes_dir then (w, Inr ())
      else case co_read_dir api w indexes_dir of
        Inl e \<Rightarrow> (w, Inl e)
      | Inr entries \<Rightarrow> cycle_loop api worker w entries)"

text \<open>The first cycles of the endless loop; a timer with a period of zero panics.\<close>

definition run_worker ::
    "('w, 'i, 'wr, 'seg) compaction_api \<Rightarrow> CompactionWorker \<Rightarrow> nat \<Rightarrow> 'w \<Rightarrow> 'w run" where
  "run_worker api worker cycles w =
     (if cw_interval worker = 0 then Panicked
      else Ret (((\<lambda>w. fst (run_cycle api worker w)) ^^ cycles) w))"

section \<open>One cycle\<close>

text \<open>What a cycle does to one path, and the paths listed before the first error.\<close>

definition visit :: "('w, 'i, 'wr, 'seg) compaction_api \<Rightarrow> CompactionWorker \<Rightarrow> 'w \<Rightarrow> string \<Rightarrow> 'w" where
  "visit api worker w path = (if is_index_dir api w path then fst (compact_index api worker w path) else w)"

fun listed_paths :: "(string + string) list \<Rightarrow> string list" where
  "listed_paths [] = []"
| "listed_paths (Inl e # entries) = []"
| "listed_paths (Inr path # entries) = path # listed_paths entries"

text \<open>
  C28. A cycle visits every path that is listed before a listing error, once and in order; that the
  compaction of one index fails does not keep it from the others, and the cycle fails only if
  the listing does.
\<close>

theorem cycle_visits_all:
  assumes "co_exists api w (path_join (cw_data_dir worker) ''indexes'')"
    and "co_read_dir api w (path_join (cw_data_dir worker) ''indexes'') = Inr entries"
  shows "fst (run_cycle api worker w) = foldl (visit api worker) w (listed_paths entries) \<and>
    ((\<exists>e. snd (run_cycle api worker w) = Inl e) \<longleftrightarrow> (\<exists>e. Inl e \<in> set entries))"
proof -
  have "fst (cycle_loop api worker w entries) = foldl (visit api worker) w (listed_paths entries) \<and>
      ((\<exists>e. snd (cycle_loop api worker w entries) = Inl e) \<longleftrightarrow> (\<exists>e. Inl e \<in> set entries))" for w
    by (induction api worker w entries rule: cycle_loop.induct) (auto simp: visit_def)
  with assms show ?thesis by (simp add: run_cycle_def Let_def)
qed

lemma compact_index_locked:
  assumes "\<And>i. co_open api w path = Inr i \<Longrightarrow> co_writer api w i = (w, LockFailure)"
  shows "fst (compact_index api worker w path) = w"
  using assms by (auto simp: compact_index_def split: sum.split)

lemma compact_index_few:
  assumes "co_open api w path = Inr i" "co_segments api w i = Inr segs"
    and "length segs < unat (cw_min_segments worker)"
  shows "compact_index api worker w path = (w, Inr ())"
  using assms by (simp add: compact_index_def)

section \<open>The worker beside the indexing task\<close>

text \<open>The indexing task never gives up a writer.\<close>

lemma ensure_writer_kept:
  "ensure_writer dp r a n = Ret (a', res) \<Longrightarrow> map_of (ac_writers a) k \<noteq> None \<Longrightarrow> map_of (ac_writers a') k \<noteq> None"
  by (cases rule: ensure_writer_cases) (auto simp: update_conv')

lemma process_event_kept:
  assumes "process_event dp r a ev off = Ret (a', res)" "map_of (ac_writers a) k \<noteq> None"
  shows "map_of (ac_writers a') k \<noteq> None"
  using assms(1)
proof (cases rule: process_event_cases)
  case (no_index a1 m w x e)
  with ensure_writer_kept [OF no_index(1) assms(2)] show ?thesis by auto
next
  case (run d m a1 man w i)
  let ?a2 = "a1\<lparr>ac_manager := man, ac_world := w\<rparr>"
  have kept: "map_of (ac_writers ?a2) k \<noteq> None"
    using ensure_writer_kept [OF run(3) assms(2)] by simp
  show ?thesis
    using run(5) by (cases rule: add_event_cases) (use kept in \<open>auto simp: update_conv'\<close>)
qed (use assms(2) in simp)

lemma purge_kept:
  assumes "purge_old_docs dp r a n cutoff = Ret (a', res)" "map_of (ac_writers a) k \<noteq> None"
  shows "map_of (ac_writers a') k \<noteq> None"
  using assms(1)
proof (cases rule: purge_cases)
  case (stopped a1 x m w e)
  with ensure_writer_kept [OF stopped(1) assms(2)] show ?thesis by auto
next
  case (staged a1 m w f wr wr')
  with ensure_writer_kept [OF staged(1) assms(2)] show ?thesis by (auto simp: update_conv')
next
  case (refused a1 m w f wr wr' e e')
  with ensure_writer_kept [OF refused(1) assms(2)] show ?thesis by (auto simp: update_conv')
qed (use assms(2) in simp)

lemma commit_entries_kept:
  "map_of writers k \<noteq> None \<Longrightarrow> map_of (commit_entries wapi writers dirty) k \<noteq> None"
  by (induction wapi writers dirty rule: commit_entries.induct)
    (auto simp: update_conv' split: option.splits prod.splits)

lemma actor_step_kept:
  assumes "actor_step dp (Ret a) e = Ret a'" "map_of (ac_writers a) k \<noteq> None"
  shows "map_of (ac_writers a') k \<noteq> None"
proof (cases e)
  case (Pair r ev)
  have commit: "map_of (ac_writers (commit_all dp b)) k \<noteq> None" if "map_of (ac_writers b) k \<noteq> None" for b
    using commit_entries_kept [OF that] by (simp add: commit_all_def)
  show ?thesis
  proof (cases ev)
    case (Receive event off)
    then obtain a1 res where p: "process_event dp r a event off = Ret (a1, res)"
      using assms(1) by (auto simp: Pair run_simps simp del: run_bind.simps)
    have "map_of (ac_writers a1) k \<noteq> None"
      using process_event_kept [OF p assms(2)] .
    with commit assms(1) p Receive Pair show ?thesis
      by (auto simp: Let_def split: if_splits sum.splits)
  next
    case (PurgeCommand n cutoff)
    then obtain res where p: "purge_old_docs dp r a n cutoff = Ret (a', res)"
      using assms(1) by (auto simp: Pair run_simps simp del: run_bind.simps)
    show ?thesis using purge_kept [OF p assms(2)] .
  next
    case Tick
    with assms commit [of a] Pair show ?thesis by (auto split: if_splits)
  qed
qed

definition keeps_writer :: "string \<Rightarrow> ('w, 'i, 'rd, 'wr) actor run \<Rightarrow> bool" where
  "keeps_writer k s \<longleftrightarrow> (\<forall>a. s = Ret a \<longrightarrow> map_of (ac_writers a) k \<noteq> None)"

lemma keeps_writer_step:
  assumes "keeps_writer k s"
  shows "keeps_writer k (actor_step dp s e)"
proof (cases s)
  case Panicked
  then show ?thesis by (cases e; cases "snd e") (auto simp: keeps_writer_def)
next
  case (Ret a)
  with assms actor_step_kept [of dp a e _ k] show ?thesis by (simp add: keeps_writer_def)
qed

interpretation writers: invariant_machine "actor_step dp" "keeps_writer k" for dp k
  by unfold_locales (rule keeps_writer_step)

text \<open>
  C37. An index that has received a document is never compacted again. Once an event has been
  processed the task holds the index's writer, and keeps it whatever happens afterwards; a
  directory with a writer is locked, so the worker leaves the index as it is, in every cycle,
  however many segments it has.
\<close>

theorem ingested_index_never_compacted:
  assumes "writer_law (dp_writer dp) pend comm pay" "actor_inv a"
    and "process_event dp r a ev off = Ret (a1, Inr ())"
    and "foldl (actor_step dp) (Ret a1) es = Ret a2"
    and "\<And>i. map_of (ac_writers a2) (ev_index ev) \<noteq> None \<Longrightarrow> co_open api w path = Inr i \<Longrightarrow>
      co_writer api w i = (w, LockFailure)"
  shows "fst (compact_index api worker w path) = w"
proof -
  have "map_of (ac_writers a1) (ev_index ev) \<noteq> None"
    using event_outcome [OF assms(1-3)]
    by (auto simp: pending_def fun_eq_iff split: option.splits dest: spec [of _ "ev_index ev"])
  then have "keeps_writer (ev_index ev) (Ret a1)"
    by (simp add: keeps_writer_def)
  then have "keeps_writer (ev_index ev) (Ret a2)"
    using writers.run_inv [of "ev_index ev" "Ret a1" dp es] assms(4) by simp
  then show ?thesis
    using assms(5) by (intro compact_index_locked) (auto simp: keeps_writer_def)
qed

section \<open>Witnesses\<close>

text \<open>A file system whose only index is locked, with a listing that ends in an error.\<close>

definition demo_compaction :: "(nat, unit, unit, nat) compaction_api" where
  "demo_compaction =
     \<lparr>co_exists = (\<lambda>_ _. True), co_is_dir = (\<lambda>_ p. p = ''d/indexes/logs''),
      co_read_dir = (\<lambda>_ _. Inr [Inr ''d/indexes/logs'', Inr ''d/indexes/x'', Inl ''EIO'']),
      co_open = (\<lambda>_ _. Inr ()), co_segments = (\<lambda>_ _. Inr [1, 2]), co_segments_later = (\<lambda>_ _. [1, 2]),
      co_writer = (\<lambda>w _. (w, LockFailure)), co_merge = (\<lambda>w wr _. (Suc w, wr, None)),
      co_commit = (\<lambda>w wr. (w, wr, None)), co_wait_merging_threads = (\<lambda>w _. (w, None))\<rparr>"

definition demo_worker :: CompactionWorker where
  "demo_worker = \<lparr>cw_data_dir = ''d'', cw_interval = 300, cw_min_segments = 2\<rparr>"

theorem cycle_visits_all_witness:
  "fst (run_cycle demo_compaction demo_worker 0) =
    foldl (visit demo_compaction demo_worker) 0 [''d/indexes/logs'', ''d/indexes/x''] \<and>
   (\<exists>e. snd (run_cycle demo_compaction demo_worker 0) = Inl e)"
  using cycle_visits_all [of demo_compaction 0 demo_worker
      "[Inr ''d/indexes/logs'', Inr ''d/indexes/x'', Inl ''EIO'']"]
  by (simp add: demo_compaction_def)

theorem ingested_index_never_compacted_witness:
  "fst (compact_index demo_compaction demo_worker 0 ''d/indexes/logs'') = 0"
  by (rule ingested_index_never_compacted [OF demo_law demo_start_inv demo_first_event, where es = "[]"])
    (simp_all add: demo_compaction_def)

end
