(* ===== verification/Retention.thy ===== *)
theory Retention
  imports Registry Wal_Log
begin

text \<open>
  The retention worker, \<open>src/retention.rs\<close>: the limits read from the environment, the
  parsing of retention strings and sizes, the purge commands sent for the registered indexes,
  the size of a directory tree, and the deletion of log files. The clock and the time arithmetic
  of the chrono library are parameters; file names, sizes and the outcomes of deletions are what
  the file system answers.
\<close>

section \<open>Durations\<close>

text \<open>
  Chrono: a duration from a number of seconds, minutes, hours or days, and the current time
  less a duration. Each panics when the result is out of range.
\<close>

record ('d, 't) chrono_api =
  ch_seconds :: "int \<Rightarrow> 'd run"
  ch_minutes :: "int \<Rightarrow> 'd run"
  ch_hours :: "int \<Rightarrow> 'd run"
  ch_days :: "int \<Rightarrow> 'd run"
  ch_now_minus :: "'d \<Rightarrow> 't run"

definition some_run :: "'a run \<Rightarrow> 'a option run" where
  "some_run m = run_bind m (\<lambda>x. Ret (Some x))"

definition parse_retention_duration :: "('d, 't) chrono_api \<Rightarrow> string \<Rightarrow> 'd option run" where
  "parse_retention_duration api s =
     (if s = [] then Ret None
      else run_bind (split_at s (length s - 1))
        (\<lambda>(num_str, unit).
           case parse_i64 num_str of
             None \<Rightarrow> Ret None
           | Some n \<Rightarrow>
               if unit = ''s'' then some_run (ch_seconds api n)
               else if unit = ''m'' then some_run (ch_minutes api n)
               else if unit = ''h'' then some_run (ch_hours api n)
               else if unit = ''d'' then some_run (ch_days api n)
               else if unit = ''w'' then some_run (ch_days api (wrap_i64 (n * 7)))
               else if unit = ''M'' then some_run (ch_days api (wrap_i64 (n * 30)))
               else if unit = ''y'' then some_run (ch_days api (wrap_i64 (n * 365)))
               else Ret None))"

section \<open>Sizes\<close>

text \<open>\<open>to_uppercase\<close> follows the Unicode tables and is an argument.\<close>

definition parse_size :: "(string \<Rightarrow> string) \<Rightarrow> string \<Rightarrow> u64 option" where
  "parse_size to_uppercase s0 =
     (let s = to_uppercase (trim s0);
          (num_str, mul) =
            (if ends_with s ''GB'' then (take (length s - 2) s, 1073741824)
             else if ends_with s ''MB'' then (take (length s - 2) s, 1048576)
             else if ends_with s ''KB'' then (take (length s - 2) s, 1024)
             else if ends_with s ''B'' then (take (length s - 1) s, 1)
             else (s, 1))
      in map_option (\<lambda>v. v * mul) (parse_u64 (trim num_str)))"

record RetentionConfig =
  max_index_bytes :: u64
  max_wal_bytes :: u64

definition default_retention_config :: RetentionConfig where
  "default_retention_config =
     \<lparr>max_index_bytes = 1024 * 1024 * 1024, max_wal_bytes = 512 * 1024 * 1024\<rparr>"

text \<open>\<open>env\<close> gives the variables that are set to valid Unicode.\<close>

definition retention_config_from_env ::
    "(string \<Rightarrow> string) \<Rightarrow> (string \<Rightarrow> string option) \<Rightarrow> RetentionConfig" where
  "retention_config_from_env upper env =
     (let cfg0 = default_retention_config;
          cfg1 = (case env ''EDGEWIT_MAX_INDEX_BYTES'' of
                    Some v \<Rightarrow> (case parse_size upper v of
                                 Some n \<Rightarrow> cfg0\<lparr>max_index_bytes := n\<rparr> | None \<Rightarrow> cfg0)
                  | None \<Rightarrow> cfg0)
      in case env ''EDGEWIT_MAX_WAL_BYTES'' of
           Some v \<Rightarrow> (case parse_size upper v of
                        Some n \<Rightarrow> cfg1\<lparr>max_wal_bytes := n\<rparr> | None \<Rightarrow> cfg1)
         | None \<Rightarrow> cfg1)"

section \<open>Directory sizes\<close>

text \<open>
  What the file system shows under a directory: files with their lengths, directories with
  their entries or an error when they cannot be listed, other things, and entries whose
  metadata cannot be read.
\<close>

datatype fs_entry =
    FsFile u64
  | FsDir "fs_entry list option"
  | FsOther
  | FsNoMetadata

fun entry_size :: "fs_entry \<Rightarrow> u64" where
  "entry_size (FsFile n) = n"
| "entry_size (FsDir None) = 0"
| "entry_size (FsDir (Some es)) = sum_list (map entry_size es)"
| "entry_size FsOther = 0"
| "entry_size FsNoMetadata = 0"

definition dir_size :: "fs_entry list option \<Rightarrow> u64" where
  "dir_size entries = (case entries of None \<Rightarrow> 0 | Some es \<Rightarrow> sum_list (map entry_size es))"

section \<open>Deleting log files\<close>

record wal_entry =
  we_name :: string
  we_is_file :: bool
  we_len :: "u64 option"

text \<open>
  \<open>Path::file_stem\<close> and \<open>Path::extension\<close>: the name is split at its last dot,
  unless that is its first byte.
\<close>

definition split_extension :: "string \<Rightarrow> string \<times> string option" where
  "split_extension name =
     (let after = rev (takeWhile (\<lambda>c. c \<noteq> CHR ''.'') (rev name));
          before = butlast (take (length name - length after) name)
      in if CHR ''.'' \<in> set name \<and> before \<noteq> [] then (before, Some after) else (name, None))"

definition wal_candidate :: "wal_entry \<Rightarrow> (u64 \<times> string \<times> u64) option" where
  "wal_candidate e =
     (case split_extension (we_name e) of
        (stem, ext) \<Rightarrow>
          if \<not> we_is_file e \<or> ext \<noteq> Some ''wal'' then None
          else if \<not> is_str stem then None
          else (case from_str_radix_u64 16 stem of
                  None \<Rightarrow> None
                | Some start \<Rightarrow> map_option (\<lambda>len. (start, we_name e, len)) (we_len e)))"

definition saturating_sub :: "u64 \<Rightarrow> u64 \<Rightarrow> u64" where
  "saturating_sub a b = (if b \<le> a then a - b else 0)"

text \<open>\<open>removes p\<close> tells whether deleting \<open>p\<close> succeeds.\<close>

fun committed_pass ::
    "(string \<Rightarrow> bool) \<Rightarrow> u64 \<Rightarrow> u64 \<Rightarrow> (u64 \<times> string \<times> u64) list \<Rightarrow>
     u64 \<times> string list \<times> (u64 \<times> string \<times> u64) list" where
  "committed_pass removes committed_offset used [] = (used, [], [])"
| "committed_pass removes committed_offset used ((start, path, len) # files) =
     (if start + len \<le> committed_offset then
        (if removes path then
           case committed_pass removes committed_offset (saturating_sub used len) files of
             (t, deleted, remaining) \<Rightarrow> (t, path # deleted, remaining)
         else committed_pass removes committed_offset used files)
      else case committed_pass removes committed_offset used files of
        (t, deleted, remaining) \<Rightarrow> (t, deleted, (start, path, len) # remaining))"

fun emergency_pass ::
    "(string \<Rightarrow> bool) \<Rightarrow> u64 \<Rightarrow> u64 \<Rightarrow> (u64 \<times> string \<times> u64) list \<Rightarrow> string list" where
  "emergency_pass removes max_bytes used [] = []"
| "emergency_pass removes max_bytes used ((start, path, len) # files) =
     (if used \<le> max_bytes then []
      else if removes path then
        path # emergency_pass removes max_bytes (saturating_sub used len) files
      else emergency_pass removes max_bytes used files)"

definition wal_files :: "wal_entry list \<Rightarrow> (u64 \<times> string \<times> u64) list" where
  "wal_files entries = sort_key fst (List.map_filter wal_candidate entries)"

text \<open>The names of the deleted files, in the order of their deletion.\<close>

definition cleanup_wals ::
    "(string \<Rightarrow> bool) \<Rightarrow> wal_entry list option \<Rightarrow> u64 \<Rightarrow> u64 \<Rightarrow> string list" where
  "cleanup_wals removes read_dir committed_offset max_bytes =
     (case read_dir of
        None \<Rightarrow> []
      | Some entries \<Rightarrow>
          let files = wal_files entries;
              used = sum_list (map (\<lambda>(_, _, s). s) files)
          in case committed_pass removes committed_offset used files of
               (used', deleted, remaining) \<Rightarrow>
                 deleted @ emergency_pass removes max_bytes used' remaining)"

section \<open>The worker\<close>

text \<open>The purge commands sent: index name and cutoff time.\<close>

fun retention_loop ::
    "('d, 't) chrono_api \<Rightarrow> IndexDefinition list \<Rightarrow> (string \<times> 't) list run" where
  "retention_loop api [] = Ret []"
| "retention_loop api (def # defs) =
     (case idx_retention def of
        None \<Rightarrow> retention_loop api defs
      | Some retention_str \<Rightarrow>
          run_bind (parse_retention_duration api retention_str)
            (\<lambda>parsed. case parsed of
               None \<Rightarrow> retention_loop api defs
             | Some duration \<Rightarrow>
                 run_bind (ch_now_minus api duration)
                   (\<lambda>cutoff. run_bind (retention_loop api defs)
                      (\<lambda>cmds. Ret ((idx_name def, cutoff) # cmds)))))"

definition apply_retention :: "('d, 't) chrono_api \<Rightarrow> registry \<Rightarrow> (string \<times> 't) list run" where
  "apply_retention api r = retention_loop api (reg_list r)"

text \<open>
  One round of the worker: the purge commands, whether the warning about the size of the
  indexes is due, and the log files deleted. The committed offset is always 0.
\<close>

definition retention_tick ::
    "('d, 't) chrono_api \<Rightarrow> RetentionConfig \<Rightarrow> registry \<Rightarrow> fs_entry list option \<Rightarrow>
     (string \<Rightarrow> bool) \<Rightarrow> wal_entry list option \<Rightarrow> ((string \<times> 't) list \<times> bool \<times> string list) run" where
  "retention_tick api config r index_dir removes data_dir =
     run_bind (apply_retention api r)
       (\<lambda>cmds. Ret (cmds, max_index_bytes config < dir_size index_dir,
                    cleanup_wals removes data_dir 0 (max_wal_bytes config)))"

section \<open>Retention strings\<close>

text \<open>
  Chrono's documented behaviour: a duration of any number of seconds whose milliseconds fit 64
  bits, a panic beyond that, and a cutoff for durations up to \<open>reach\<close>, the time since the
  earliest date chrono represents. \<open>mk\<close> builds a duration from its seconds.
\<close>

definition max_seconds :: int where
  "max_seconds = (2 ^ 63 - 1) div 1000"

definition checked_seconds :: "(int \<Rightarrow> 'd) \<Rightarrow> int \<Rightarrow> 'd run" where
  "checked_seconds mk n = (if \<bar>n\<bar> \<le> max_seconds then Ret (mk n) else Panicked)"

definition chrono_law :: "('d, 't) chrono_api \<Rightarrow> (int \<Rightarrow> 'd) \<Rightarrow> int \<Rightarrow> (int \<Rightarrow> 't) \<Rightarrow> bool" where
  "chrono_law api mk reach before \<longleftrightarrow>
     (\<forall>n. ch_seconds api n = checked_seconds mk n) \<and>
     (\<forall>n. ch_minutes api n = checked_seconds mk (n * 60)) \<and>
     (\<forall>n. ch_hours api n = checked_seconds mk (n * 3600)) \<and>
     (\<forall>n. ch_days api n = checked_seconds mk (n * 86400)) \<and>
     (\<forall>n. \<bar>n\<bar> \<le> reach \<longrightarrow> ch_now_minus api (mk n) = Ret (before n))"

definition unit_seconds :: "char \<Rightarrow> nat" where
  "unit_seconds u =
     (if u = CHR ''s'' then 1 else if u = CHR ''m'' then 60 else if u = CHR ''h'' then 3600
      else if u = CHR ''d'' then 86400 else if u = CHR ''w'' then 7 * 86400
      else if u = CHR ''M'' then 30 * 86400 else 365 * 86400)"

text \<open>What a retention string means: its number times its unit, in seconds.\<close>

definition retention_secs :: "string \<Rightarrow> nat" where
  "retention_secs s = decimal (strip_plus (butlast s)) * unit_seconds (last s)"

lemma retention_form_parts:
  assumes "retention_form s"
  obtains num u n where "s = num @ [u]" "u \<in> set ''smhdwMy''" "\<not> continuation (of_char u)"
    "parse_u64 num = Some n" "unat n = decimal (strip_plus num)"
proof -
  obtain num u where *: "s = num @ [u]" "parse_u64 num \<noteq> None" "is_retention_unit [u]"
    using assms unfolding retention_form_iff [symmetric] is_valid_retention_True_iff by blast
  then obtain n where "parse_u64 num = Some n" by blast
  moreover from this have "unat n = decimal (strip_plus num)"
    by (auto simp: parse_u64_Some Let_def unat_of_nat)
  ultimately show ?thesis
    using that * unit_not_continuation [of u] by (simp add: retention_unit_set)
qed

lemma max_seconds_less: "int k \<le> max_seconds \<Longrightarrow> k < 2 ^ 63"
  by (simp add: max_seconds_def)

lemma wrap_small: "0 \<le> i \<Longrightarrow> i * 86400 \<le> max_seconds \<Longrightarrow> wrap_i64 i = i"
  by (rule wrap_i64_id) (simp_all add: max_seconds_def)

lemma parse_accepted:
  assumes law: "chrono_law api mk reach before" and form: "retention_form s"
    and small: "int (retention_secs s) \<le> max_seconds"
  shows "parse_retention_duration api s = Ret (Some (mk (int (retention_secs s))))"
proof -
  obtain num u n where s: "s = num @ [u]" "u \<in> set ''smhdwMy''" "\<not> continuation (of_char u)"
    and n: "parse_u64 num = Some n" "unat n = decimal (strip_plus num)"
    using form by (rule retention_form_parts)
  have secs: "int (retention_secs s) = int (unat n) * int (unit_seconds u)"
    using s n by (simp add: retention_secs_def)
  have "1 \<le> unit_seconds u"
    by (simp add: unit_seconds_def)
  then have "int (unat n) * 1 \<le> int (unat n) * int (unit_seconds u)"
    by (intro mult_left_mono) simp_all
  then have "int (unat n) \<le> max_seconds"
    using small secs by simp
  then have "unat n < 2 ^ 63"
    by (rule max_seconds_less)
  then have i: "parse_i64 num = Some (int (unat n))"
    using parse_u64_i64 [OF n(1)] by simp
  have split: "split_at s (length s - 1) = Ret (num, [u])"
    using s split_at_last [of s] by simp
  have wraps: "wrap_i64 (int (unat n) * 7) = int (unat n) * 7" if "u = CHR ''w''"
    using wrap_small [of "int (unat n) * 7"] small secs that by (simp add: unit_seconds_def)
  have wraps': "wrap_i64 (int (unat n) * 30) = int (unat n) * 30" if "u = CHR ''M''"
    using wrap_small [of "int (unat n) * 30"] small secs that by (simp add: unit_seconds_def)
  have wraps'': "wrap_i64 (int (unat n) * 365) = int (unat n) * 365" if "u = CHR ''y''"
    using wrap_small [of "int (unat n) * 365"] small secs that by (simp add: unit_seconds_def)
  have ok: "some_run (checked_seconds mk (int (retention_secs s))) = Ret (Some (mk (int (retention_secs s))))"
    using small by (simp add: some_run_def checked_seconds_def)
  have ne: "s \<noteq> []" using s by simp
  have eq: "parse_retention_duration api s =
      (if [u] = ''s'' then some_run (ch_seconds api (int (unat n)))
       else if [u] = ''m'' then some_run (ch_minutes api (int (unat n)))
       else if [u] = ''h'' then some_run (ch_hours api (int (unat n)))
       else if [u] = ''d'' then some_run (ch_days api (int (unat n)))
       else if [u] = ''w'' then some_run (ch_days api (wrap_i64 (int (unat n) * 7)))
       else if [u] = ''M'' then some_run (ch_days api (wrap_i64 (int (unat n) * 30)))
       else if [u] = ''y'' then some_run (ch_days api (wrap_i64 (int (unat n) * 365)))
       else Ret None)"
    by (simp only: parse_retention_duration_def if_not_P [OF ne] split run_bind.simps prod.case i
        option.case)
  have "u = CHR ''s'' \<or> u = CHR ''m'' \<or> u = CHR ''h'' \<or> u = CHR ''d'' \<or> u = CHR ''w'' \<or>
      u = CHR ''M'' \<or> u = CHR ''y''"
    using s(2) by simp
  then show ?thesis
    using law ok wraps wraps' wraps'' unfolding eq secs chrono_law_def
    by (elim disjE) (simp_all add: unit_seconds_def mult.commute [of "uint n"])
qed

text \<open>
  C40. Retention strings after the check. An accepted string whose number fits a signed 64-bit
  integer and whose length in seconds chrono can hold is parsed to that duration; one whose
  number needs the full unsigned range is parsed to nothing, so its policy is skipped.
\<close>

theorem accepted_retention_parses:
  assumes "chrono_law api mk reach before" "retention_form s"
  shows "(int (retention_secs s) \<le> max_seconds \<longrightarrow>
      parse_retention_duration api s = Ret (Some (mk (int (retention_secs s))))) \<and>
    (2 ^ 63 \<le> decimal (strip_plus (butlast s)) \<longrightarrow> parse_retention_duration api s = Ret None)"
proof (intro conjI impI)
  assume "2 ^ 63 \<le> decimal (strip_plus (butlast s))"
  moreover obtain num u n where s: "s = num @ [u]" "u \<in> set ''smhdwMy''" "\<not> continuation (of_char u)"
    and n: "parse_u64 num = Some n" "unat n = decimal (strip_plus num)"
    using assms(2) by (rule retention_form_parts)
  ultimately have "parse_i64 num = None"
    using parse_u64_i64 [OF n(1)] by simp
  moreover have "split_at s (length s - 1) = Ret (num, [u])"
    using s split_at_last [of s] by simp
  ultimately show "parse_retention_duration api s = Ret None"
    using s(1) by (simp add: parse_retention_duration_def)
qed (rule parse_accepted [OF assms])

text \<open>
  The multiplication by the days of a unit wraps. A string the check accepts is parsed to
  a negative duration, so the cutoff of its purge lies two days in the future and every
  document of the index is older.
\<close>

theorem retention_wraps_negative:
  assumes "chrono_law api mk reach before"
  shows "is_valid_retention ''2635249153387078802w'' = Ret True \<and>
    parse_retention_duration api ''2635249153387078802w'' = Ret (Some (mk (- 172800)))"
proof
  show "is_valid_retention ''2635249153387078802w'' = Ret True"
    by (simp add: is_valid_retention_eq parse_u64_Some decimal_def decimal_digit_def strip_plus_def
        is_retention_unit_def continuation_def less_eq_char_def)
  have "parse_i64 ''2635249153387078802'' = Some 2635249153387078802"
    by (simp add: parse_i64_def strip_plus_def magnitude_10 decimal_def decimal_digit_def less_eq_char_def)
  moreover have "wrap_i64 (2635249153387078802 * 7) = - 2"
    by (simp add: wrap_i64_def)
  moreover have "split_at ''2635249153387078802w'' (length ''2635249153387078802w'' - 1) =
      Ret (''2635249153387078802'', ''w'')"
    by (simp add: split_at_def is_char_boundary_def continuation_def)
  ultimately show "parse_retention_duration api ''2635249153387078802w'' = Ret (Some (mk (- 172800)))"
    using assms by (simp add: parse_retention_duration_def chrono_law_def checked_seconds_def
        max_seconds_def some_run_def)
qed

lemma retention_loop_commands:
  assumes "chrono_law api mk reach before"
  shows "(\<And>d. d \<in> set defs \<Longrightarrow> passes_check d) \<Longrightarrow>
    (\<And>d s. d \<in> set defs \<Longrightarrow> idx_retention d = Some s \<Longrightarrow>
       int (retention_secs s) \<le> max_seconds \<and> int (retention_secs s) \<le> reach) \<Longrightarrow>
    retention_loop api defs =
      Ret [(idx_name d, before (int (retention_secs (the (idx_retention d))))).
           d \<leftarrow> defs, idx_retention d \<noteq> None]"
proof (induction defs)
  case Nil
  then show ?case by simp
next
  case (Cons d defs)
  have IH: "retention_loop api defs =
      Ret [(idx_name d, before (int (retention_secs (the (idx_retention d))))).
           d \<leftarrow> defs, idx_retention d \<noteq> None]"
    by (rule Cons.IH) (use Cons.prems in auto)
  show ?case
  proof (cases "idx_retention d")
    case None
    with IH show ?thesis by simp
  next
    case (Some s)
    have "retention_form s"
      using Cons.prems(1) [of d] Some
      by (auto simp: passes_check_def validate_def validate_schema_def is_valid_retention_outcomes
          split: if_splits)
    moreover have "int (retention_secs s) \<le> max_seconds" "int (retention_secs s) \<le> reach"
      using Cons.prems(2) [of d s] Some by simp_all
    ultimately show ?thesis
      using parse_accepted [OF assms, of s] assms IH Some by (simp add: chrono_law_def)
  qed
qed

text \<open>
  The purge commands of one round: for a registry that satisfies its invariant and whose
  retention periods chrono can subtract from the current time, exactly one command per index
  with a retention policy, in the order of the listing, whose cutoff is the current time less
  the period.
\<close>

theorem retention_commands:
  assumes "chrono_law api mk reach before" "reg_inv r"
    and "\<And>d s. d \<in> set (reg_list r) \<Longrightarrow> idx_retention d = Some s \<Longrightarrow>
       int (retention_secs s) \<le> max_seconds \<and> int (retention_secs s) \<le> reach"
  shows "apply_retention api r =
    Ret [(idx_name d, before (int (retention_secs (the (idx_retention d))))).
         d \<leftarrow> reg_list r, idx_retention d \<noteq> None]"
proof -
  have "passes_check d" if "d \<in> set (reg_list r)" for d
    using assms(2) that by (auto simp: reg_list_def reg_inv_def split: if_splits)
  then show ?thesis
    unfolding apply_retention_def by (intro retention_loop_commands [OF assms(1)] assms(3))
qed

section \<open>Sizes from the environment\<close>

definition ascii_upper :: "char \<Rightarrow> char" where
  "ascii_upper c =
     (if 97 \<le> (of_char c :: nat) \<and> (of_char c :: nat) \<le> 122 then char_of (of_char c - 32 :: nat) else c)"

text \<open>On printable ASCII text, upper case changes the letters only.\<close>

definition upper_law :: "(string \<Rightarrow> string) \<Rightarrow> bool" where
  "upper_law up \<longleftrightarrow> (\<forall>s. list_all solid s \<longrightarrow> up s = map ascii_upper s)"

definition size_units :: "(string \<times> nat) list" where
  "size_units = [([], 1), (''B'', 1), (''KB'', 1024), (''MB'', 1048576), (''GB'', 1073741824)]"

lemma decimal_digit_solid: "decimal_digit c \<Longrightarrow> solid c"
  by (auto simp: decimal_digit_def solid_def less_eq_char_def)

lemma ascii_upper_digit: "decimal_digit c \<Longrightarrow> ascii_upper c = c"
  by (auto simp: decimal_digit_def ascii_upper_def less_eq_char_def)

lemma map_upper_digits: "list_all decimal_digit ds \<Longrightarrow> map ascii_upper ds = ds"
  by (induction ds) (simp_all add: ascii_upper_digit)

lemma ascii_upper_solid: "solid (ascii_upper c) \<Longrightarrow> solid c"
  by (auto simp: ascii_upper_def solid_def split: if_splits)

lemma ends_with_append [simp]: "ends_with (s @ t) t"
  by (simp add: ends_with_def)

lemma ends_with_snoc: "ends_with (s @ [c]) (p @ [d]) \<longleftrightarrow> c = d \<and> ends_with s p"
  by (auto simp: ends_with_def Suc_diff_le)

lemma ends_with_Nil: "ends_with [] (c # p) \<longleftrightarrow> False" "ends_with s [] \<longleftrightarrow> True"
  by (simp_all add: ends_with_def)

lemma digits_no_suffix:
  assumes "list_all decimal_digit ds" "\<not> decimal_digit c"
  shows "\<not> ends_with ds (p @ [c])"
  using assms by (cases ds rule: rev_cases) (auto simp: ends_with_snoc ends_with_def)

text \<open>
  What a size in the environment means: digits, then a unit in any mixture of cases, give
  the number times the unit, reduced modulo 2^64; nothing reports that the limit wrapped.
\<close>

theorem parse_size_units:
  assumes "upper_law up" "ds \<noteq> []" "list_all decimal_digit ds" "decimal ds < 2 ^ 64"
    and "(map ascii_upper unit_name, m) \<in> set size_units"
  shows "parse_size up (ds @ unit_name) = Some (of_nat (decimal ds * m))"
proof -
  let ?u = "map ascii_upper unit_name"
  have "list_all solid ds"
    using assms(3) by (auto simp: list_all_iff decimal_digit_solid)
  moreover have "list_all solid ?u"
    using assms(5) by (auto simp: size_units_def solid_def)
  then have "list_all solid unit_name"
    by (auto simp: list_all_iff ascii_upper_solid)
  ultimately have "list_all solid (ds @ unit_name)" "trim ds = ds"
    by (simp_all add: trim_solid)
  then have up: "up (trim (ds @ unit_name)) = ds @ ?u"
    using assms(1) map_upper_digits [OF assms(3)] by (simp add: upper_law_def trim_solid)
  have num: "parse_u64 ds = Some (of_nat (decimal ds))"
    using assms(2-4) by (simp add: parse_u64_Some strip_plus_digits)
  have no: "\<not> ends_with ds ''B''" "\<not> ends_with ds ''KB''" "\<not> ends_with ds ''MB''" "\<not> ends_with ds ''GB''"
    using digits_no_suffix [OF assms(3), of "CHR ''B''" "[]"]
      digits_no_suffix [OF assms(3), of "CHR ''B''" "''K''"]
      digits_no_suffix [OF assms(3), of "CHR ''B''" "''M''"]
      digits_no_suffix [OF assms(3), of "CHR ''B''" "''G''"]
    by (simp_all add: decimal_digit_def less_eq_char_def)
  have no': "\<not> ends_with ds ''K''" "\<not> ends_with ds ''M''" "\<not> ends_with ds ''G''"
    using digits_no_suffix [OF assms(3), of "CHR ''K''" "[]"]
      digits_no_suffix [OF assms(3), of "CHR ''M''" "[]"]
      digits_no_suffix [OF assms(3), of "CHR ''G''" "[]"]
    by (simp_all add: decimal_digit_def less_eq_char_def)
  have two: "ends_with (ds @ [c]) [a, b] \<longleftrightarrow> c = b \<and> ends_with ds [a]"
    "ends_with (ds @ [c]) [b] \<longleftrightarrow> c = b" "ends_with (ds @ [c, d]) [a, b] \<longleftrightarrow> d = b \<and> c = a"
    "ends_with (ds @ [c, d]) [b] \<longleftrightarrow> d = b" for a b c d
    using ends_with_snoc [of ds c "[a]" b] ends_with_snoc [of ds c "[]" b]
      ends_with_snoc [of "ds @ [c]" d "[a]" b] ends_with_snoc [of "ds @ [c]" d "[]" b]
      ends_with_snoc [of ds c "[]" a]
    by (simp_all add: ends_with_Nil)
  have "?u = [] \<and> m = 1 \<or> ?u = ''B'' \<and> m = 1 \<or> ?u = ''KB'' \<and> m = 1024 \<or>
      ?u = ''MB'' \<and> m = 1048576 \<or> ?u = ''GB'' \<and> m = 1073741824"
    using assms(5) by (auto simp: size_units_def)
  then show ?thesis
    using num \<open>trim ds = ds\<close> no no' unfolding parse_size_def up
    by (elim disjE conjE) (simp_all only: two, simp_all add: two)
qed

section \<open>Which log files are deleted\<close>

lemma split_extension_Some:
  assumes "split_extension name = (stem, Some ext)"
  shows "name = stem @ CHR ''.'' # ext \<and> stem \<noteq> []"
proof -
  let ?after = "rev (takeWhile (\<lambda>c. c \<noteq> CHR ''.'') (rev name))"
  let ?before = "butlast (take (length name - length ?after) name)"
  have eq: "stem = ?before" "ext = ?after" "CHR ''.'' \<in> set name" "?before \<noteq> []"
    using assms by (auto simp: split_extension_def Let_def split: if_splits)
  let ?d = "dropWhile (\<lambda>c. c \<noteq> CHR ''.'') (rev name)"
  have "?d \<noteq> []" "hd ?d = CHR ''.''"
    using eq(3) hd_dropWhile [of "\<lambda>c. c \<noteq> CHR ''.''" "rev name"] by (auto simp: dropWhile_eq_Nil_conv)
  then have d: "?d = CHR ''.'' # tl ?d"
    by (cases ?d) auto
  have "name = rev (takeWhile (\<lambda>c. c \<noteq> CHR ''.'') (rev name) @ ?d)"
    by (simp only: takeWhile_dropWhile_id rev_rev_ident)
  also have "\<dots> = rev (tl ?d) @ CHR ''.'' # ?after"
    using d by (metis append.assoc append_Cons append_Nil rev.simps(2) rev_append)
  finally have name: "name = rev (tl ?d) @ CHR ''.'' # ?after" .
  have "take (length name - length ?after) name = rev (tl ?d) @ ''.''"
    by (subst name, subst (2) name) simp
  with name eq show ?thesis by simp
qed

lemma wal_candidate_Some:
  assumes "wal_candidate e = Some (start, path, len)"
  shows "path = we_name e \<and> we_is_file e \<and> we_len e = Some len \<and>
    (\<exists>stem. we_name e = stem @ ''.wal'' \<and> from_str_radix_u64 16 stem = Some start)"
  using assms split_extension_Some [of "we_name e"]
  by (auto simp: wal_candidate_def split: prod.splits option.splits if_splits)

lemma hex_digits_ascii: "is_ascii (hex_digits k n)"
proof (induction k arbitrary: n)
  case (Suc k)
  have "(of_char (hex_char (n mod 16)) :: nat) < 128"
    using of_char_hex_char [of "n mod 16"] by (auto split: if_splits)
  with Suc show ?case by (auto simp: is_ascii_def)
qed (simp add: is_ascii_def)

text \<open>The worker recognises the names the appender gives its files.\<close>

lemma wal_candidate_name:
  "wal_candidate \<lparr>we_name = wal_file_name w, we_is_file = True, we_len = Some n\<rparr> =
    Some (w, wal_file_name w, n)"
proof -
  have "takeWhile (\<lambda>c. c \<noteq> CHR ''.'') (rev (wal_file_name w)) = ''law''"
    by (simp add: wal_file_name_def)
  moreover have "hex_digits 16 (unat w) \<noteq> []"
    using length_hex_digits [of 16 "unat w"] by (metis list.size(3) zero_neq_numeral)
  ultimately have "split_extension (wal_file_name w) = (hex_digits 16 (unat w), Some ''wal'')"
    by (simp add: split_extension_def wal_file_name_def butlast_append del: hex_digits.simps)
  moreover have "is_str (hex_digits 16 (unat w))"
    by (rule is_ascii_is_str [OF hex_digits_ascii])
  ultimately show ?thesis
    by (simp add: wal_candidate_def hex_name_roundtrip)
qed

lemma set_wal_files: "set (wal_files entries) = {f. \<exists>e \<in> set entries. wal_candidate e = Some f}"
  by (auto simp: wal_files_def map_filter_def image_iff) (metis option.sel)+

lemma sorted_wal_files: "sorted (map fst (wal_files entries))"
  by (simp add: wal_files_def)

abbreviation file_path :: "u64 \<times> string \<times> u64 \<Rightarrow> string" where
  "file_path f \<equiv> fst (snd f)"

abbreviation file_len :: "u64 \<times> string \<times> u64 \<Rightarrow> u64" where
  "file_len f \<equiv> snd (snd f)"

definition is_committed :: "u64 \<Rightarrow> u64 \<times> string \<times> u64 \<Rightarrow> bool" where
  "is_committed c f \<longleftrightarrow> fst f + file_len f \<le> c"

definition files_bytes :: "(u64 \<times> string \<times> u64) list \<Rightarrow> nat" where
  "files_bytes files = sum_list (map (unat \<circ> file_len) files)"

lemma files_bytes_simps [simp]:
  "files_bytes [] = 0" "files_bytes (f # fs) = unat (file_len f) + files_bytes fs"
  by (simp_all add: files_bytes_def)

lemma files_bytes_filter: "files_bytes (filter P fs) + files_bytes (filter (\<lambda>f. \<not> P f) fs) = files_bytes fs"
  by (induction fs) simp_all

lemma committed_pass_eq:
  "committed_pass removes c used files =
    (foldl saturating_sub used (map file_len (filter (\<lambda>f. is_committed c f \<and> removes (file_path f)) files)),
     map file_path (filter (\<lambda>f. is_committed c f \<and> removes (file_path f)) files),
     filter (\<lambda>f. \<not> is_committed c f) files)"
  by (induction removes c used files rule: committed_pass.induct) (simp_all add: is_committed_def)

lemma unat_sum_lens: "files_bytes files < 2 ^ 64 \<Longrightarrow>
   unat (sum_list (map (\<lambda>(_, _, s). s) files)) = files_bytes files"
proof (induction files)
  case (Cons f fs)
  obtain a b s where f: "f = (a, b, s)" by (cases f)
  from Cons have IH: "unat (sum_list (map (\<lambda>(_, _, s). s) fs)) = files_bytes fs"
    by simp
  with Cons.prems have "unat s + unat (sum_list (map (\<lambda>(_, _, s). s) fs)) < 2 ^ 64"
    by (simp add: f)
  then have "unat (s + sum_list (map (\<lambda>(_, _, s). s) fs)) = unat s + files_bytes fs"
    using IH by (simp add: unat_add_lem [THEN iffD1])
  then show ?case by (simp add: f)
qed simp

lemma unat_saturating_sub: "unat (saturating_sub a b) = unat a - unat b"
  by (simp add: saturating_sub_def unat_sub word_le_nat_alt)

lemma unat_foldl_sub:
  "unat (foldl saturating_sub used (map file_len fs)) = unat used - files_bytes fs"
  by (induction fs arbitrary: used) (simp_all add: unat_saturating_sub)

lemma emergency_pass_prefix:
  "unat used = files_bytes fs \<Longrightarrow>
   \<exists>k \<le> length fs. emergency_pass (\<lambda>_. True) m used fs = map file_path (take k fs) \<and>
     files_bytes (drop k fs) \<le> unat m \<and> (\<forall>j < k. unat m < files_bytes (drop j fs))"
proof (induction fs arbitrary: used)
  case Nil
  then show ?case by simp
next
  case (Cons f fs)
  obtain a p s where f: "f = (a, p, s)" by (cases f)
  show ?case
  proof (cases "used \<le> m")
    case True
    with Cons.prems f show ?thesis
      by (intro exI [of _ 0]) (simp add: word_le_nat_alt)
  next
    case False
    have "unat (saturating_sub used s) = files_bytes fs"
      using Cons.prems by (simp add: unat_saturating_sub f)
    then obtain k where k: "k \<le> length fs"
        "emergency_pass (\<lambda>_. True) m (saturating_sub used s) fs = map file_path (take k fs)"
        "files_bytes (drop k fs) \<le> unat m" "\<forall>j < k. unat m < files_bytes (drop j fs)"
      using Cons.IH by blast
    have "unat m < files_bytes (drop j (f # fs))" if "j < Suc k" for j
      using that k(4) False Cons.prems by (cases j) (auto simp: word_le_nat_alt)
    with k False f show ?thesis
      by (intro exI [of _ "Suc k"]) auto
  qed
qed

text \<open>
  Only log files are deleted: whatever the directory holds and whatever deletions fail, a
  deleted name belongs to a regular file of the directory, ends in \<open>.wal\<close> and parses as
  a hexadecimal offset before that.
\<close>

theorem cleanup_only_logs:
  assumes "p \<in> set (cleanup_wals removes (Some entries) committed_offset max_bytes)"
  shows "removes p \<and> (\<exists>e \<in> set entries. we_name e = p \<and> we_is_file e \<and>
    (\<exists>stem start. p = stem @ ''.wal'' \<and> from_str_radix_u64 16 stem = Some start))"
proof -
  have em: "q \<in> set (emergency_pass removes max_bytes used fs) \<Longrightarrow> removes q \<and> q \<in> file_path ` set fs"
    for q used fs
    by (induction removes max_bytes used fs rule: emergency_pass.induct) (auto split: if_splits)
  have "removes p \<and> p \<in> file_path ` set (wal_files entries)"
    using assms em by (fastforce simp: cleanup_wals_def Let_def committed_pass_eq)
  then show ?thesis
    using wal_candidate_Some by (fastforce simp: set_wal_files)
qed

text \<open>
  C21. The limit is enforced, oldest files first and no more than needed. When deletions succeed
  and the sizes add up to less than 2^64, the deleted files are those whose end is at most the
  committed offset and then the first \<open>k\<close> of the others in order of their offsets; the
  files that stay fit the limit, and with one deletion less they would not.
\<close>

theorem cleanup_enforces_limit:
  assumes "\<And>p. removes p" "files_bytes (wal_files entries) < 2 ^ 64"
  shows "\<exists>k. let files = wal_files entries; rest = filter (\<lambda>f. \<not> is_committed c f) files in
    cleanup_wals removes (Some entries) c max_bytes =
      map file_path (filter (is_committed c) files @ take k rest) \<and>
    sorted (map fst rest) \<and> files_bytes (drop k rest) \<le> unat max_bytes \<and>
    (\<forall>j < k. unat max_bytes < files_bytes (drop j rest))"
proof -
  have all: "removes = (\<lambda>_. True)"
    using assms(1) by blast
  let ?files = "wal_files entries"
  let ?rest = "filter (\<lambda>f. \<not> is_committed c f) ?files"
  let ?used = "foldl saturating_sub (sum_list (map (\<lambda>(_, _, s). s) ?files))
      (map file_len (filter (is_committed c) ?files))"
  have "unat ?used = files_bytes ?rest"
    using unat_sum_lens [OF assms(2)] files_bytes_filter [of "is_committed c" ?files]
    unfolding unat_foldl_sub by simp
  then obtain k where k: "emergency_pass (\<lambda>_. True) max_bytes ?used ?rest = map file_path (take k ?rest)"
      "files_bytes (drop k ?rest) \<le> unat max_bytes"
      "\<forall>j < k. unat max_bytes < files_bytes (drop j ?rest)"
    using emergency_pass_prefix [of ?used ?rest max_bytes] by blast
  have "sorted (map fst ?rest)"
    using sorted_wal_files [of entries] by (rule sorted_filter)
  then show ?thesis
    using k by (intro exI [of _ k]) (simp add: all cleanup_wals_def Let_def committed_pass_eq)
qed

text \<open>
  The worker deletes the log file in use. The committed offset it passes is 0, and an empty
  file of offset 0 ends at 0; so the first round of the worker after the start on an empty
  directory deletes the file the appender has open, unless an event was written before it.
\<close>

theorem active_log_deleted:
  assumes "start_wal 0 Map.empty io = Some w" "set io \<subseteq> {IoOk}"
    and "\<lparr>we_name = ws_target w, we_is_file = True,
          we_len = Some (of_nat (length (lf_bytes (cur_file w))))\<rparr> \<in> set entries"
    and "removes (ws_target w)" "apply_retention api r = Ret cmds"
  shows "\<exists>warn deleted. retention_tick api cfg r index_dir removes (Some entries) = Ret (cmds, warn, deleted) \<and>
    ws_target w \<in> set deleted"
proof -
  note start = start_wal_healthy [OF assms(1,2)]
  have "(0, wal_file_name 0, 0) \<in> set (wal_files entries)"
    using assms(3) start wal_candidate_name [of 0 0]
    by (auto simp: set_wal_files cur_file_def intro!: bexI)
  then have "wal_file_name 0 \<in> set (cleanup_wals removes (Some entries) 0 (max_wal_bytes cfg))"
    using assms(4) start(3)
    by (force simp: cleanup_wals_def Let_def committed_pass_eq is_committed_def image_iff)
  then show ?thesis
    using start(3) assms(5) by (simp add: retention_tick_def)
qed

section \<open>Witnesses\<close>

text \<open>Durations and times as seconds, with a fixed clock.\<close>

definition demo_chrono :: "(int, int) chrono_api" where
  "demo_chrono =
     \<lparr>ch_seconds = checked_seconds id, ch_minutes = (\<lambda>n. checked_seconds id (n * 60)),
      ch_hours = (\<lambda>n. checked_seconds id (n * 3600)), ch_days = (\<lambda>n. checked_seconds id (n * 86400)),
      ch_now_minus = (\<lambda>d. if \<bar>d\<bar> \<le> 100000000000 then Ret (1700000000 - d) else Panicked)\<rparr>"

lemma demo_chrono_law: "chrono_law demo_chrono id 100000000000 (\<lambda>n. 1700000000 - n)"
  by (simp add: chrono_law_def demo_chrono_def)

lemma form_7d: "retention_form ''7d''"
  by (simp add: retention_form_iff [symmetric] is_valid_retention_eq parse_u64_Some decimal_def
      decimal_digit_def strip_plus_def is_retention_unit_def continuation_def less_eq_char_def)

lemma secs_7d: "retention_secs ''7d'' = 604800"
  by (simp add: retention_secs_def strip_plus_def decimal_def unit_seconds_def)

theorem accepted_retention_parses_witness:
  "parse_retention_duration demo_chrono ''7d'' = Ret (Some 604800)"
  using accepted_retention_parses [OF demo_chrono_law form_7d] by (simp add: secs_7d max_seconds_def)

theorem retention_wraps_negative_witness:
  "parse_retention_duration demo_chrono ''2635249153387078802w'' = Ret (Some (- 172800))"
  using retention_wraps_negative [OF demo_chrono_law] by simp

definition week_registry :: registry where
  "week_registry = new_registry\<lparr>reg_indexes :=
     [(''logs'', (index_of_fields ''logs'' [])\<lparr>idx_retention := Some ''7d''\<rparr>),
      (''events'', index_of_fields ''events'' [])]\<rparr>"

lemma week_registry_inv: "reg_inv week_registry"
  using form_7d
  by (simp add: week_registry_def reg_inv_def hm_wf_def passes_check_def validate_def
      validate_schema_def is_valid_retention_outcomes index_of_fields_def default_partition_def
      continuation_def)

theorem retention_commands_witness:
  "apply_retention demo_chrono week_registry = Ret [(''logs'', 1699395200)]"
proof -
  have l: "reg_list week_registry =
      [(index_of_fields ''logs'' [])\<lparr>idx_retention := Some ''7d''\<rparr>, index_of_fields ''events'' []]"
    by (simp add: reg_list_def week_registry_def new_registry_def)
  have "apply_retention demo_chrono week_registry =
      Ret [(idx_name d, 1700000000 - int (retention_secs (the (idx_retention d)))).
           d \<leftarrow> reg_list week_registry, idx_retention d \<noteq> None]"
    by (rule retention_commands [OF demo_chrono_law week_registry_inv])
      (auto simp: l secs_7d max_seconds_def index_of_fields_def)
  then show ?thesis
    by (simp add: l secs_7d index_of_fields_def)
qed

theorem parse_size_units_witness:
  "parse_size (map ascii_upper) ''17179869184gb'' = Some 0"
proof -
  have "map ascii_upper ''gb'' = ''GB''"
    by (simp add: ascii_upper_def char_of_def bit_0)
  moreover have "of_nat (17179869184 * 1073741824) = (0 :: u64)"
    by (simp add: word_unat_eq_iff unat_of_nat)
  ultimately show ?thesis
    using parse_size_units [of "map ascii_upper" "''17179869184''" "''gb''" 1073741824]
    by (simp add: upper_law_def decimal_digit_def less_eq_char_def decimal_def size_units_def
        del: list.map)
qed

definition three_logs :: "wal_entry list" where
  "three_logs = map (\<lambda>(w, n). \<lparr>we_name = wal_file_name w, we_is_file = True, we_len = Some n\<rparr>)
     [(300, 300), (0, 100), (100, 200)]"

lemma wal_files_three:
  "wal_files three_logs =
    [(0, wal_file_name 0, 100), (100, wal_file_name 100, 200), (300, wal_file_name 300, 300)]"
  by (simp add: wal_files_def three_logs_def map_filter_simps wal_candidate_name)

theorem cleanup_enforces_limit_witness:
  "cleanup_wals (\<lambda>_. True) (Some three_logs) 0 400 = [wal_file_name 0, wal_file_name 100]"
proof -
  obtain k where k: "cleanup_wals (\<lambda>_. True) (Some three_logs) 0 400 =
      map file_path (take k (wal_files three_logs))"
    "files_bytes (drop k (wal_files three_logs)) \<le> 400"
    "\<forall>j < k. 400 < files_bytes (drop j (wal_files three_logs))"
    using cleanup_enforces_limit [of "\<lambda>_. True" three_logs 0 400]
    by (auto simp: wal_files_three is_committed_def Let_def)
  have "k \<noteq> 0"
  proof
    assume "k = 0"
    with k(2) show False by (simp add: wal_files_three)
  qed
  moreover have "k \<noteq> 1"
  proof
    assume "k = 1"
    with k(2) show False by (simp add: wal_files_three)
  qed
  moreover have "\<not> 2 < k"
    using k(3) by (auto simp: wal_files_three)
  ultimately have "k = 2" by linarith
  with k(1) show ?thesis by (simp add: wal_files_three)
qed

theorem cleanup_only_logs_witness:
  "\<exists>e \<in> set three_logs. we_name e = wal_file_name 0 \<and> we_is_file e"
proof -
  have "wal_file_name 0 \<in> set (cleanup_wals (\<lambda>_. True) (Some three_logs) 100 400)"
    by (simp add: cleanup_wals_def wal_files_three)
  from cleanup_only_logs [OF this] show ?thesis by blast
qed

theorem active_log_deleted_witness:
  "\<exists>w warn deleted. start_wal 0 Map.empty [] = Some w \<and>
    retention_tick demo_chrono default_retention_config new_registry None (\<lambda>_. True)
      (Some [\<lparr>we_name = ws_target w, we_is_file = True, we_len = Some 0\<rparr>]) = Ret ([], warn, deleted) \<and>
    ws_target w \<in> set deleted"
proof -
  obtain w where w: "start_wal 0 Map.empty [] = Some w"
    using start_wal_starts by blast
  have "cur_file w = \<lparr>lf_bytes = [], lf_synced = 0\<rparr>"
    using start_wal_healthy [OF w] by (simp add: cur_file_def)
  moreover have "apply_retention demo_chrono new_registry = Ret []"
    by (simp add: apply_retention_def reg_list_def new_registry_def)
  ultimately show ?thesis
    using active_log_deleted [OF w, of "[\<lparr>we_name = ws_target w, we_is_file = True, we_len = Some 0\<rparr>]"
        "\<lambda>_. True" demo_chrono new_registry "[]" default_retention_config None] w
    by auto
qed

end
