(* ===== verification/Startup.thy ===== *)
theory Startup
  imports Wal_Log Compaction Retention
begin

text \<open>
  The start of the program, \<open>src/main.rs\<close>: the configuration from the environment, the loading
  of the definitions, and the tasks with their first states. What lies outside (logging, the
  thread pool, the metrics recorder, the socket) contributes only its outcome.
\<close>

section \<open>Configuration\<close>

definition parse_u16 :: "string \<Rightarrow> u16 option" where
  "parse_u16 s =
     (case magnitude 10 (strip_plus s) of
        Some n \<Rightarrow> if n < 2 ^ 16 then Some (of_nat n) else None
      | None \<Rightarrow> None)"

record config =
  cf_port :: u16
  cf_data_dir :: string
  cf_index_memory_mb :: u64
  cf_channel_buffer :: u64
  cf_search_threads :: u64
  cf_docstore_cache_blocks :: u64

text \<open>\<open>env\<close> gives the variables that are set to valid Unicode.\<close>

definition env_or :: "(string \<Rightarrow> string option) \<Rightarrow> string \<Rightarrow> string \<Rightarrow> string" where
  "env_or env key dflt = (case env key of Some v \<Rightarrow> v | None \<Rightarrow> dflt)"

definition env_usize :: "(string \<Rightarrow> string option) \<Rightarrow> string \<Rightarrow> string \<Rightarrow> string + u64" where
  "env_usize env key dflt =
     (case parse_u64 (env_or env key dflt) of
        Some n \<Rightarrow> Inr n
      | None \<Rightarrow> Inl (key @ '' must be a valid usize''))"

text \<open>The first value that cannot be parsed ends the program.\<close>

definition read_config :: "(string \<Rightarrow> string option) \<Rightarrow> string + config" where
  "read_config env =
     (case parse_u16 (env_or env ''EDGEWIT_PORT'' ''9200'') of
        None \<Rightarrow> Inl ''EDGEWIT_PORT must be a valid u16''
      | Some port \<Rightarrow>
          (case env_usize env ''EDGEWIT_INDEX_MEMORY_MB'' ''30'' of
             Inl e \<Rightarrow> Inl e
           | Inr index_memory_mb \<Rightarrow>
               (case env_usize env ''EDGEWIT_CHANNEL_BUFFER'' ''10000'' of
                  Inl e \<Rightarrow> Inl e
                | Inr channel_buffer \<Rightarrow>
                    (case env_usize env ''EDGEWIT_SEARCH_THREADS'' ''1'' of
                       Inl e \<Rightarrow> Inl e
                     | Inr search_threads \<Rightarrow>
                         (case env_usize env ''EDGEWIT_DOCSTORE_CACHE_BLOCKS'' ''20'' of
                            Inl e \<Rightarrow> Inl e
                          | Inr docstore_cache_blocks \<Rightarrow>
                              Inr \<lparr>cf_port = port, cf_data_dir = env_or env ''EDGEWIT_DATA_DIR'' ''./data'',
                                   cf_index_memory_mb = index_memory_mb, cf_channel_buffer = channel_buffer,
                                   cf_search_threads = search_threads,
                                   cf_docstore_cache_blocks = docstore_cache_blocks\<rparr>)))))"

section \<open>The tasks\<close>

text \<open>
  The world at the start: the outcomes of setting up logging, the thread pool, the metrics and
  the socket (an error text or nothing), the definitions directory, the log files and the
  outcomes of the system calls of the appender, the upper-case table, and the state of the
  file system for Tantivy.
\<close>

record 'w platform =
  pf_logging :: "string option"
  pf_thread_pool :: "string option"
  pf_indexes_exist :: bool
  pf_read_dir :: "io_error + (io_error + dir_entry) list"
  pf_log_files :: "string \<Rightarrow> log_file option"
  pf_io :: "io_outcome list"
  pf_upper :: "string \<Rightarrow> string"
  pf_world :: 'w
  pf_recorder :: "string option"
  pf_listen :: "u16 \<Rightarrow> string option"

text \<open>What runs after a successful start. Without a log the appender thread has ended.\<close>

record ('w, 'i, 'rd, 'wr) program =
  pr_config :: config
  pr_registry :: registry
  pr_indexer :: "('w, 'i, 'rd, 'wr) actor"
  pr_wal :: "wal_state option"
  pr_retention :: RetentionConfig
  pr_compaction :: CompactionWorker

datatype start_error = StartFailed string | LoadFailed RegistryError

text \<open>The documented limits of a channel: no room at all, or too much, makes it panic.\<close>

definition channel_ok :: "u64 \<Rightarrow> bool" where
  "channel_ok buffer \<longleftrightarrow> buffer \<noteq> 0 \<and> unat buffer < 2 ^ 61"

definition start_program ::
    "(string \<Rightarrow> string + IndexDefinition) \<Rightarrow> (string \<Rightarrow> string option) \<Rightarrow> 'w platform \<Rightarrow>
     (start_error + ('w, 'i, 'rd, 'wr) program) run" where
  "start_program yaml env pf =
     (case pf_logging pf of
        Some e \<Rightarrow> Ret (Inl (StartFailed e))
      | None \<Rightarrow>
     (case read_config env of
        Inl e \<Rightarrow> Ret (Inl (StartFailed e))
      | Inr cf \<Rightarrow>
     (case pf_thread_pool pf of
        Some e \<Rightarrow> Ret (Inl (StartFailed e))
      | None \<Rightarrow>
          run_bind (load_from_dir yaml (pf_indexes_exist pf) (pf_read_dir pf) new_registry)
            (\<lambda>(reg, res). case res of
               Inl e \<Rightarrow> Ret (Inl (LoadFailed e))
             | Inr loaded \<Rightarrow>
                 if \<not> channel_ok (cf_channel_buffer cf) then Panicked
                 else
                   let manager = new_manager (cf_data_dir cf) (cf_docstore_cache_blocks cf) in
                   run_bind (start_indexer env (new_actor manager (pf_world pf) (cf_index_memory_mb cf)))
                     (\<lambda>indexer.
                        let wal = start_wal 0 (pf_log_files pf) (pf_io pf);
                            retention = retention_config_from_env (pf_upper pf) env;
                            worker = new_worker env (cf_data_dir cf)
                        in if cw_interval worker = 0 then Panicked
                           else case pf_recorder pf of
                             Some e \<Rightarrow> Ret (Inl (StartFailed e))
                           | None \<Rightarrow>
                               (case pf_listen pf (cf_port cf) of
                                  Some e \<Rightarrow> Ret (Inl (StartFailed e))
                                | None \<Rightarrow>
                                    Ret (Inr \<lparr>pr_config = cf, pr_registry = reg, pr_indexer = indexer,
                                              pr_wal = wal, pr_retention = retention,
                                              pr_compaction = worker\<rparr>)))))))"

section \<open>What a start establishes\<close>

lemma start_indexer_Ret:
  "start_indexer env a = Ret a' \<Longrightarrow>
   env_number env ''EDGEWIT_COMMIT_INTERVAL_SECS'' 5 \<noteq> 0 \<and> a' = a\<lparr>ac_docs_since_commit := 0\<rparr>"
  by (simp add: start_indexer_def split: if_splits)

lemma start_program_cases:
  assumes "start_program yaml env pf = Ret (Inr p)"
  obtains cf reg loaded where "read_config env = Inr cf"
    "load_from_dir yaml (pf_indexes_exist pf) (pf_read_dir pf) new_registry = Ret (reg, Inr loaded)"
    "channel_ok (cf_channel_buffer cf)" "env_number env ''EDGEWIT_COMMIT_INTERVAL_SECS'' 5 \<noteq> 0"
    "cw_interval (new_worker env (cf_data_dir cf)) \<noteq> 0"
    "p = \<lparr>pr_config = cf, pr_registry = reg,
          pr_indexer = new_actor (new_manager (cf_data_dir cf) (cf_docstore_cache_blocks cf))
            (pf_world pf) (cf_index_memory_mb cf),
          pr_wal = start_wal 0 (pf_log_files pf) (pf_io pf),
          pr_retention = retention_config_from_env (pf_upper pf) env,
          pr_compaction = new_worker env (cf_data_dir cf)\<rparr>"
proof -
  obtain cf where cf: "read_config env = Inr cf"
    using assms by (auto simp: start_program_def split: option.splits sum.splits)
  obtain reg res where load: "load_from_dir yaml (pf_indexes_exist pf) (pf_read_dir pf) new_registry = Ret (reg, res)"
    using assms cf by (auto simp: start_program_def run_bind_case split: option.splits run.splits)
  show ?thesis
    using assms cf load that
    by (auto simp: start_program_def Let_def run_bind_Ret_iff new_actor_def dest!: start_indexer_Ret
        split: option.splits sum.splits if_splits)
qed

text \<open>
  C29. A program that has started is in order: its registry satisfies the registry's invariant, the
  indexing task holds no writers and has nothing uncommitted, the channels have room, and the
  periods of both timers are positive.
\<close>

theorem started_in_order:
  assumes "start_program yaml env pf = Ret (Inr p)"
  shows "reg_inv (pr_registry p) \<and> \<not> reg_poisoned (pr_registry p) \<and>
    ac_writers (pr_indexer p) = [] \<and> ac_dirty (pr_indexer p) = [] \<and>
    channel_ok (cf_channel_buffer (pr_config p)) \<and>
    cw_interval (pr_compaction p) \<noteq> 0 \<and> env_number env ''EDGEWIT_COMMIT_INTERVAL_SECS'' 5 \<noteq> 0 \<and>
    pr_wal p = start_wal 0 (pf_log_files pf) (pf_io pf)"
  using assms
proof (cases rule: start_program_cases)
  case (1 cf reg loaded)
  have "reg_inv reg" "\<not> reg_poisoned reg"
    using load_from_dir_inv [OF reg_inv_new 1(2)] by (simp_all add: new_registry_def)
  with 1 show ?thesis by (simp add: new_actor_def)
qed

text \<open>
  Some settings make the program panic instead of reporting an error: with a readable
  configuration and a loadable directory the start panics exactly if the channel buffer is 0 or
  beyond the limit of channels, or the period of the commit timer or of the compaction is 0.
\<close>

theorem start_panics_iff:
  assumes "pf_logging pf = None" "read_config env = Inr cf" "pf_thread_pool pf = None"
    and "load_from_dir yaml (pf_indexes_exist pf) (pf_read_dir pf) new_registry = Ret (reg, Inr n)"
  shows "start_program yaml env pf = Panicked \<longleftrightarrow>
    \<not> channel_ok (cf_channel_buffer cf) \<or> env_number env ''EDGEWIT_COMMIT_INTERVAL_SECS'' 5 = 0 \<or>
    env_number env ''EDGEWIT_COMPACTION_INTERVAL_SECS'' 300 = 0"
  using assms
  by (simp add: start_program_def start_indexer_def new_worker_def Let_def split: option.split)

section \<open>Witnesses\<close>

definition demo_platform :: "unit platform" where
  "demo_platform =
     \<lparr>pf_logging = None, pf_thread_pool = None, pf_indexes_exist = False, pf_read_dir = Inr [],
      pf_log_files = Map.empty, pf_io = [], pf_upper = (\<lambda>s. s), pf_world = (), pf_recorder = None,
      pf_listen = (\<lambda>_. None)\<rparr>"

lemma demo_config:
  "\<exists>cf. read_config (\<lambda>_. None) = Inr cf \<and> cf_channel_buffer cf = 10000"
  by (simp add: read_config_def env_usize_def env_or_def parse_u16_def parse_u64_def from_str_radix_u64_def
      magnitude_def strip_plus_def to_digit_def digit_val_def)

lemma demo_load: "load_from_dir yaml (pf_indexes_exist demo_platform) (pf_read_dir demo_platform) new_registry =
    Ret (new_registry, Inr 0)"
  by (simp add: load_from_dir_def demo_platform_def)

theorem start_panics_iff_witness:
  "start_program (\<lambda>_. Inl []) (\<lambda>_. None) demo_platform \<noteq> Panicked"
proof -
  obtain cf where cf: "read_config (\<lambda>_. None) = Inr cf" "cf_channel_buffer cf = 10000"
    using demo_config by blast
  show ?thesis
    using start_panics_iff [OF _ cf(1) _ demo_load] cf(2)
    by (simp add: demo_platform_def channel_ok_def env_number_def)
qed

theorem started_in_order_witness:
  "\<exists>p. start_program (\<lambda>_. Inl []) (\<lambda>_. None) demo_platform = Ret (Inr p) \<and> reg_inv (pr_registry p)"
proof -
  obtain cf where cf: "read_config (\<lambda>_. None) = Inr cf" "cf_channel_buffer cf = 10000"
    using demo_config by blast
  then have "\<exists>p. start_program (\<lambda>_. Inl []) (\<lambda>_. None) demo_platform = Ret (Inr p)"
    by (simp add: start_program_def load_from_dir_def demo_platform_def channel_ok_def start_indexer_def
        env_number_def new_worker_def Let_def)
  then show ?thesis
    using started_in_order by blast
qed

end
