(* ===== verification/Wal_Durable.thy ===== *)
theory Wal_Durable
  imports Wal_Log "HOL-Library.Sublist"
begin

text \<open>
  Durability over a whole run with arbitrary I/O errors: the log only grows, so a frame that was
  on the disk when its request was acknowledged stays there, whatever fails later.
\<close>

section \<open>The log only grows\<close>

text \<open>Each file keeps its bytes as a prefix, and what is on the disk stays on the disk.\<close>

definition grows :: "wal_state \<Rightarrow> wal_state \<Rightarrow> bool" where
  "grows st st' \<longleftrightarrow>
     (\<forall>p f. ws_files st p = Some f \<longrightarrow>
        (\<exists>f'. ws_files st' p = Some f' \<and> prefix (lf_bytes f) (lf_bytes f') \<and> lf_synced f \<le> lf_synced f'))"

text \<open>No more is claimed to be on the disk than a file holds.\<close>

definition synced_ok :: "wal_state \<Rightarrow> bool" where
  "synced_ok st \<longleftrightarrow> (\<forall>p f. ws_files st p = Some f \<longrightarrow> lf_synced f \<le> length (lf_bytes f))"

definition safe_step :: "wal_state \<Rightarrow> wal_state \<Rightarrow> bool" where
  "safe_step st st' \<longleftrightarrow> (synced_ok st \<longrightarrow> grows st st' \<and> synced_ok st')"

lemma grows_refl: "grows st st"
  by (auto simp: grows_def)

lemma safe_step_refl [simp]: "safe_step st st"
  by (simp add: safe_step_def grows_refl)

lemma grows_trans: "grows a b \<Longrightarrow> grows b c \<Longrightarrow> grows a c"
  unfolding grows_def by (meson order_trans prefix_order.trans)

lemma safe_step_trans: "safe_step a b \<Longrightarrow> safe_step b c \<Longrightarrow> safe_step a c"
  unfolding safe_step_def using grows_trans by blast

text \<open>Only the files count.\<close>

lemma safe_step_files: "ws_files st' = ws_files st1 \<Longrightarrow> safe_step st st' = safe_step st st1"
  by (simp add: safe_step_def grows_def synced_ok_def)

lemma safe_step_io [simp]:
  "safe_step st (st'\<lparr>ws_io := io\<rparr>) = safe_step st st'" "safe_step st (st'\<lparr>ws_buf := b\<rparr>) = safe_step st st'"
  "safe_step (st\<lparr>ws_io := io\<rparr>) st' = safe_step st st'"
  by (simp_all add: safe_step_def grows_def synced_ok_def)

lemma safe_append [simp]: "safe_step st (append_bytes bs st)"
  by (auto simp: safe_step_def grows_def synced_ok_def append_bytes_def set_cur_file_def cur_file_def
      trans_le_add1 split: option.splits)

lemma safe_sync: "safe_step st (set_cur_file (cur_file st\<lparr>lf_synced := length (lf_bytes (cur_file st))\<rparr>) st)"
  by (auto simp: safe_step_def grows_def synced_ok_def set_cur_file_def cur_file_def split: option.splits)

lemma safe_create [simp]: "safe_step st (create_if_absent path st)"
  by (auto simp: safe_step_def grows_def synced_ok_def create_if_absent_def)

lemma safe_append_io [simp]: "safe_step st (append_bytes bs (st\<lparr>ws_io := io\<rparr>))"
  using safe_append [of "st\<lparr>ws_io := io\<rparr>" bs] unfolding safe_step_io .

lemma safe_file_write_all: "file_write_all st bs = (st', r) \<Longrightarrow> safe_step st st'"
  by (auto simp: file_write_all_def dest!: pop_io_eq split: prod.splits io_outcome.splits)

lemma safe_flush_buf: "flush_buf st = (st', r) \<Longrightarrow> safe_step st st'"
  by (auto simp: flush_buf_def dest: safe_file_write_all split: prod.splits option.splits if_splits)

lemma safe_sync_data:
  assumes "sync_data st = (st', r)"
  shows "safe_step st st'"
proof -
  have "safe_step (st\<lparr>ws_io := io\<rparr>)
      (set_cur_file (cur_file st\<lparr>lf_synced := length (lf_bytes (cur_file st))\<rparr>) (st\<lparr>ws_io := io\<rparr>))" for io
    using safe_sync [of "st\<lparr>ws_io := io\<rparr>"] unfolding safe_step_io by (simp add: cur_file_def)
  with assms show ?thesis
    by (auto simp: sync_data_def dest!: pop_io_eq split: prod.splits io_outcome.splits)
qed

lemma safe_open_append:
  assumes "open_append path st = (st', r)"
  shows "safe_step st st'"
proof -
  have "safe_step st (create_if_absent path (st\<lparr>ws_io := io\<rparr>))" for io
    using safe_create [of "st\<lparr>ws_io := io\<rparr>" path] unfolding safe_step_io .
  with assms show ?thesis
    by (auto simp: open_append_def dest!: pop_io_eq split: prod.splits io_outcome.splits)
qed

lemma safe_buf_write_all:
  assumes "buf_write_all st bs = (st', r)"
  shows "safe_step st st'"
proof -
  obtain st1 r1 where f: "(if buf_capacity - length (ws_buf st) < length bs then flush_buf st else (st, None)) = (st1, r1)"
    by fastforce
  then have one: "safe_step st st1"
    using safe_flush_buf by (auto split: if_splits)
  obtain st2 r2 where w: "file_write_all st1 bs = (st2, r2)" by fastforce
  have "safe_step st st2"
    using one safe_file_write_all [OF w] safe_step_trans by blast
  with assms f w one show ?thesis
    by (auto simp: buf_write_all_def Let_def split: if_splits option.splits)
qed

lemma safe_write_parts: "write_parts st ps = (st', ok) \<Longrightarrow> safe_step st st'"
proof (induction st ps rule: write_parts.induct)
  case (2 st p ps)
  obtain st1 r where w: "buf_write_all st p = (st1, r)" by fastforce
  note one = safe_buf_write_all [OF w]
  show ?case
  proof (cases r)
    case None
    with "2.prems" w have "write_parts st1 ps = (st', ok)" by simp
    with "2.IH" [OF w [symmetric] None] one show ?thesis
      using safe_step_trans by blast
  next
    case (Some e)
    with "2.prems" w one show ?thesis by simp
  qed
qed simp

lemma safe_count_frame [simp]: "safe_step st (count_frame ev st') = safe_step st st'"
  by (rule safe_step_files) (simp add: count_frame_def)

lemma safe_write_batch: "write_batch crc st reqs = (st', xs, ok) \<Longrightarrow> safe_step st st'"
proof (induction crc st reqs arbitrary: st' xs ok rule: write_batch.induct)
  case (2 crc st req reqs)
  obtain st1 ok1 where w: "write_parts st (frame_parts crc (req_event req)) = (st1, ok1)"
    by fastforce
  note one = safe_write_parts [OF w]
  show ?case
  proof (cases ok1)
    case True
    obtain st2 ys ok2 where rest: "write_batch crc (count_frame (req_event req) st1) reqs = (st2, ys, ok2)"
      by (cases "write_batch crc (count_frame (req_event req) st1) reqs") auto
    have "safe_step (count_frame (req_event req) st1) st2"
      using "2.IH" [OF w [symmetric] _ refl rest] True by simp
    moreover have "safe_step st (count_frame (req_event req) st1)"
      using one by simp
    ultimately have "safe_step st st2"
      by (rule safe_step_trans [rotated])
    with "2.prems" w True rest show ?thesis by (simp add: Let_def)
  next
    case False
    with "2.prems" w one show ?thesis by simp
  qed
qed simp

lemma safe_rotate_file: "safe_step st (rotate_file st)"
proof -
  obtain st1 r1 where f: "flush_buf st = (st1, r1)" by fastforce
  obtain st2 r2 where s: "sync_data st1 = (st2, r2)" by fastforce
  define path where "path = wal_file_name (ws_current_offset st2)"
  define st3 where "st3 = st2\<lparr>ws_file_start_offset := ws_current_offset st2, ws_path := path\<rparr>"
  obtain st4 r4 where opn: "open_append path st3 = (st4, r4)" by fastforce
  have "safe_step st st2"
    using safe_flush_buf [OF f] safe_sync_data [OF s] by (rule safe_step_trans)
  then have "safe_step st st3"
    using safe_step_files [of st3 st2 st] by (simp add: st3_def)
  then have "safe_step st st4"
    using safe_open_append [OF opn] by (rule safe_step_trans)
  moreover have "ws_files (rotate_file st) = ws_files st4"
    using f s opn by (simp add: rotate_file_def Let_def path_def st3_def split: option.split)
  ultimately show ?thesis
    using safe_step_files by blast
qed

lemma safe_process_batch:
  assumes "process_batch crc st batch = (st', replies, sent)"
  shows "safe_step st st'"
proof -
  obtain st1 xs ok1 where w: "write_batch crc st batch = (st1, xs, ok1)"
    by (cases "write_batch crc st batch") auto
  obtain st2 e2 where fl: "flush_buf st1 = (st2, e2)" by fastforce
  obtain st3 e3 where sy: "sync_data st2 = (st3, e3)" by fastforce
  obtain st3' e3' where sy': "sync_data st1 = (st3', e3')" by fastforce
  have "safe_step st st1" using safe_write_batch [OF w] .
  moreover from this have "safe_step st st2" using safe_flush_buf [OF fl] safe_step_trans by blast
  moreover from this have "safe_step st st3" using safe_sync_data [OF sy] safe_step_trans by blast
  moreover from this have "safe_step st (rotate_file st3)" using safe_rotate_file safe_step_trans by blast
  ultimately show ?thesis
    using assms w fl sy by (auto simp: process_batch_def Let_def split: if_splits)
qed

section \<open>Durable events\<close>

text \<open>The frame of an event lies in the part of some file that is on the disk.\<close>

definition durable :: "(u8 list \<Rightarrow> u32) \<Rightarrow> wal_state \<Rightarrow> IngestEvent \<Rightarrow> bool" where
  "durable crc st ev \<longleftrightarrow>
     (\<exists>p f pre post. ws_files st p = Some f \<and> lf_bytes f = pre @ encode_frame crc ev @ post \<and>
        length (pre @ encode_frame crc ev) \<le> lf_synced f)"

lemma durable_grows: "grows st st' \<Longrightarrow> durable crc st ev \<Longrightarrow> durable crc st' ev"
proof -
  assume g: "grows st st'" and "durable crc st ev"
  then obtain p f pre post where f: "ws_files st p = Some f"
      "lf_bytes f = pre @ encode_frame crc ev @ post" "length (pre @ encode_frame crc ev) \<le> lf_synced f"
    by (auto simp: durable_def)
  from g f(1) obtain f' more where "ws_files st' p = Some f'" "lf_bytes f' = lf_bytes f @ more"
      "lf_synced f \<le> lf_synced f'"
    unfolding grows_def prefix_def by blast
  with f show ?thesis
    unfolding durable_def
    by (intro exI [of _ p] exI [of _ f'] exI [of _ pre] exI [of _ "post @ more"]) auto
qed

lemma durable_in_file:
  assumes "ws_files st p = Some f" "lf_bytes f = s @ concat (map (encode_frame crc \<circ> req_event) batch)"
    and "lf_synced f = length (lf_bytes f)" "req \<in> set batch"
  shows "durable crc st (req_event req)"
proof -
  obtain xs ys where "batch = xs @ req # ys"
    using assms(4) by (meson split_list)
  then have "lf_bytes f = (s @ concat (map (encode_frame crc \<circ> req_event) xs)) @
      encode_frame crc (req_event req) @ concat (map (encode_frame crc \<circ> req_event) ys)"
    using assms(2) by simp
  with assms(1,3) show ?thesis
    unfolding durable_def
    by (intro exI [of _ p] exI [of _ f] exI [of _ "s @ concat (map (encode_frame crc \<circ> req_event) xs)"]
        exI [of _ "concat (map (encode_frame crc \<circ> req_event) ys)"]) simp
qed

text \<open>A request and its answer: the same identity, and if acknowledged, then durable and sent on.\<close>

definition answer_ok ::
    "(u8 list \<Rightarrow> u32) \<Rightarrow> wal_state \<Rightarrow> (IngestEvent \<times> u64) list \<Rightarrow> WalRequest \<Rightarrow> nat \<times> reply \<Rightarrow> bool" where
  "answer_ok crc st sent req r \<longleftrightarrow>
     fst r = req_id req \<and>
     (snd r = Acked \<longrightarrow> durable crc st (req_event req) \<and> req_event req \<in> fst ` set sent)"

definition acked_durable :: "(u8 list \<Rightarrow> u32) \<Rightarrow> appender \<times> WalRequest list \<Rightarrow> bool" where
  "acked_durable crc s \<longleftrightarrow>
     synced_ok (ap_wal (fst s)) \<and>
     (\<exists>done. snd s = done @ ap_queue (fst s) \<and>
        list_all2 (answer_ok crc (ap_wal (fst s)) (ap_sent (fst s))) done (ap_replies (fst s)))"

lemma process_batch_answers:
  assumes "process_batch crc st batch = (st', replies, sent)"
  shows "list_all2 (answer_ok crc st' sent) batch replies"
proof -
  have ids: "map fst replies = map req_id batch"
    by (rule process_batch_ids [OF assms])
  then have len: "length batch = length replies"
    by (metis length_map)
  have "fst (replies ! i) = req_id (batch ! i)" if "i < length batch" for i
    using ids that len by (metis nth_map)
  moreover have "durable crc st' (req_event (batch ! i)) \<and> req_event (batch ! i) \<in> fst ` set sent"
    if "i < length batch" "snd (replies ! i) = Acked" for i
  proof -
    have "(fst (replies ! i), Acked) \<in> set replies"
      using that len by (metis nth_mem prod.collapse)
    note acked = process_batch_durable [OF assms this]
    have "durable crc st' (req_event (batch ! i))"
      using acked(3) that(1) durable_in_file nth_mem by metis
    moreover have "fst ` set sent = set (map req_event batch)"
      using acked(2) map_fst_stamped by (metis list.set_map)
    ultimately show ?thesis using that(1) by simp
  qed
  ultimately show ?thesis
    using len by (simp add: list_all2_conv_all_nth answer_ok_def)
qed

lemma acked_durable_step: "acked_durable crc s \<Longrightarrow> acked_durable crc (counted_step crc s e)"
proof (cases e)
  case (Arrive req)
  assume "acked_durable crc s"
  then show ?thesis
    by (auto simp: acked_durable_def counted_step_def Arrive)
next
  case RunLoopBody
  assume inv: "acked_durable crc s"
  show ?thesis
  proof (cases "ap_queue (fst s)")
    case Nil
    with inv RunLoopBody show ?thesis by (simp add: counted_step_def)
  next
    case (Cons req queue)
    obtain batch queue' where d: "drain_queue [req] queue = (batch, queue')" by fastforce
    obtain st replies sent where p: "process_batch crc (ap_wal (fst s)) batch = (st, replies, sent)"
      by (cases "process_batch crc (ap_wal (fst s)) batch") auto
    obtain "done" where old: "snd s = done @ ap_queue (fst s)" "synced_ok (ap_wal (fst s))"
        "list_all2 (answer_ok crc (ap_wal (fst s)) (ap_sent (fst s))) done (ap_replies (fst s))"
      using inv by (auto simp: acked_durable_def)
    have safe: "grows (ap_wal (fst s)) st" "synced_ok st"
      using safe_process_batch [OF p] old(2) by (auto simp: safe_step_def)
    let ?ok = "answer_ok crc st (ap_sent (fst s) @ sent)"
    have "list_all2 ?ok done (ap_replies (fst s))"
      by (rule list_all2_mono [OF old(3)]) (use durable_grows [OF safe(1)] in \<open>auto simp: answer_ok_def\<close>)
    moreover have "list_all2 ?ok batch replies"
      by (rule list_all2_mono [OF process_batch_answers [OF p]]) (auto simp: answer_ok_def)
    ultimately have "list_all2 ?ok (done @ batch) (ap_replies (fst s) @ replies)"
      by (rule list_all2_appendI)
    moreover have "snd s = (done @ batch) @ queue'"
      using old(1) Cons drain_queue_append [OF d] by simp
    ultimately show ?thesis
      using safe(2) RunLoopBody Cons d p by (auto simp: acked_durable_def counted_step_def)
  qed
qed

interpretation durable_run: invariant_machine "counted_step crc" "acked_durable crc" for crc
  by unfold_locales (rule acked_durable_step)

lemma start_wal_synced:
  assumes "start_wal off files io = Some w" "\<And>p f. files p = Some f \<Longrightarrow> lf_synced f \<le> length (lf_bytes f)"
  shows "synced_ok w"
  using assms
  by (fastforce simp: start_wal_def Let_def open_append_def create_if_absent_def synced_ok_def
      dest!: pop_io_eq split: prod.splits io_outcome.splits if_splits)

lemma durable_if_acked:
  assumes "start_wal off files io = Some w"
    and "\<And>p f. files p = Some f \<Longrightarrow> lf_synced f \<le> length (lf_bytes f)"
    and "a = foldl (appender_step crc) \<lparr>ap_queue = [], ap_wal = w, ap_replies = [], ap_sent = []\<rparr> es"
    and "distinct (map req_id (arrivals es))"
    and "req \<in> set (arrivals es)" "(req_id req, Acked) \<in> set (ap_replies a)"
  shows "durable crc (ap_wal a) (req_event req)" "req_event req \<in> fst ` set (ap_sent a)"
proof -
  let ?a0 = "\<lparr>ap_queue = [], ap_wal = w, ap_replies = [], ap_sent = []\<rparr>"
  have "acked_durable crc (?a0, [])"
    using start_wal_synced [OF assms(1,2)] by (simp add: acked_durable_def)
  then have "acked_durable crc (foldl (counted_step crc) (?a0, []) es)"
    by (rule durable_run.run_inv)
  then have "acked_durable crc (a, arrivals es)"
    by (simp add: counted_run arrivals_def assms(3))
  then obtain "done" where d: "arrivals es = done @ ap_queue a"
    "list_all2 (answer_ok crc (ap_wal a) (ap_sent a)) done (ap_replies a)"
    by (auto simp: acked_durable_def)
  obtain i where i: "i < length (ap_replies a)" "ap_replies a ! i = (req_id req, Acked)"
    using assms(6) by (metis in_set_conv_nth)
  then have "i < length done" "req_id (done ! i) = req_id req" 
      "durable crc (ap_wal a) (req_event (done ! i)) \<and> req_event (done ! i) \<in> fst ` set (ap_sent a)"
    using d(2) by (auto simp: list_all2_conv_all_nth answer_ok_def)
  moreover have "done ! i \<in> set (arrivals es)"
    using \<open>i < length done\<close> d(1) by simp
  moreover have "inj_on req_id (set (arrivals es))"
    using assms(4) by (simp add: distinct_map)
  ultimately have "durable crc (ap_wal a) (req_event req) \<and> req_event req \<in> fst ` set (ap_sent a)"
    using assms(5) by (metis inj_onD)
  then show "durable crc (ap_wal a) (req_event req)" "req_event req \<in> fst ` set (ap_sent a)"
    by blast+
qed

text \<open>
  Acknowledged means durable, for ever: start the appender on any directory, with any script of
  I/O errors, and let requests arrive and be processed in any interleaving. Whenever a request
  has been answered \<open>Ok\<close>, its frame is in the part of a log file that is on the disk, and
  stays there whatever fails afterwards.
\<close>

theorem acked_stays_durable:
  assumes "start_wal off files io = Some w"
    and "\<And>p f. files p = Some f \<Longrightarrow> lf_synced f \<le> length (lf_bytes f)"
    and "a = foldl (appender_step crc) \<lparr>ap_queue = [], ap_wal = w, ap_replies = [], ap_sent = []\<rparr> es"
    and "distinct (map req_id (arrivals es))"
    and "req \<in> set (arrivals es)" "(req_id req, Acked) \<in> set (ap_replies a)"
  shows "durable crc (ap_wal a) (req_event req)"
  using assms by (rule durable_if_acked(1))

section \<open>The events the task receives\<close>

definition acked_events :: "WalRequest list \<Rightarrow> (nat \<times> reply) list \<Rightarrow> IngestEvent list" where
  "acked_events reqs replies = [req_event req. (req, (_, answer)) \<leftarrow> zip reqs replies, answer = Acked]"

lemma acked_events_append:
  "length reqs = length replies \<Longrightarrow>
   acked_events (reqs @ reqs') (replies @ replies') = acked_events reqs replies @ acked_events reqs' replies'"
  by (simp add: acked_events_def)

lemma acked_events_extra: "length reqs = length replies \<Longrightarrow> acked_events (reqs @ waiting) replies = acked_events reqs replies"
  using acked_events_append [of reqs replies waiting "[]"] by (simp add: acked_events_def)

lemma acked_events_none: "(\<And>i. (i, Acked) \<notin> set replies) \<Longrightarrow> acked_events reqs replies = []"
  by (auto simp: acked_events_def dest!: set_zip_rightD)

lemma batch_sent_acked:
  assumes "process_batch crc st batch = (st', replies, sent)"
  shows "length replies = length batch" "map fst sent = acked_events batch replies"
proof -
  show "length replies = length batch"
    using process_batch_ids [OF assms] by (metis length_map)
  have "map (\<lambda>(req, _). req_event req) (filter (\<lambda>(_, r). snd r = Acked) ps) =
      [req_event req. (req, (_, answer)) \<leftarrow> ps, answer = Acked]" for ps :: "(WalRequest \<times> nat \<times> reply) list"
    by (induction ps) auto
  then show "map fst sent = acked_events batch replies"
    by (simp add: acked_events_def process_batch_sent [OF assms])
qed

definition sent_in_order :: "appender \<times> WalRequest list \<Rightarrow> bool" where
  "sent_in_order s \<longleftrightarrow>
     (\<exists>done. snd s = done @ ap_queue (fst s) \<and> length done = length (ap_replies (fst s)) \<and>
        map fst (ap_sent (fst s)) = acked_events done (ap_replies (fst s)))"

lemma sent_in_order_step: "sent_in_order s \<Longrightarrow> sent_in_order (counted_step crc s e)"
proof (cases e)
  case (Arrive req)
  assume "sent_in_order s"
  then show ?thesis
    by (auto simp: sent_in_order_def counted_step_def Arrive)
next
  case RunLoopBody
  assume inv: "sent_in_order s"
  show ?thesis
  proof (cases "ap_queue (fst s)")
    case Nil
    with inv RunLoopBody show ?thesis by (simp add: sent_in_order_def counted_step_def)
  next
    case (Cons req queue)
    obtain batch queue' where d: "drain_queue [req] queue = (batch, queue')" by fastforce
    obtain st replies sent where p: "process_batch crc (ap_wal (fst s)) batch = (st, replies, sent)"
      by (cases "process_batch crc (ap_wal (fst s)) batch") auto
    obtain "done" where old: "snd s = done @ ap_queue (fst s)" "length done = length (ap_replies (fst s))"
        "map fst (ap_sent (fst s)) = acked_events done (ap_replies (fst s))"
      using inv by (auto simp: sent_in_order_def)
    have "snd s = (done @ batch) @ queue'"
      using old(1) Cons drain_queue_append [OF d] by simp
    then show ?thesis
      using old(2,3) batch_sent_acked [OF p] RunLoopBody Cons d p
      by (auto simp: sent_in_order_def counted_step_def acked_events_append intro!: exI [of _ "done @ batch"])
  qed
qed

interpretation sent: invariant_machine "counted_step crc" sent_in_order for crc
  by unfold_locales (rule sent_in_order_step)

lemma sent_acked:
  assumes "a = foldl (appender_step crc) \<lparr>ap_queue = [], ap_wal = w, ap_replies = [], ap_sent = []\<rparr> es"
  shows "map fst (ap_sent a) = acked_events (arrivals es) (ap_replies a)"
proof -
  let ?a0 = "\<lparr>ap_queue = [], ap_wal = w, ap_replies = [], ap_sent = []\<rparr>"
  have "sent_in_order (foldl (counted_step crc) (?a0, []) es)"
    by (rule sent.run_inv) (simp add: sent_in_order_def acked_events_def)
  then show ?thesis
    using acked_events_extra by (auto simp: counted_run arrivals_def [symmetric] sent_in_order_def assms)
qed

section \<open>Witness\<close>

text \<open>A healthy log, started empty, to which one request is sent.\<close>

definition run1 :: "wal_state \<Rightarrow> appender" where
  "run1 w = foldl (appender_step (\<lambda>_. 7)) \<lparr>ap_queue = [], ap_wal = w, ap_replies = [], ap_sent = []\<rparr>
     [Arrive req1, RunLoopBody]"

lemma run1_acked:
  assumes "start_wal 0 Map.empty [] = Some w"
  shows "ap_replies (run1 w) = [(1, Acked)]"
proof -
  obtain st replies sent where p: "process_batch (\<lambda>_. 7) w [req1] = (st, replies, sent)"
    by (cases "process_batch (\<lambda>_. 7) w [req1]") auto
  have "replies = [(1, Acked)]"
    using p start_wal_healthy(1) [OF assms] by (cases rule: process_batch_cases) (simp_all add: req1_def)
  with p show ?thesis by (simp add: run1_def)
qed

theorem acked_stays_durable_witness:
  "\<exists>w. start_wal 0 Map.empty [] = Some w \<and> durable (\<lambda>_. 7) (ap_wal (run1 w)) ev1"
proof -
  obtain w where w: "start_wal 0 Map.empty [] = Some w"
    using start_wal_starts by blast
  have "durable (\<lambda>_. 7) (ap_wal (run1 w)) (req_event req1)"
    by (rule acked_stays_durable [OF w _ run1_def]) (simp_all add: arrivals_def run1_acked [OF w] req1_def)
  with w show ?thesis by (auto simp: req1_def)
qed

end
