(* ===== verification/Ingest_Routes.thy ===== *)
theory Ingest_Routes
  imports Wal_Durable Json
begin

text \<open>
  The two ingestion endpoints of \<open>src/ingestion/routes.rs\<close>: what they read from the body of a
  request, what they send to the appender, and how they answer. The channel is a script of
  outcomes of \<open>send\<close> (a script that has run out means that the channel is open); the answers
  of the appender are an argument, so that they can be taken from a run of it.
\<close>

section \<open>Lines of a body\<close>

text \<open>
  \<open>str::lines\<close>: pieces that end with a line feed, without it and without a carriage return
  before it. A last piece without a line feed is kept as it is.
\<close>

abbreviation LF :: char where "LF \<equiv> CHR 0x0A"
abbreviation CR :: char where "CR \<equiv> CHR 0x0D"

fun split_inclusive :: "string \<Rightarrow> string list" where
  "split_inclusive [] = []"
| "split_inclusive (c # cs) =
     (if c = LF then [c] # split_inclusive cs
      else case split_inclusive cs of [] \<Rightarrow> [[c]] | l # ls \<Rightarrow> (c # l) # ls)"

definition strip_last :: "char \<Rightarrow> string \<Rightarrow> string option" where
  "strip_last c s = (if s \<noteq> [] \<and> last s = c then Some (butlast s) else None)"

definition strip_eol :: "string \<Rightarrow> string" where
  "strip_eol line =
     (case strip_last LF line of
        None \<Rightarrow> line
      | Some l \<Rightarrow> (case strip_last CR l of None \<Rightarrow> l | Some l' \<Rightarrow> l'))"

definition str_lines :: "string \<Rightarrow> string list" where
  "str_lines s = map strip_eol (split_inclusive s)"

definition blank :: "string \<Rightarrow> bool" where
  "blank l \<longleftrightarrow> trim l = []"

lemma split_inclusive_line: "LF \<notin> set l \<Longrightarrow> split_inclusive (l @ LF # s) = (l @ [LF]) # split_inclusive s"
  by (induction l) auto

lemma strip_eol_line: "LF \<notin> set l \<Longrightarrow> l = [] \<or> last l \<noteq> CR \<Longrightarrow> eol \<in> {[LF], [CR, LF]} \<Longrightarrow>
  strip_eol (l @ eol) = l"
  by (auto simp: strip_eol_def strip_last_def butlast_append)

text \<open>A body written line by line, with either line end, is read back line by line.\<close>

lemma str_lines_written:
  "\<forall>(l, eol) \<in> set ls. LF \<notin> set l \<and> (l = [] \<or> last l \<noteq> CR) \<and> eol \<in> {[LF], [CR, LF]} \<Longrightarrow>
   str_lines (concat (map (\<lambda>(l, eol). l @ eol) ls)) = map fst ls"
proof (induction ls)
  case Nil
  then show ?case by (simp add: str_lines_def)
next
  case (Cons e ls)
  obtain l eol where e: "e = (l, eol)" by (cases e)
  with Cons.prems have ok: "LF \<notin> set l" "l = [] \<or> last l \<noteq> CR" "eol \<in> {[LF], [CR, LF]}"
    by auto
  obtain pre where eol: "eol = pre @ [LF]" "LF \<notin> set pre"
    using ok(3) by auto
  have "split_inclusive ((l @ pre) @ LF # s) = ((l @ pre) @ [LF]) # split_inclusive s" for s
    by (rule split_inclusive_line) (use ok eol in auto)
  then have "split_inclusive (l @ eol @ s) = (l @ eol) # split_inclusive s" for s
    by (simp add: eol)
  moreover have "strip_eol (l @ eol) = l"
    using ok by (rule strip_eol_line)
  ultimately show ?case
    using Cons by (simp add: e str_lines_def)
qed

section \<open>The single endpoint\<close>

type_synonym http_response = "(nat \<times> string) + (nat \<times> json)"

definition json_number :: "nat \<Rightarrow> json" where
  "json_number n = JNumber (PosInt (of_nat n))"

definition created_body :: "string \<Rightarrow> json" where
  "created_body index =
     JObject [(''_index'', JString index),
       (''_shards'', JObject [(''failed'', json_number 0), (''successful'', json_number 1),
          (''total'', json_number 1)]),
       (''result'', JString ''created'')]"

text \<open>
  The outcome of a \<open>send\<close> and the remaining script; the event that enters the channel, and
  the answer of the handler for each answer of the appender.
\<close>

fun chan_send :: "bool list \<Rightarrow> bool \<times> bool list" where
  "chan_send [] = (True, [])"
| "chan_send (ok # script) = (ok, script)"

definition ingest_event :: "string \<Rightarrow> string \<Rightarrow> IngestEvent" where
  "ingest_event index payload = \<lparr>ev_index = index, ev_payload = as_bytes payload\<rparr>"

definition ingest_doc_handler ::
    "bool list \<Rightarrow> reply \<Rightarrow> string \<Rightarrow> string \<Rightarrow> IngestEvent list \<times> http_response" where
  "ingest_doc_handler script answer index body =
     (if \<not> fst (chan_send script) then ([], Inl (500, ''WAL channel closed''))
      else ([ingest_event index body],
        (case answer of
           Acked \<Rightarrow> Inr (201, created_body index)
         | Failed e \<Rightarrow> Inl (500, e)
         | Dropped \<Rightarrow> Inl (500, ''WAL responder dropped''))))"

section \<open>The bulk endpoint\<close>

text \<open>
  The index named by a line of metadata. \<open>from_str\<close> is the JSON parser; text it refuses
  counts as \<open>Null\<close>.
\<close>

definition meta_index :: "(string \<Rightarrow> json option) \<Rightarrow> string \<Rightarrow> string" where
  "meta_index from_str meta_line =
     (let meta = (case from_str meta_line of Some v \<Rightarrow> v | None \<Rightarrow> JNull)
      in case json_get meta ''index'' of
           None \<Rightarrow> ''default''
         | Some i \<Rightarrow>
             (case json_get i ''_index'' of
                None \<Rightarrow> ''default''
              | Some n \<Rightarrow> (case as_str n of None \<Rightarrow> ''default'' | Some s \<Rightarrow> s)))"

text \<open>
  The sending loop over the non-blank lines: the events sent, and whether the loop ended
  because the channel was closed.
\<close>

fun bulk_send ::
    "(string \<Rightarrow> json option) \<Rightarrow> bool list \<Rightarrow> string list \<Rightarrow> IngestEvent list \<times> bool" where
  "bulk_send from_str script (meta_line # doc_line # rest) =
     (let index = meta_index from_str meta_line
      in case chan_send script of
           (False, _) \<Rightarrow> ([], True)
         | (True, script') \<Rightarrow>
             (case bulk_send from_str script' rest of
                (evs, closed) \<Rightarrow> (ingest_event index doc_line # evs, closed)))"
| "bulk_send from_str script _ = ([], False)"

definition bulk_item :: "string \<Rightarrow> nat \<Rightarrow> json" where
  "bulk_item index status =
     JObject [(''index'', JObject [(''_index'', JString index), (''status'', json_number status)])]"

text \<open>The loop over the receivers: the items, and whether some answer was not \<open>Ok\<close>.\<close>

fun bulk_collect :: "(string \<times> reply) list \<Rightarrow> json list \<times> bool" where
  "bulk_collect [] = ([], False)"
| "bulk_collect ((index, answer) # rest) =
     (case bulk_collect rest of
        (items, has_errors) \<Rightarrow>
          (if answer = Acked then (bulk_item index 201 # items, has_errors)
           else (bulk_item index 500 # items, True)))"

definition bulk_body :: "json list \<Rightarrow> bool \<Rightarrow> json" where
  "bulk_body items has_errors =
     JObject [(''errors'', JBool has_errors), (''items'', JArray items), (''took'', json_number 1)]"

definition bulk_handler ::
    "(string \<Rightarrow> json option) \<Rightarrow> bool list \<Rightarrow> reply list \<Rightarrow> string \<Rightarrow>
     IngestEvent list \<times> http_response" where
  "bulk_handler from_str script answers body =
     (case bulk_send from_str script (filter (\<lambda>l. \<not> blank l) (str_lines body)) of
        (evs, True) \<Rightarrow> (evs, Inl (500, ''WAL channel closed''))
      | (evs, False) \<Rightarrow>
          (case bulk_collect (zip (map ev_index evs) answers) of
             (items, has_errors) \<Rightarrow> (evs, Inr (200, bulk_body items has_errors))))"

section \<open>What is sent\<close>

lemma bulk_send_pairs:
  "bulk_send from_str [] (concat (map (\<lambda>(m, d). [m, d]) docs)) =
    (map (\<lambda>(m, d). ingest_event (meta_index from_str m) d) docs, False)"
  by (induction docs) auto

lemma bulk_collect_eq:
  "bulk_collect xs =
    (map (\<lambda>(index, answer). bulk_item index (if answer = Acked then 201 else 500)) xs,
     \<exists>x \<in> set xs. snd x \<noteq> Acked)"
  by (induction xs rule: bulk_collect.induct) (auto split: if_splits)

lemma bex_zip_snd: "length xs = length ys \<Longrightarrow> (\<exists>x \<in> set (zip xs ys). P (snd x)) \<longleftrightarrow> (\<exists>y \<in> set ys. P y)"
  by (induction xs ys rule: list_induct2) auto

text \<open>A closed channel cuts the events off at some point; with an open one all are sent.\<close>

lemma bulk_send_prefix:
  "bulk_send from_str script ls = (evs, closed) \<Longrightarrow>
   \<exists>more. fst (bulk_send from_str [] ls) = evs @ more \<and> (closed \<longleftrightarrow> more \<noteq> [])"
proof (induction from_str script ls arbitrary: evs closed rule: bulk_send.induct)
  case (1 from_str script m d rest)
  show ?case
  proof (cases "chan_send script")
    case (Pair ok script')
    obtain evs' closed' where r: "bulk_send from_str script' rest = (evs', closed')" by fastforce
    obtain evs0 closed0 where r0: "bulk_send from_str [] rest = (evs0, closed0)" by fastforce
    show ?thesis
    proof (cases ok)
      case True
      with "1.IH" [OF refl Pair [symmetric] True [THEN eqTrueI] r] "1.prems" Pair r r0 show ?thesis
        by auto
    next
      case False
      with "1.prems" Pair r0 show ?thesis by auto
    qed
  qed
qed simp_all

lemma meta_index_index:
  "from_str m = Some (JObject [(''index'', JObject [(''_index'', JString i)])]) \<Longrightarrow>
   meta_index from_str m = i"
  by (simp add: meta_index_def json_get_def)

text \<open>
  C16. The bulk endpoint reads what a client writes: lines with either line end, blank lines
  anywhere, and for each document a line of metadata that names its index. Exactly these
  documents are sent to the appender, in order, each with the bytes of its line; the answer has
  one item per document, in the same order, with status 201 exactly where the appender
  answered \<open>Ok\<close>, and the error flag is set exactly if some item failed.
\<close>

theorem bulk_roundtrip:
  assumes "\<forall>(l, eol) \<in> set ls. LF \<notin> set l \<and> (l = [] \<or> last l \<noteq> CR) \<and> eol \<in> {[LF], [CR, LF]}"
    and "filter (\<lambda>l. \<not> blank l) (map fst ls) = concat (map (\<lambda>(m, i, d). [m, d]) docs)"
    and "\<forall>(m, i, d) \<in> set docs. from_str m = Some (JObject [(''index'', JObject [(''_index'', JString i)])])"
    and "length answers = length docs"
  shows "bulk_handler from_str [] answers (concat (map (\<lambda>(l, eol). l @ eol) ls)) =
    (map (\<lambda>(m, i, d). ingest_event i d) docs,
     Inr (200, bulk_body
       (map (\<lambda>((m, i, d), answer). bulk_item i (if answer = Acked then 201 else 500)) (zip docs answers))
       (\<exists>answer \<in> set answers. answer \<noteq> Acked)))"
proof -
  have lines: "str_lines (concat (map (\<lambda>(l, eol). l @ eol) ls)) = map fst ls"
    using assms(1) by (rule str_lines_written)
  have "concat (map (\<lambda>(m, i, d). [m, d]) docs) = concat (map (\<lambda>(m, d). [m, d]) (map (\<lambda>(m, i, d). (m, d)) docs))"
    by (induction docs) auto
  then have send: "bulk_send from_str [] (concat (map (\<lambda>(m, i, d). [m, d]) docs)) =
      (map (\<lambda>(m, i, d). ingest_event (meta_index from_str m) d) docs, False)"
    by (simp only: bulk_send_pairs) (simp add: comp_def case_prod_beta)
  have evs: "map (\<lambda>(m, i, d). ingest_event (meta_index from_str m) d) docs =
      map (\<lambda>(m, i, d). ingest_event i d) docs"
    using assms(3) by (auto simp: meta_index_index)
  have "map ev_index (map (\<lambda>(m, i, d). ingest_event i d) docs) = map (\<lambda>(m, i, d). i) docs"
    by (simp add: ingest_event_def comp_def case_prod_beta)
  moreover have "(\<exists>x \<in> set (zip (map (\<lambda>(m, i, d). i) docs) answers). snd x \<noteq> Acked) =
      (\<exists>answer \<in> set answers. answer \<noteq> Acked)"
    using assms(4) by (intro bex_zip_snd) simp
  moreover have "map (\<lambda>(i, answer). bulk_item i (if answer = Acked then 201 else 500))
        (zip (map (\<lambda>(m, i, d). i) docs) answers) =
      map (\<lambda>((m, i, d), answer). bulk_item i (if answer = Acked then 201 else 500)) (zip docs answers)"
    by (simp add: zip_map1 comp_def case_prod_beta)
  ultimately show ?thesis
    by (simp only: bulk_handler_def lines assms(2) send evs bulk_collect_eq prod.case bool.case)
qed

text \<open>
  When the channel to the appender closes during a bulk request, the answer is the error
  500 alone, although the documents before that point, a proper prefix of those in the body,
  have been handed to the appender and may well be stored.
\<close>

theorem bulk_closed_prefix:
  assumes "bulk_handler from_str script answers body = (evs, Inl e)"
  shows "e = (500, ''WAL channel closed'') \<and>
    (\<exists>more. more \<noteq> [] \<and> fst (bulk_handler from_str [] answers body) = evs @ more)"
proof -
  let ?ls = "filter (\<lambda>l. \<not> blank l) (str_lines body)"
  obtain evs' closed where s: "bulk_send from_str script ?ls = (evs', closed)" by fastforce
  obtain evs0 closed0 where s0: "bulk_send from_str [] ?ls = (evs0, closed0)" by fastforce
  have "closed" "evs' = evs" "e = (500, ''WAL channel closed'')"
    using assms s by (auto simp: bulk_handler_def split: bool.splits prod.splits)
  moreover from this obtain more where "evs0 = evs @ more" "more \<noteq> []"
    using bulk_send_prefix [OF s] s0 by auto
  moreover have "fst (bulk_handler from_str [] answers body) = evs0"
    using s0 by (auto simp: bulk_handler_def split: bool.splits prod.splits)
  ultimately show ?thesis by blast
qed

text \<open>
  Action lines other than \<open>index\<close> are not understood. A delete action, which has no
  document line, makes the endpoint store the next action line as a document of the index
  \<open>default\<close>, drop the document that followed it, and answer without any error.
\<close>

theorem bulk_delete_shifts:
  assumes "filter (\<lambda>l. \<not> blank l) (str_lines body) = [del, meta, doc]"
    and "from_str del = Some (JObject [(''delete'', v)])"
  shows "bulk_handler from_str [] [Acked] body =
    ([ingest_event ''default'' meta], Inr (200, bulk_body [bulk_item ''default'' 201] False))"
  using assms
  by (simp add: bulk_handler_def meta_index_def json_get_def ingest_event_def)

section \<open>From the answer to the disk\<close>

lemma bulk_handler_items:
  assumes "bulk_handler from_str script answers body = (evs, Inr (status, bulk_body items errs))"
    and "length answers = length evs"
  shows "length items = length evs"
    and "i < length evs \<Longrightarrow> items ! i = bulk_item (ev_index (evs ! i)) (if answers ! i = Acked then 201 else 500)"
    and "errs \<longleftrightarrow> (\<exists>answer \<in> set answers. answer \<noteq> Acked)"
proof -
  have items: "items = map (\<lambda>(index, answer). bulk_item index (if answer = Acked then 201 else 500))
      (zip (map ev_index evs) answers)"
    and errs: "errs \<longleftrightarrow> (\<exists>x \<in> set (zip (map ev_index evs) answers). snd x \<noteq> Acked)"
    using assms(1)
    by (auto simp: bulk_handler_def bulk_collect_eq bulk_body_def split: bool.splits prod.splits)
  show "length items = length evs" using items assms(2) by simp
  show "i < length evs \<Longrightarrow> items ! i = bulk_item (ev_index (evs ! i)) (if answers ! i = Acked then 201 else 500)"
    using items assms(2) by simp
  show "errs \<longleftrightarrow> (\<exists>answer \<in> set answers. answer \<noteq> Acked)"
    unfolding errs using assms(2) by (intro bex_zip_snd) simp
qed

lemma bulk_item_created [simp]: "bulk_item i (if b then 201 else 500) = bulk_item i 201 \<longleftrightarrow> b"
  by (simp add: bulk_item_def json_number_def)

text \<open>
  From the HTTP answer to the disk: start the appender on any directory, with any script of
  I/O errors and any interleaving of requests, among them those of a bulk request, and let the
  handler collect their answers. Every document whose item in the answer has status 201 has its
  frame in the synced part of a log file; if the error flag is not set, all documents have.
\<close>

theorem bulk_created_is_durable:
  assumes "start_wal off files io = Some w"
    and "\<And>p f. files p = Some f \<Longrightarrow> lf_synced f \<le> length (lf_bytes f)"
    and "a = foldl (appender_step crc) \<lparr>ap_queue = [], ap_wal = w, ap_replies = [], ap_sent = []\<rparr> es"
    and "distinct (map req_id (arrivals es))" "set reqs \<subseteq> set (arrivals es)"
    and "length answers = length reqs"
    and "\<forall>i < length reqs. (req_id (reqs ! i), answers ! i) \<in> set (ap_replies a)"
    and "bulk_handler from_str script answers body =
      (map req_event reqs, Inr (status, bulk_body items errs))"
  shows "length items = length reqs \<and>
    (\<forall>i < length reqs. let ev = req_event (reqs ! i) in
       (items ! i = bulk_item (ev_index ev) 201 \<or> \<not> errs \<longrightarrow> durable crc (ap_wal a) ev))"
proof -
  note answer = bulk_handler_items [OF assms(8), simplified length_map, OF assms(6)]
  have "durable crc (ap_wal a) (req_event (reqs ! i))"
    if "i < length reqs" "answers ! i = Acked" for i
    by (rule durable_if_acked(1) [OF assms(1-4)])
      (use that assms(5,7) nth_mem in \<open>fastforce+\<close>)
  moreover have "answers ! i = Acked" if "i < length reqs" "\<not> errs" for i
    using that answer(3) assms(6) nth_mem by metis
  ultimately show ?thesis
    using answer(1,2) by (auto simp: Let_def)
qed

text \<open>
  The single endpoint: the document enters the log with the bytes of the body; the answer
  is 201 exactly if the appender acknowledged it, and then its frame is in the synced part of a
  log file, for any I/O errors and interleaving.
\<close>

theorem ingest_created_is_durable:
  assumes "start_wal off files io = Some w"
    and "\<And>p f. files p = Some f \<Longrightarrow> lf_synced f \<le> length (lf_bytes f)"
    and "a = foldl (appender_step crc) \<lparr>ap_queue = [], ap_wal = w, ap_replies = [], ap_sent = []\<rparr> es"
    and "distinct (map req_id (arrivals es))" "req \<in> set (arrivals es)"
    and "(req_id req, answer) \<in> set (ap_replies a)"
    and "ingest_doc_handler script answer index body = ([req_event req], response)"
  shows "(response = Inr (201, created_body index) \<longleftrightarrow> answer = Acked) \<and>
    (answer \<noteq> Acked \<longrightarrow> (\<exists>msg. response = Inl (500, msg))) \<and>
    (answer = Acked \<longrightarrow> durable crc (ap_wal a) \<lparr>ev_index = index, ev_payload = as_bytes body\<rparr>)"
proof -
  have ev: "req_event req = \<lparr>ev_index = index, ev_payload = as_bytes body\<rparr>"
    using assms(7) by (auto simp: ingest_doc_handler_def ingest_event_def split: if_splits)
  have "durable crc (ap_wal a) (req_event req)" if "answer = Acked"
    using durable_if_acked(1) [OF assms(1-5)] assms(6) that by simp
  with assms(7) ev show ?thesis
    by (auto simp: ingest_doc_handler_def split: if_splits reply.splits)
qed

section \<open>Witnesses\<close>

text \<open>A parser that knows two lines of metadata, and the body of a bulk request.\<close>

definition demo_parse :: "string \<Rightarrow> json option" where
  "demo_parse s =
     (if s = ''m'' then Some (JObject [(''index'', JObject [(''_index'', JString ''idx1'')])])
      else if s = ''x'' then Some (JObject [(''delete'', JNull)]) else None)"

definition demo_lines :: "(string \<times> string) list" where
  "demo_lines = [(''m'', [CR, LF]), ([], [LF]), (''data'', [LF])]"

definition demo_body :: string where
  "demo_body = concat (map (\<lambda>(l, eol). l @ eol) demo_lines)"

lemma blank_solid [simp]: "list_all solid l \<Longrightarrow> blank l \<longleftrightarrow> l = []"
  by (simp add: blank_def trim_solid)

lemma ingest_ev1: "ingest_event ''idx1'' ''data'' = ev1"
  by (simp add: ingest_event_def ev1_def as_bytes_def)

theorem bulk_roundtrip_witness:
  "bulk_handler demo_parse [] [Acked] demo_body =
    ([ev1], Inr (200, bulk_body [bulk_item ''idx1'' 201] False))"
  using bulk_roundtrip [of demo_lines "[(''m'', ''idx1'', ''data'')]" demo_parse "[Acked]"]
  by (simp add: demo_lines_def demo_body_def demo_parse_def solid_def ingest_ev1)

theorem bulk_closed_prefix_witness:
  "\<exists>more. more \<noteq> [] \<and> fst (bulk_handler demo_parse [] [] demo_body) = [] @ more"
proof -
  have "str_lines demo_body = [''m'', [], ''data'']"
    using str_lines_written [of demo_lines] by (simp add: demo_body_def demo_lines_def)
  then have "bulk_handler demo_parse [False] [] demo_body = ([], Inl (500, ''WAL channel closed''))"
    by (simp add: bulk_handler_def solid_def)
  from bulk_closed_prefix [OF this] show ?thesis by simp
qed

theorem bulk_delete_shifts_witness:
  "bulk_handler demo_parse [] [Acked] (''x'' @ [LF] @ ''m'' @ [LF] @ ''data'' @ [LF]) =
    ([ingest_event ''default'' ''m''], Inr (200, bulk_body [bulk_item ''default'' 201] False))"
proof -
  have "str_lines (''x'' @ [LF] @ ''m'' @ [LF] @ ''data'' @ [LF]) = [''x'', ''m'', ''data'']"
    using str_lines_written [of "[(''x'', [LF]), (''m'', [LF]), (''data'', [LF])]"] by simp
  then show ?thesis
    by (intro bulk_delete_shifts [where del = "''x''" and doc = "''data''" and v = JNull])
      (simp_all add: solid_def demo_parse_def)
qed

theorem bulk_created_is_durable_witness:
  "\<exists>w items. start_wal 0 Map.empty [] = Some w \<and>
    bulk_handler demo_parse [] [Acked] demo_body = ([ev1], Inr (200, bulk_body items False)) \<and>
    durable (\<lambda>_. 7) (ap_wal (run1 w)) ev1"
proof -
  obtain w where w: "start_wal 0 Map.empty [] = Some w"
    using start_wal_starts by blast
  have "str_lines demo_body = [''m'', [], ''data'']"
    using str_lines_written [of demo_lines] by (simp add: demo_body_def demo_lines_def)
  then have b: "bulk_handler demo_parse [] [Acked] demo_body =
      (map req_event [req1], Inr (200, bulk_body [bulk_item ''idx1'' 201] False))"
    by (simp add: bulk_handler_def solid_def demo_parse_def meta_index_def json_get_def ingest_ev1 req1_def)
      (simp add: ev1_def)
  have "length [bulk_item ''idx1'' 201] = length [req1] \<and>
    (\<forall>i < length [req1]. let ev = req_event ([req1] ! i) in
       ([bulk_item ''idx1'' 201] ! i = bulk_item (ev_index ev) 201 \<or> \<not> False \<longrightarrow>
        durable (\<lambda>_. 7) (ap_wal (run1 w)) ev))"
    by (rule bulk_created_is_durable [OF w _ run1_def _ _ _ _ b])
      (simp_all add: arrivals_def run1_acked [OF w] req1_def)
  with w b show ?thesis by (auto simp: Let_def req1_def)
qed

theorem ingest_created_is_durable_witness:
  "\<exists>w. start_wal 0 Map.empty [] = Some w \<and>
    ingest_doc_handler [] Acked ''idx1'' ''data'' = ([ev1], Inr (201, created_body ''idx1'')) \<and>
    durable (\<lambda>_. 7) (ap_wal (run1 w)) ev1"
proof -
  obtain w where w: "start_wal 0 Map.empty [] = Some w"
    using start_wal_starts by blast
  have h: "ingest_doc_handler [] Acked ''idx1'' ''data'' = ([req_event req1], Inr (201, created_body ''idx1''))"
    by (simp add: ingest_doc_handler_def ingest_ev1 req1_def)
  have "durable (\<lambda>_. 7) (ap_wal (run1 w)) \<lparr>ev_index = ''idx1'', ev_payload = as_bytes ''data''\<rparr>"
    using ingest_created_is_durable [OF w _ run1_def _ _ _ h]
    by (simp add: arrivals_def run1_acked [OF w] req1_def)
  with w h show ?thesis by (auto simp: req1_def simp flip: ingest_ev1 simp: ingest_event_def)
qed

end
