(* ===== verification/System.thy ===== *)
theory System
  imports Startup Ingest_Routes
begin

text \<open>
  The parts together: requests, the appender thread, the channels to the indexing task, the task
  itself, its timer, rounds of retention and changes of the registry, interleaved in any order;
  and the invariant of the states the system reaches.
\<close>

section \<open>The running system\<close>

text \<open>
  The channel to the indexing task is the list of events the appender has sent, of which the
  first ones have been delivered; the channel of the retention worker is the list of purge
  commands still to be delivered. The outcomes of delivered events and commands, which the program
  only logs, are kept, and the names of the log files the retention worker has removed. The
  appender keeps writing to its open file whether or not the name is gone.
\<close>

record ('w, 'i, 'rd, 'wr) system =
  sy_registry :: registry
  sy_appender :: appender
  sy_indexer :: "('w, 'i, 'rd, 'wr) actor"
  sy_delivered :: nat
  sy_results :: "(IngestEvent \<times> (string + unit)) list"
  sy_retention :: RetentionConfig
  sy_purges :: "(string \<times> int) list"
  sy_purged :: "((string \<times> int) \<times> (string + unit)) list"
  sy_removed :: "string list"

text \<open>
  A round of retention comes with what the file system shows: the index directory, the data
  directory, and which deletions succeed. The endpoints open readers through the manager they
  share with the indexing task. Whatever else changes the files of the indexes, the removal of a
  directory or the compaction worker, is a change of the world.
\<close>

datatype 'w system_event =
    Request WalRequest | WalLoop | Deliver | Timer | Define reg_op
  | RetentionRound "fs_entry list option" "wal_entry list option" "string \<Rightarrow> bool" | DeliverPurge
  | OpenReader string | FilesChange "'w \<Rightarrow> 'w"

definition initial ::
    "registry \<Rightarrow> wal_state \<Rightarrow> ('w, 'i, 'rd, 'wr) actor \<Rightarrow> RetentionConfig \<Rightarrow> ('w, 'i, 'rd, 'wr) system" where
  "initial r w a config =
     \<lparr>sy_registry = r, sy_appender = \<lparr>ap_queue = [], ap_wal = w, ap_replies = [], ap_sent = []\<rparr>,
      sy_indexer = a, sy_delivered = 0, sy_results = [], sy_retention = config, sy_purges = [],
      sy_purged = [], sy_removed = []\<rparr>"

definition boot :: "('w, 'i, 'rd, 'wr) program \<Rightarrow> ('w, 'i, 'rd, 'wr) system option" where
  "boot p =
     map_option (\<lambda>w. initial (pr_registry p) w (pr_indexer p) (pr_retention p)) (pr_wal p)"

definition with_indexer ::
    "('w, 'i, 'rd, 'wr) system \<Rightarrow> ('w, 'i, 'rd, 'wr) actor run \<Rightarrow> ('w, 'i, 'rd, 'wr) system option" where
  "with_indexer s m = (case m of Panicked \<Rightarrow> None | Ret a \<Rightarrow> Some (s\<lparr>sy_indexer := a\<rparr>))"

definition deliver ::
    "('b, 'x, 'w, 'd, 'i, 'rd, 'doc, 'f, 'wr) deps \<Rightarrow> ('w, 'i, 'rd, 'wr) system \<Rightarrow>
     ('w, 'i, 'rd, 'wr) system option" where
  "deliver dp s =
     (if sy_delivered s < length (ap_sent (sy_appender s)) then
        (case ap_sent (sy_appender s) ! sy_delivered s of
           (ev, off) \<Rightarrow>
             (case process_event dp (sy_registry s) (sy_indexer s) ev off of
                Panicked \<Rightarrow> None
              | Ret (_, res) \<Rightarrow>
                  with_indexer
                    (s\<lparr>sy_delivered := Suc (sy_delivered s), sy_results := sy_results s @ [(ev, res)]\<rparr>)
                    (actor_step dp (Ret (sy_indexer s)) (sy_registry s, Receive ev off))))
      else Some s)"

definition deliver_purge ::
    "('b, 'x, 'w, 'd, 'i, 'rd, 'doc, 'f, 'wr) deps \<Rightarrow> ('w, 'i, 'rd, 'wr) system \<Rightarrow>
     ('w, 'i, 'rd, 'wr) system option" where
  "deliver_purge dp s =
     (case sy_purges s of
        [] \<Rightarrow> Some s
      | (n, cutoff) # purges \<Rightarrow>
          (case purge_old_docs dp (sy_registry s) (sy_indexer s) n cutoff of
             Panicked \<Rightarrow> None
           | Ret (_, res) \<Rightarrow>
               with_indexer
                 (s\<lparr>sy_purges := purges, sy_purged := sy_purged s @ [((n, cutoff), res)]\<rparr>)
                 (actor_step dp (Ret (sy_indexer s)) (sy_registry s, PurgeCommand n cutoff))))"

definition retention_round ::
    "('dur, int) chrono_api \<Rightarrow> fs_entry list option \<Rightarrow> wal_entry list option \<Rightarrow> (string \<Rightarrow> bool) \<Rightarrow>
     ('w, 'i, 'rd, 'wr) system \<Rightarrow> ('w, 'i, 'rd, 'wr) system option" where
  "retention_round chr index_dir data_dir removes s =
     (case retention_tick chr (sy_retention s) (sy_registry s) index_dir removes data_dir of
        Panicked \<Rightarrow> None
      | Ret (cmds, _, deleted) \<Rightarrow>
          Some (s\<lparr>sy_purges := sy_purges s @ cmds, sy_removed := sy_removed s @ deleted\<rparr>))"

definition open_reader ::
    "('b, 'x, 'w, 'd, 'i, 'rd, 'doc, 'f, 'wr) deps \<Rightarrow> string \<Rightarrow> ('w, 'i, 'rd, 'wr) system \<Rightarrow>
     ('w, 'i, 'rd, 'wr) system option" where
  "open_reader dp n s =
     (case get_reader (dp_schema dp) (dp_index dp) (sy_registry s)
             (ac_manager (sy_indexer s), ac_world (sy_indexer s)) n of
        Panicked \<Rightarrow> None
      | Ret (m, w, _) \<Rightarrow> Some (s\<lparr>sy_indexer := (sy_indexer s)\<lparr>ac_manager := m, ac_world := w\<rparr>\<rparr>))"

text \<open>One step; no state means that a panic has ended the process.\<close>

fun system_step ::
    "(u8 list \<Rightarrow> u32) \<Rightarrow> ('dur, int) chrono_api \<Rightarrow> ('b, 'x, 'w, 'd, 'i, 'rd, 'doc, 'f, 'wr) deps \<Rightarrow>
     ('w, 'i, 'rd, 'wr) system \<Rightarrow> 'w system_event \<Rightarrow> ('w, 'i, 'rd, 'wr) system option" where
  "system_step crc chr dp s (Request req) =
     Some (s\<lparr>sy_appender := appender_step crc (sy_appender s) (Arrive req)\<rparr>)"
| "system_step crc chr dp s WalLoop =
     Some (s\<lparr>sy_appender := appender_step crc (sy_appender s) RunLoopBody\<rparr>)"
| "system_step crc chr dp s Deliver = deliver dp s"
| "system_step crc chr dp s (RetentionRound index_dir data_dir removes) =
     retention_round chr index_dir data_dir removes s"
| "system_step crc chr dp s DeliverPurge = deliver_purge dp s"
| "system_step crc chr dp s (OpenReader n) = open_reader dp n s"
| "system_step crc chr dp s (FilesChange f) =
     Some (s\<lparr>sy_indexer := (sy_indexer s)\<lparr>ac_world := f (ac_world (sy_indexer s))\<rparr>\<rparr>)"
| "system_step crc chr dp s Timer =
     with_indexer s (actor_step dp (Ret (sy_indexer s)) (sy_registry s, Tick))"
| "system_step crc chr dp s (Define op) =
     (case reg_step (Ret (sy_registry s)) op of
        Panicked \<Rightarrow> None
      | Ret r \<Rightarrow> Some (s\<lparr>sy_registry := r\<rparr>))"

section \<open>The appender's part of a run\<close>

fun wal_events :: "'w system_event list \<Rightarrow> appender_event list" where
  "wal_events [] = []"
| "wal_events (Request req # es) = Arrive req # wal_events es"
| "wal_events (WalLoop # es) = RunLoopBody # wal_events es"
| "wal_events (_ # es) = wal_events es"

definition requests :: "'w system_event list \<Rightarrow> WalRequest list" where
  "requests es = arrivals (wal_events es)"

lemma with_indexer_Some:
  "with_indexer s m = Some s' \<longleftrightarrow> (\<exists>a. m = Ret a \<and> s' = s\<lparr>sy_indexer := a\<rparr>)"
  by (auto simp: with_indexer_def split: run.splits)

lemma same_appender:
  "deliver dp s = Some s' \<Longrightarrow> sy_appender s' = sy_appender s"
  "deliver_purge dp s = Some s' \<Longrightarrow> sy_appender s' = sy_appender s"
  "retention_round chr index_dir data_dir removes s = Some s' \<Longrightarrow> sy_appender s' = sy_appender s"
  "open_reader dp n s = Some s' \<Longrightarrow> sy_appender s' = sy_appender s"
  by (auto simp: deliver_def deliver_purge_def retention_round_def open_reader_def with_indexer_Some
      split: if_splits list.splits prod.splits run.splits)

lemma system_appender:
  "try_fold (system_step crc chr dp) s es = Some s' \<Longrightarrow>
   sy_appender s' = foldl (appender_step crc) (sy_appender s) (wal_events es)"
proof (induction es arbitrary: s)
  case (Cons e es)
  then obtain s1 where s1: "system_step crc chr dp s e = Some s1" "try_fold (system_step crc chr dp) s1 es = Some s'"
    by (auto split: option.splits)
  with Cons.IH [OF s1(2)] show ?case
    by (cases e) (auto simp: with_indexer_Some dest: same_appender split: run.splits)
qed simp

lemma sent_grows: "\<exists>more. ap_sent (appender_step crc a e) = ap_sent a @ more"
  by (cases e) (auto split: list.split prod.split)

section \<open>The indexing task only adds operations\<close>

text \<open>All operations of a writer, committed and not, oldest first.\<close>

definition history ::
    "('wr \<Rightarrow> 'op list) \<Rightarrow> ('wr \<Rightarrow> 'op list) \<Rightarrow> ('w, 'i, 'rd, 'wr) actor \<Rightarrow> string \<Rightarrow> 'op list" where
  "history pend comm a n = (case map_of (ac_writers a) n of None \<Rightarrow> [] | Some wr \<Rightarrow> comm wr @ pend wr)"

definition extends ::
    "('wr \<Rightarrow> 'op list) \<Rightarrow> ('wr \<Rightarrow> 'op list) \<Rightarrow> ('w, 'i, 'rd, 'wr) actor \<Rightarrow> ('w, 'i, 'rd, 'wr) actor \<Rightarrow> bool" where
  "extends pend comm a a' \<longleftrightarrow> (\<forall>n. prefix (history pend comm a n) (history pend comm a' n))"

lemma extends_refl [simp]: "extends pend comm a a"
  by (simp add: extends_def)

lemma extends_trans: "extends pend comm a b \<Longrightarrow> extends pend comm b c \<Longrightarrow> extends pend comm a c"
  unfolding extends_def by (meson prefix_order.trans)

lemma extends_writers:
  "(\<And>n wr. map_of (ac_writers a) n = Some wr \<Longrightarrow>
      \<exists>wr'. map_of (ac_writers a') n = Some wr' \<and> prefix (comm wr @ pend wr) (comm wr' @ pend wr')) \<Longrightarrow>
   extends pend comm a a'"
  by (fastforce simp: extends_def history_def split: option.split)

lemma extends_same [simp]:
  "extends pend comm a (a'\<lparr>ac_docs_since_commit := c\<rparr>) = extends pend comm a a'"
  by (simp add: extends_def history_def)

lemma ensure_writer_extends: "ensure_writer dp r a n = Ret (a', res) \<Longrightarrow> extends pend comm a a'"
  by (cases rule: ensure_writer_cases)
    (auto intro!: extends_writers simp: update_conv' hm_contains_key_def)

lemma process_event_extends:
  assumes "writer_law (dp_writer dp) pend comm pay" "process_event dp r a ev off = Ret (a', res)"
  shows "extends pend comm a a'"
  using assms(2)
proof (cases rule: process_event_cases)
  case (no_index a1 m w x e)
  have "extends pend comm a a1" using no_index(1) by (rule ensure_writer_extends)
  with no_index(2) show ?thesis by (auto simp: extends_def history_def)
next
  case (run d m a1 man w i)
  let ?a2 = "a1\<lparr>ac_manager := man, ac_world := w\<rparr>"
  have "extends pend comm a a1" using run(3) by (rule ensure_writer_extends)
  then have "extends pend comm a ?a2" by (simp add: extends_def history_def)
  moreover have "extends pend comm ?a2 a'"
    using run(5)
  proof (cases rule: add_event_cases)
    case (added s doc wr wr')
    with writer_lawD(2) [OF assms(1) added(4)] show ?thesis
      by (intro extends_writers) (auto simp: update_conv')
  next
    case (refused doc wr wr' e)
    with writer_lawD(2) [OF assms(1) refused(2)] show ?thesis
      by (intro extends_writers) (auto simp: update_conv')
  qed (auto intro!: extends_writers)
  ultimately show ?thesis by (rule extends_trans)
qed simp

lemma purge_extends:
  assumes "writer_law (dp_writer dp) pend comm pay" "purge_old_docs dp r a n cutoff = Ret (a', res)"
  shows "extends pend comm a a'"
  using assms(2)
proof (cases rule: purge_cases)
  case (stopped a1 x m w e)
  have "extends pend comm a a1" using stopped(1) by (rule ensure_writer_extends)
  with stopped(3) show ?thesis by (auto simp: extends_def history_def)
next
  case (staged a1 m w f wr wr')
  have "extends pend comm a1 a'"
    using staged(3,5) writer_lawD(3) [OF assms(1) staged(4)]
    by (intro extends_writers) (auto simp: update_conv')
  with ensure_writer_extends [OF staged(1)] show ?thesis by (rule extends_trans)
next
  case (refused a1 m w f wr wr' e e')
  have "extends pend comm a1 a'"
    using refused(3,5) writer_lawD(3) [OF assms(1) refused(4)]
    by (intro extends_writers) (auto simp: update_conv')
  with ensure_writer_extends [OF refused(1)] show ?thesis by (rule extends_trans)
qed simp

lemma commit_all_extends:
  assumes "writer_law (dp_writer dp) pend comm pay" "reliable (dp_writer dp)" "actor_inv a"
  shows "extends pend comm a (commit_all dp a)"
proof (rule extends_writers)
  fix n wr
  assume "map_of (ac_writers a) n = Some wr"
  then show "\<exists>wr'. map_of (ac_writers (commit_all dp a)) n = Some wr' \<and>
      prefix (comm wr @ pend wr) (comm wr' @ pend wr')"
    using assms(3) commit_one_reliable [OF assms(1,2)]
    by (cases "map_of (ac_dirty a) n") (auto simp: commit_all_def commit_entries_get actor_inv_def)
qed

lemma receive_extends:
  assumes "writer_law (dp_writer dp) pend comm pay" "reliable (dp_writer dp)" "actor_inv a"
    and "process_event dp r a ev off = Ret (a1, res)"
    and "actor_step dp (Ret a) (r, Receive ev off) = Ret a'"
  shows "extends pend comm a1 a'"
proof -
  define a2 where "a2 = (case res of Inl _ \<Rightarrow> a1
      | Inr _ \<Rightarrow> a1\<lparr>ac_docs_since_commit := ac_docs_since_commit a1 + 1\<rparr>)"
  have "actor_inv a2" "extends pend comm a1 a2"
    using process_event_keeps [OF assms(4,3)] by (auto simp: a2_def split: sum.split)
  then have "extends pend comm a1 (commit_all dp a2)"
    using commit_all_extends [OF assms(1,2)] extends_trans by blast
  moreover have "a' = commit_all dp a2\<lparr>ac_docs_since_commit := 0\<rparr> \<or> a' = a2"
    using assms(4,5) by (auto simp: Let_def a2_def split: if_splits)
  ultimately show ?thesis
    using \<open>extends pend comm a1 a2\<close> by auto
qed

lemma actor_step_extends:
  assumes "writer_law (dp_writer dp) pend comm pay" "reliable (dp_writer dp)" "actor_inv a"
    and "actor_step dp (Ret a) (r, e) = Ret a'"
  shows "extends pend comm a a'"
proof (cases e)
  case (Receive ev off)
  then obtain a1 res where p: "process_event dp r a ev off = Ret (a1, res)"
    using assms(4) by (auto simp: run_simps simp del: run_bind.simps)
  from receive_extends [OF assms(1-3) p] assms(4) Receive have "extends pend comm a1 a'" by simp
  with process_event_extends [OF assms(1) p] show ?thesis by (rule extends_trans)
next
  case (PurgeCommand n cutoff)
  then obtain res where "purge_old_docs dp r a n cutoff = Ret (a', res)"
    using assms(4) by (auto simp: run_simps simp del: run_bind.simps)
  with assms(1) show ?thesis by (rule purge_extends)
next
  case Tick
  then have "a' = commit_all dp a\<lparr>ac_docs_since_commit := 0\<rparr> \<or> a' = a"
    using assms(4) by (auto split: if_splits)
  with commit_all_extends [OF assms(1-3)] show ?thesis by auto
qed

section \<open>The indexing task uses the schemas the program builds\<close>

definition schemas_built ::
    "('b, 'x, 'w, 'd, 'i, 'rd, 'doc, 'f, 'wr) deps \<Rightarrow> ('w, 'i, 'rd, 'wr) actor \<Rightarrow> bool" where
  "schemas_built dp a \<longleftrightarrow>
     (index_law (dp_index dp) \<longrightarrow> indexes_built (dp_schema dp) (dp_index dp) (ac_manager a))"

lemma schemas_built_manager: "ac_manager a' = ac_manager a \<Longrightarrow> schemas_built dp a \<Longrightarrow> schemas_built dp a'"
  by (simp add: schemas_built_def)

lemma get_or_create_schemas:
  assumes "get_or_create_index (dp_schema dp) (dp_index dp) r (ac_manager a, w) n = Ret (m, w', res)"
    and "schemas_built dp a"
  shows "schemas_built dp (a'\<lparr>ac_manager := m\<rparr>)"
    and "res = Inr i \<Longrightarrow> index_law (dp_index dp) \<Longrightarrow> built (dp_schema dp) (ix_schema (dp_index dp) i)"
  using get_or_create_built [OF _ assms(1)] assms(2) by (auto simp: schemas_built_def)

lemma ensure_writer_schemas:
  assumes "ensure_writer dp r a n = Ret (a', res)" "schemas_built dp a"
  shows "schemas_built dp a'"
proof (cases "hm_contains_key (ac_writers a) n")
  case True
  with assms show ?thesis by (simp add: ensure_writer_def)
next
  case False
  obtain m w res1 where g:
      "get_or_create_index (dp_schema dp) (dp_index dp) r (ac_manager a, ac_world a) n = Ret (m, w, res1)"
    using assms(1) False by (auto simp: ensure_writer_def run_simps simp del: run_bind.simps)
  have "ac_manager a' = m"
  proof (cases res1)
    case (Inl e)
    with assms(1) False g show ?thesis by (auto simp: ensure_writer_def Let_def)
  next
    case (Inr i)
    with assms(1) False g show ?thesis
      by (cases "wa_writer (dp_writer dp) w i (ac_index_memory_mb a * 1000000)")
        (auto simp: ensure_writer_def Let_def split: sum.splits)
  qed
  with get_or_create_schemas(1) [OF g assms(2), of a'] show ?thesis
    by (simp add: schemas_built_def)
qed

lemma lookup_schemas:
  assumes "get_or_create_index (dp_schema dp) (dp_index dp) r (ac_manager a, w) n = Ret (ac_manager a', w', res)"
    and "schemas_built dp a"
  shows "schemas_built dp a'"
  using get_or_create_schemas(1) [OF assms, of a'] by (simp add: schemas_built_def)

lemma add_event_manager: "(a', res) = add_event dp d i source n off a \<Longrightarrow> ac_manager a' = ac_manager a"
  by (cases rule: add_event_cases) auto

lemma process_event_schemas:
  assumes "process_event dp r a ev off = Ret (a', res)" "schemas_built dp a"
  shows "schemas_built dp a'"
  using assms(1)
proof (cases rule: process_event_cases)
  case (no_index a1 m w x e)
  note a1 = ensure_writer_schemas [OF no_index(1) assms(2)]
  from no_index(4) show ?thesis
    using a1 lookup_schemas [OF _ a1] by blast
next
  case (run d m a1 man w i)
  have "ac_manager a' = man"
    using add_event_manager [OF run(5)] by simp
  then show ?thesis
    using lookup_schemas [OF run(4) [folded \<open>ac_manager a' = man\<close>] ensure_writer_schemas [OF run(3) assms(2)]] by blast
qed (use assms(2) in simp)

lemma purge_schemas:
  assumes "purge_old_docs dp r a n cutoff = Ret (a', res)" "schemas_built dp a"
  shows "schemas_built dp a'"
  using assms(1)
proof (cases rule: purge_cases)
  case (stopped a1 x m w e)
  note a1 = ensure_writer_schemas [OF stopped(1) assms(2)]
  from stopped(4) show ?thesis
    using a1 lookup_schemas [OF _ a1] by blast
next
  case (staged a1 m w f wr wr')
  have "ac_manager a' = m" by (simp add: staged(5))
  with staged(7) show ?thesis
    using lookup_schemas [OF _ ensure_writer_schemas [OF staged(1) assms(2)]] by blast
next
  case (refused a1 m w f wr wr' e e')
  have "ac_manager a' = m" by (simp add: refused(5))
  with refused(6) show ?thesis
    using lookup_schemas [OF _ ensure_writer_schemas [OF refused(1) assms(2)]] by blast
qed (use assms(2) in simp)

lemma commit_all_manager [simp]: "ac_manager (commit_all dp a) = ac_manager a"
  by (simp add: commit_all_def)

lemma actor_step_schemas:
  assumes "actor_step dp (Ret a) (r, e) = Ret a'" "schemas_built dp a"
  shows "schemas_built dp a'"
proof (cases e)
  case (Receive ev off)
  then obtain a1 res where p: "process_event dp r a ev off = Ret (a1, res)"
    using assms(1) by (auto simp: run_simps simp del: run_bind.simps)
  have "ac_manager a' = ac_manager a1"
    using assms(1) Receive p by (auto simp: Let_def split: sum.splits if_splits)
  with process_event_schemas [OF p assms(2)] show ?thesis
    by (auto intro: schemas_built_manager)
next
  case (PurgeCommand n cutoff)
  then obtain res where "purge_old_docs dp r a n cutoff = Ret (a', res)"
    using assms(1) by (auto simp: run_simps simp del: run_bind.simps)
  with assms(2) purge_schemas show ?thesis by blast
next
  case Tick
  then have "ac_manager a' = ac_manager a"
    using assms(1) by (auto split: if_splits)
  with assms(2) show ?thesis by (auto intro: schemas_built_manager)
qed

section \<open>The invariant of the running system\<close>

text \<open>
  The document the indexing task builds for an event, for some definition and the schema of some
  index, which is a schema the program has built if Tantivy keeps to the one asked for.
\<close>

definition doc_for ::
    "('b, 'x, 'w, 'd, 'i, 'rd, 'doc, 'f, 'wr) deps \<Rightarrow> IngestEvent \<Rightarrow> 'doc \<Rightarrow> bool" where
  "doc_for dp ev doc \<longleftrightarrow>
     (\<exists>d m s i. sj_from_slice (dp_json dp) (ev_payload ev) = Inr (JObject m) \<and>
        sj_to_string (dp_json dp) (JObject (build_root (dp_json dp) d (JObject m))) = Inr s \<and>
        wa_parse_json (dp_writer dp) (ix_schema (dp_index dp) i) s = Inr doc \<and>
        (index_law (dp_index dp) \<longrightarrow> built (dp_schema dp) (ix_schema (dp_index dp) i)))"

text \<open>A field that holds the time stamps of an index by some definition and schema.\<close>

definition timestamp_field ::
    "('b, 'x, 'w, 'd, 'i, 'rd, 'doc, 'f, 'wr) deps \<Rightarrow> string \<Rightarrow> 'f \<Rightarrow> bool" where
  "timestamp_field dp n f \<longleftrightarrow>
     (\<exists>(d :: IndexDefinition) i. idx_name d = n \<and>
        wa_get_field (dp_writer dp) (ix_schema (dp_index dp) i) (idx_timestamp_field d) = Some f)"

definition system_inv ::
    "('b, 'x, 'w, 'd, 'i, 'rd, 'doc, 'f, 'wr) deps \<Rightarrow> ('wr \<Rightarrow> ('doc + 'f \<times> int) list) \<Rightarrow>
     ('wr \<Rightarrow> ('doc + 'f \<times> int) list) \<Rightarrow> ('wr \<Rightarrow> string option) \<Rightarrow>
     ('w, 'i, 'rd, 'wr) system \<Rightarrow> bool" where
  "system_inv dp pend comm pay s \<longleftrightarrow>
     actor_ok dp pend comm pay (Ret (sy_indexer s)) \<and>
     sy_delivered s \<le> length (ap_sent (sy_appender s)) \<and>
     map fst (sy_results s) = map fst (take (sy_delivered s) (ap_sent (sy_appender s))) \<and>
     (\<forall>ev. (ev, Inr ()) \<in> set (sy_results s) \<longrightarrow>
        (\<exists>doc. doc_for dp ev doc \<and> Inl doc \<in> set (history pend comm (sy_indexer s) (ev_index ev)))) \<and>
     reg_inv (sy_registry s) \<and>
     (\<forall>n cutoff. ((n, cutoff), Inr ()) \<in> set (sy_purged s) \<longrightarrow>
        (\<exists>f. timestamp_field dp n f \<and> Inr (f, cutoff) \<in> set (history pend comm (sy_indexer s) n))) \<and>
     schemas_built dp (sy_indexer s)"

lemma system_inv_sent:
  assumes "system_inv dp pend comm pay s"
  shows "system_inv dp pend comm pay (s\<lparr>sy_appender := appender_step crc (sy_appender s) e\<rparr>)"
proof -
  obtain more where "ap_sent (appender_step crc (sy_appender s) e) = ap_sent (sy_appender s) @ more"
    using sent_grows by blast
  with assms show ?thesis by (simp add: system_inv_def)
qed

lemma extends_history: "extends pend comm a a' \<Longrightarrow> x \<in> set (history pend comm a n) \<Longrightarrow> x \<in> set (history pend comm a' n)"
  unfolding extends_def by (meson set_mono_prefix subsetD)

lemma system_inv_indexer:
  assumes "writer_law (dp_writer dp) pend comm pay" "reliable (dp_writer dp)"
    and "system_inv dp pend comm pay s" "actor_step dp (Ret (sy_indexer s)) (r, e) = Ret a'"
  shows "system_inv dp pend comm pay (s\<lparr>sy_indexer := a'\<rparr>)"
proof -
  have "actor_inv (sy_indexer s)"
    using assms(3) by (simp add: system_inv_def actor_ok_def)
  then have "extends pend comm (sy_indexer s) a'"
    using actor_step_extends [OF assms(1,2) _ assms(4)] by blast
  moreover have "actor_ok dp pend comm pay (Ret a')"
    using assms(3,4) actor_step_ok by (metis system_inv_def)
  moreover have "schemas_built dp a'"
    using assms(3) actor_step_schemas [OF assms(4)] by (simp add: system_inv_def)
  ultimately show ?thesis
    using assms(3) extends_history by (fastforce simp: system_inv_def)
qed

lemma event_in_history:
  assumes "writer_law (dp_writer dp) pend comm pay" "schemas_built dp a"
    and "process_event dp r a ev off = Ret (a', Inr u)"
  shows "\<exists>doc. doc_for dp ev doc \<and> Inl doc \<in> set (history pend comm a' (ev_index ev))"
  using assms(3)
proof (cases rule: process_event_cases)
  case (run d m a1 man w i)
  have built: "index_law (dp_index dp) \<longrightarrow> built (dp_schema dp) (ix_schema (dp_index dp) i)"
    using get_or_create_schemas(2) [OF run(4) ensure_writer_schemas [OF run(3) assms(2)]] by blast
  have writer: "map_of (ac_writers a1) (ev_index ev) \<noteq> None"
    using run(3) by (cases rule: ensure_writer_cases) (auto simp: hm_contains_key_def update_conv')
  from run(5) show ?thesis
  proof (cases rule: add_event_cases)
    case (added s doc wr wr')
    have "doc_for dp ev doc"
      using run(2) added(1,2) built unfolding doc_for_def by blast
    moreover have "Inl doc \<in> set (history pend comm a' (ev_index ev))"
      using added(5) writer_lawD(2) [OF assms(1) added(4)] by (simp add: history_def update_conv')
    ultimately show ?thesis by blast
  qed (use writer in simp_all)
qed simp_all

lemma system_inv_deliver:
  assumes "writer_law (dp_writer dp) pend comm pay" "reliable (dp_writer dp)"
    and inv: "system_inv dp pend comm pay s" and step: "deliver dp s = Some s'"
  shows "system_inv dp pend comm pay s'"
proof (cases "sy_delivered s < length (ap_sent (sy_appender s))")
  case False
  with inv step show ?thesis by (simp add: deliver_def)
next
  case True
  obtain ev off where e: "ap_sent (sy_appender s) ! sy_delivered s = (ev, off)" by fastforce
  obtain a1 res a' where p: "process_event dp (sy_registry s) (sy_indexer s) ev off = Ret (a1, res)"
      and a': "actor_step dp (Ret (sy_indexer s)) (sy_registry s, Receive ev off) = Ret a'"
      and s': "s' = s\<lparr>sy_delivered := Suc (sy_delivered s), sy_results := sy_results s @ [(ev, res)],
        sy_indexer := a'\<rparr>"
    using step True e by (auto simp: deliver_def with_indexer_Some split: run.splits prod.splits simp del: actor_step.simps)
  have ai: "actor_inv (sy_indexer s)" and sb: "schemas_built dp (sy_indexer s)"
    using inv by (simp_all add: system_inv_def actor_ok_def)
  have next_event: "take (Suc (sy_delivered s)) (ap_sent (sy_appender s)) =
      take (sy_delivered s) (ap_sent (sy_appender s)) @ [(ev, off)]"
    using True e by (simp add: take_Suc_conv_app_nth)
  have "\<exists>doc. doc_for dp ev doc \<and> Inl doc \<in> set (history pend comm a' (ev_index ev))" if "res = Inr ()"
    using event_in_history [OF assms(1) sb p [unfolded that]]
      extends_history [OF receive_extends [OF assms(1,2) ai p a']] by blast
  moreover have "system_inv dp pend comm pay (s\<lparr>sy_indexer := a'\<rparr>)"
    using system_inv_indexer [OF assms(1,2) inv a'] .
  ultimately show ?thesis
    using True next_event by (auto simp: system_inv_def s' simp del: take_Suc)
qed

lemma purge_in_history:
  assumes "writer_law (dp_writer dp) pend comm pay" "reg_inv r"
    and "purge_old_docs dp r a n cutoff = Ret (a', Inr u)"
  shows "\<exists>f. timestamp_field dp n f \<and> Inr (f, cutoff) \<in> set (history pend comm a' n)"
  using assms(3)
proof (cases rule: purge_cases)
  case (staged a1 m w f wr wr')
  have "idx_name d = n" if "reg_get r n = Some d" for d
    using that assms(2) by (auto simp: reg_get_def reg_inv_def split: if_splits dest: map_of_SomeD)
  with staged(6) have "timestamp_field dp n f"
    by (auto simp: timestamp_field_def)
  moreover have "Inr (f, cutoff) \<in> set (history pend comm a' n)"
    using staged(5) writer_lawD(3) [OF assms(1) staged(4)] by (simp add: history_def update_conv')
  ultimately show ?thesis by blast
qed simp_all

lemma system_inv_deliver_purge:
  assumes "writer_law (dp_writer dp) pend comm pay" "reliable (dp_writer dp)"
    and inv: "system_inv dp pend comm pay s" and step: "deliver_purge dp s = Some s'"
  shows "system_inv dp pend comm pay s'"
proof (cases "sy_purges s")
  case Nil
  with inv step show ?thesis by (simp add: deliver_purge_def)
next
  case (Cons cmd purges)
  obtain n cutoff where cmd: "cmd = (n, cutoff)" by (cases cmd)
  obtain a' res where p: "purge_old_docs dp (sy_registry s) (sy_indexer s) n cutoff = Ret (a', res)"
      and s': "s' = s\<lparr>sy_purges := purges, sy_purged := sy_purged s @ [((n, cutoff), res)], sy_indexer := a'\<rparr>"
    using step Cons cmd by (auto simp: deliver_purge_def with_indexer_Some split: run.splits prod.splits)
  have reg: "reg_inv (sy_registry s)"
    using inv by (simp add: system_inv_def)
  have "actor_step dp (Ret (sy_indexer s)) (sy_registry s, PurgeCommand n cutoff) = Ret a'"
    by (simp add: p)
  then have "system_inv dp pend comm pay (s\<lparr>sy_indexer := a'\<rparr>)"
    by (rule system_inv_indexer [OF assms(1,2) inv])
  moreover have "\<exists>f. timestamp_field dp n f \<and> Inr (f, cutoff) \<in> set (history pend comm a' n)" if "res = Inr ()"
    using purge_in_history [OF assms(1) reg p [unfolded that]] .
  ultimately show ?thesis
    by (auto simp: system_inv_def s')
qed

text \<open>A change of the manager and the world alone.\<close>

lemma system_inv_manager:
  assumes "system_inv dp pend comm pay s"
    and "schemas_built dp ((sy_indexer s)\<lparr>ac_manager := m, ac_world := w\<rparr>)"
  shows "system_inv dp pend comm pay (s\<lparr>sy_indexer := (sy_indexer s)\<lparr>ac_manager := m, ac_world := w\<rparr>\<rparr>)"
proof -
  have "history pend comm ((sy_indexer s)\<lparr>ac_manager := m, ac_world := w\<rparr>) n = history pend comm (sy_indexer s) n" for n
    by (simp add: history_def)
  then show ?thesis
    using assms by (simp add: system_inv_def actor_ok_def actor_inv_def tidy_def pending_def)
qed

lemma system_inv_open_reader:
  assumes "system_inv dp pend comm pay s" "open_reader dp n s = Some s'"
  shows "system_inv dp pend comm pay s'"
proof -
  let ?a = "sy_indexer s"
  obtain m w res where g: "get_reader (dp_schema dp) (dp_index dp) (sy_registry s) (ac_manager ?a, ac_world ?a) n =
      Ret (m, w, res)" and s': "s' = s\<lparr>sy_indexer := ?a\<lparr>ac_manager := m, ac_world := w\<rparr>\<rparr>"
    using assms(2) by (auto simp: open_reader_def split: run.splits)
  have "schemas_built dp ?a"
    using assms(1) by (simp add: system_inv_def)
  then have "schemas_built dp (?a\<lparr>ac_manager := m, ac_world := w\<rparr>)"
    using get_reader_built [OF _ g] by (simp add: schemas_built_def)
  then show ?thesis
    unfolding s' by (rule system_inv_manager [OF assms(1)])
qed

lemma system_step_inv:
  assumes "writer_law (dp_writer dp) pend comm pay" "reliable (dp_writer dp)"
    and "system_inv dp pend comm pay s" "system_step crc chr dp s e = Some s'"
  shows "system_inv dp pend comm pay s'"
proof (cases e)
  case (Request req)
  with assms(3,4) system_inv_sent show ?thesis by (metis option.inject system_step.simps(1))
next
  case WalLoop
  with assms(3,4) system_inv_sent show ?thesis by (metis option.inject system_step.simps(2))
next
  case Deliver
  with assms system_inv_deliver show ?thesis by simp
next
  case DeliverPurge
  with assms system_inv_deliver_purge show ?thesis by simp
next
  case Timer
  with assms show ?thesis
    by (auto simp: with_indexer_Some simp del: actor_step.simps intro: system_inv_indexer)
next
  case (Define op)
  with assms(4) obtain r where r: "reg_step (Ret (sy_registry s)) op = Ret r" "s' = s\<lparr>sy_registry := r\<rparr>"
    by (auto split: run.splits)
  have "run_inv (Ret (sy_registry s))"
    using assms(3) by (simp add: run_inv_def system_inv_def)
  then have "reg_inv r"
    using reg.step_inv [of "Ret (sy_registry s)" op] r(1) by (simp add: run_inv_def)
  with r(2) assms(3) show ?thesis by (simp add: system_inv_def)
next
  case (RetentionRound index_dir data_dir removes)
  with assms(3,4) show ?thesis
    by (auto simp: retention_round_def system_inv_def split: run.splits)
next
  case (OpenReader n)
  with assms(3,4) system_inv_open_reader show ?thesis by simp
next
  case (FilesChange f)
  have "schemas_built dp ((sy_indexer s)\<lparr>ac_manager := ac_manager (sy_indexer s), ac_world := f (ac_world (sy_indexer s))\<rparr>)"
    using assms(3) by (simp add: system_inv_def schemas_built_def)
  from system_inv_manager [OF assms(3) this] FilesChange assms(4) show ?thesis by simp
qed

definition system_ok ::
    "('b, 'x, 'w, 'd, 'i, 'rd, 'doc, 'f, 'wr) deps \<Rightarrow> ('wr \<Rightarrow> ('doc + 'f \<times> int) list) \<Rightarrow>
     ('wr \<Rightarrow> ('doc + 'f \<times> int) list) \<Rightarrow> ('wr \<Rightarrow> string option) \<Rightarrow>
     ('w, 'i, 'rd, 'wr) system \<Rightarrow> bool" where
  "system_ok dp pend comm pay s \<longleftrightarrow>
     (writer_law (dp_writer dp) pend comm pay \<and> reliable (dp_writer dp) \<longrightarrow> system_inv dp pend comm pay s)"

interpretation running: ending_machine "system_step crc chr dp" "system_ok dp pend comm pay"
    for crc chr dp pend comm pay
  by unfold_locales (auto simp: system_ok_def intro: system_step_inv)

text \<open>The purge commands sent so far, oldest first; a step only adds to them.\<close>

definition commands :: "('w, 'i, 'rd, 'wr) system \<Rightarrow> (string \<times> int) list" where
  "commands s = map fst (sy_purged s) @ sy_purges s"

lemma commands_step: "system_step crc chr dp s e = Some s' \<Longrightarrow> prefix (commands s) (commands s')"
  by (cases e)
    (auto simp: commands_def deliver_def deliver_purge_def retention_round_def open_reader_def with_indexer_Some
      simp del: actor_step.simps split: if_splits list.splits prod.splits run.splits)

interpretation sending: ending_machine "system_step crc chr dp" "\<lambda>s. prefix cmds (commands s)" for crc chr dp cmds
  by unfold_locales (blast intro: prefix_order.trans commands_step)

end
