(* ===== verification/Cluster.thy ===== *)
theory Cluster
  imports Index_Manager Retention Numerals
begin

text \<open>
  The information endpoints of \<open>src/api/cluster.rs\<close>: the constant answers, the totals over all
  indexes, and the table of indexes. Readers and the view of the file system are parameters;
  the totals wrap like the 64-bit integers of a release build.
\<close>

section \<open>The answers\<close>

record HealthResponse =
  hr_cluster_name :: string
  hr_status :: string
  hr_timed_out :: bool
  hr_number_of_nodes :: u32
  hr_active_primary_shards :: u32
  hr_active_shards :: u32

record ShardsInfo =
  sh_total :: u32
  sh_successful :: u32
  sh_skipped :: u32
  sh_failed :: u32

record DocsStats =
  ds_count :: u64
  ds_deleted :: u64

record StoreStats =
  ss_size_in_bytes :: u64

record IndexStats =
  is_docs :: DocsStats
  is_store :: StoreStats

record IndicesStats =
  is_primaries :: IndexStats
  is_total :: IndexStats

record StatsResponse =
  st_shards :: ShardsInfo
  st_all :: IndicesStats

record CatIndex =
  ci_health :: string
  ci_status :: string
  ci_index :: string
  ci_uuid :: string
  ci_pri :: string
  ci_rep :: string
  ci_docs_count :: string
  ci_docs_deleted :: string
  ci_store_size :: string
  ci_pri_store_size :: string

record VersionResponse =
  vr_version :: string
  vr_commit :: string
  vr_build :: string

text \<open>The three texts are fixed when the program is compiled.\<close>

definition version_handler :: "string \<Rightarrow> string \<Rightarrow> string \<Rightarrow> VersionResponse" where
  "version_handler pkg_version git_commit_hash build_date =
     \<lparr>vr_version = pkg_version, vr_commit = git_commit_hash, vr_build = build_date\<rparr>"

definition root_handler :: json where
  "root_handler =
     JObject [(''cluster_name'', JString ''edgewit''), (''name'', JString ''edgewit-node-1''),
       (''tagline'', JString ''The OpenSearch Project: https://opensearch.org/''),
       (''version'', JObject [(''build_date'', JString ''2023-10-01T00:00:00Z''),
          (''build_hash'', JString ''unknown''), (''build_snapshot'', JBool False),
          (''build_type'', JString ''binary''), (''distribution'', JString ''opensearch''),
          (''lucene_version'', JString ''9.7.0''),
          (''minimum_index_compatibility_version'', JString ''7.0.0''),
          (''minimum_wire_compatibility_version'', JString ''7.10.0''),
          (''number'', JString ''2.11.0'')])]"

definition health_handler :: HealthResponse where
  "health_handler =
     \<lparr>hr_cluster_name = ''edgewit'', hr_status = ''green'', hr_timed_out = False,
      hr_number_of_nodes = 1, hr_active_primary_shards = 0, hr_active_shards = 0\<rparr>"

section \<open>Statistics\<close>

text \<open>
  What a reader tells after it has been reloaded, and what the file system shows under a
  directory, which may have been created by opening an index.
\<close>

record ('w, 'rd) stats_api =
  sta_num_docs :: "'rd \<Rightarrow> u64"
  sta_num_segments :: "'rd \<Rightarrow> u64"
  sta_dir :: "'w \<Rightarrow> string \<Rightarrow> fs_entry list option"

definition index_size :: "('w, 'rd) stats_api \<Rightarrow> 'w \<Rightarrow> string \<Rightarrow> string \<Rightarrow> u64" where
  "index_size api w data_dir n = dir_size (sta_dir api w (path_join (path_join data_dir ''indexes'') n))"

text \<open>The loop: documents, segments and bytes so far.\<close>

fun stats_loop ::
    "('b, 'x) schema_api \<Rightarrow> ('w, 'x, 'd, 'i, 'rd) index_api \<Rightarrow> ('w, 'rd) stats_api \<Rightarrow> registry \<Rightarrow>
     string \<Rightarrow> ('i, 'rd) manager \<times> 'w \<Rightarrow> u64 \<times> u64 \<times> u64 \<Rightarrow> IndexDefinition list \<Rightarrow>
     (('i, 'rd) manager \<times> 'w \<times> u64 \<times> u64 \<times> u64) run" where
  "stats_loop sapi iapi api r data_dir mw acc [] = Ret (fst mw, snd mw, acc)"
| "stats_loop sapi iapi api r data_dir mw acc (def # defs) =
     (case acc of (num_docs, num_segments, total_size) \<Rightarrow>
        let total_size' = total_size + index_size api (snd mw) data_dir (idx_name def) in
        run_bind (get_reader sapi iapi r mw (idx_name def))
          (\<lambda>(m, w, res). case res of
             Inr reader \<Rightarrow>
               stats_loop sapi iapi api r data_dir (m, w)
                 (num_docs + sta_num_docs api reader, num_segments + sta_num_segments api reader, total_size')
                 defs
           | Inl _ \<Rightarrow>
               stats_loop sapi iapi api r data_dir (m, w) (num_docs, num_segments, total_size') defs))"

definition index_stats :: "u64 \<Rightarrow> u64 \<Rightarrow> IndexStats" where
  "index_stats num_docs total_size =
     \<lparr>is_docs = \<lparr>ds_count = num_docs, ds_deleted = 0\<rparr>, is_store = \<lparr>ss_size_in_bytes = total_size\<rparr>\<rparr>"

definition stats_handler ::
    "('b, 'x) schema_api \<Rightarrow> ('w, 'x, 'd, 'i, 'rd) index_api \<Rightarrow> ('w, 'rd) stats_api \<Rightarrow> registry \<Rightarrow>
     string \<Rightarrow> ('i, 'rd) manager \<times> 'w \<Rightarrow> (('i, 'rd) manager \<times> 'w \<times> StatsResponse) run" where
  "stats_handler sapi iapi api r data_dir mw =
     run_bind (stats_loop sapi iapi api r data_dir mw (0, 0, 0) (reg_list r))
       (\<lambda>(m, w, num_docs, num_segments, total_size).
          Ret (m, w,
            \<lparr>st_shards = \<lparr>sh_total = 0, sh_successful = 0, sh_skipped = 0, sh_failed = 0\<rparr>,
             st_all = \<lparr>is_primaries = index_stats num_docs total_size,
                       is_total = index_stats num_docs total_size\<rparr>\<rparr>))"

section \<open>The table of indexes\<close>

definition cat_row :: "string \<Rightarrow> u64 \<Rightarrow> u64 \<Rightarrow> CatIndex" where
  "cat_row index num_docs size_bytes =
     \<lparr>ci_health = ''green'', ci_status = ''open'', ci_index = index, ci_uuid = ''unknown'',
      ci_pri = ''1'', ci_rep = ''0'', ci_docs_count = decimal_text (unat num_docs),
      ci_docs_deleted = ''0'', ci_store_size = decimal_text (unat size_bytes) @ ''b'',
      ci_pri_store_size = decimal_text (unat size_bytes) @ ''b''\<rparr>"

fun cat_rows ::
    "('b, 'x) schema_api \<Rightarrow> ('w, 'x, 'd, 'i, 'rd) index_api \<Rightarrow> ('w, 'rd) stats_api \<Rightarrow> registry \<Rightarrow>
     string \<Rightarrow> ('i, 'rd) manager \<times> 'w \<Rightarrow> IndexDefinition list \<Rightarrow>
     (('i, 'rd) manager \<times> 'w \<times> CatIndex list) run" where
  "cat_rows sapi iapi api r data_dir mw [] = Ret (fst mw, snd mw, [])"
| "cat_rows sapi iapi api r data_dir mw (def # defs) =
     run_bind (get_reader sapi iapi r mw (idx_name def))
       (\<lambda>(m, w, res).
          let num_docs = (case res of Inr reader \<Rightarrow> sta_num_docs api reader | Inl _ \<Rightarrow> 0);
              row = cat_row (idx_name def) num_docs (index_size api w data_dir (idx_name def))
          in run_bind (cat_rows sapi iapi api r data_dir (m, w) defs)
               (\<lambda>(m', w', rows). Ret (m', w', row # rows)))"

definition placeholder_row :: CatIndex where
  "placeholder_row =
     \<lparr>ci_health = ''green'', ci_status = ''open'', ci_index = ''edgewit'', ci_uuid = ''unknown'',
      ci_pri = ''1'', ci_rep = ''0'', ci_docs_count = ''0'', ci_docs_deleted = ''0'',
      ci_store_size = ''0b'', ci_pri_store_size = ''0b''\<rparr>"

definition cat_indexes_handler ::
    "('b, 'x) schema_api \<Rightarrow> ('w, 'x, 'd, 'i, 'rd) index_api \<Rightarrow> ('w, 'rd) stats_api \<Rightarrow> registry \<Rightarrow>
     string \<Rightarrow> ('i, 'rd) manager \<times> 'w \<Rightarrow> (('i, 'rd) manager \<times> 'w \<times> CatIndex list) run" where
  "cat_indexes_handler sapi iapi api r data_dir mw =
     (if reg_list r = [] then Ret (fst mw, snd mw, [placeholder_row])
      else cat_rows sapi iapi api r data_dir mw (reg_list r))"

section \<open>The two endpoints agree\<close>

text \<open>The reader each index is served by.\<close>

definition readers_cached :: "('i, 'rd) manager \<Rightarrow> IndexDefinition list \<Rightarrow> (string \<Rightarrow> 'rd) \<Rightarrow> bool" where
  "readers_cached m defs reader \<longleftrightarrow> (\<forall>d \<in> set defs. map_of (im_readers m) (idx_name d) = Some (reader (idx_name d)))"

lemma get_reader_cached:
  "map_of (im_readers m) n = Some rd \<Longrightarrow> get_reader sapi iapi r (m, w) n = Ret (m, w, Inr rd)"
  by (simp add: get_reader_def)

lemma stats_loop_cached:
  "readers_cached m defs reader \<Longrightarrow>
   stats_loop sapi iapi api r data_dir (m, w) (a, b, c) defs =
     Ret (m, w, a + sum_list (map (\<lambda>d. sta_num_docs api (reader (idx_name d))) defs),
       b + sum_list (map (\<lambda>d. sta_num_segments api (reader (idx_name d))) defs),
       c + sum_list (map (\<lambda>d. index_size api w data_dir (idx_name d)) defs))"
  by (induction defs arbitrary: a b c) (simp_all add: readers_cached_def get_reader_cached add.assoc)

lemma cat_rows_cached:
  "readers_cached m defs reader \<Longrightarrow>
   cat_rows sapi iapi api r data_dir (m, w) defs =
     Ret (m, w, map (\<lambda>d. cat_row (idx_name d) (sta_num_docs api (reader (idx_name d)))
       (index_size api w data_dir (idx_name d))) defs)"
  by (induction defs) (simp_all add: readers_cached_def get_reader_cached)

definition docs_of_row :: "CatIndex \<Rightarrow> u64" where
  "docs_of_row row = (case parse_u64 (ci_docs_count row) of Some n \<Rightarrow> n | None \<Rightarrow> 0)"

definition bytes_of_row :: "CatIndex \<Rightarrow> u64" where
  "bytes_of_row row = (case parse_u64 (butlast (ci_store_size row)) of Some n \<Rightarrow> n | None \<Rightarrow> 0)"

lemma row_numbers [simp]:
  "docs_of_row (cat_row n docs bytes) = docs" "bytes_of_row (cat_row n docs bytes) = bytes"
  by (simp_all add: docs_of_row_def bytes_of_row_def cat_row_def parse_decimal_text butlast_append)

text \<open>
  C23. The two endpoints agree. When some index is registered and the readers are open,
  the table has one row per registered index, in the order of the registry, and the totals of
  \<open>_stats\<close> are the sums of the numbers in the table, modulo 2^64. Neither request changes
  anything.
\<close>

theorem stats_agree_with_cat:
  assumes "reg_list r \<noteq> []" "readers_cached m (reg_list r) reader"
  shows "\<exists>rows stats.
    cat_indexes_handler sapi iapi api r data_dir (m, w) = Ret (m, w, rows) \<and>
    stats_handler sapi iapi api r data_dir (m, w) = Ret (m, w, stats) \<and>
    map ci_index rows = map idx_name (reg_list r) \<and>
    ds_count (is_docs (is_total (st_all stats))) = sum_list (map docs_of_row rows) \<and>
    ss_size_in_bytes (is_store (is_total (st_all stats))) = sum_list (map bytes_of_row rows)"
  using assms
  by (simp add: cat_indexes_handler_def stats_handler_def cat_rows_cached stats_loop_cached index_stats_def comp_def)
    (simp add: cat_row_def)

lemma registered_listed:
  assumes "reg_inv r" "reg_get r n = Some def"
  shows "def \<in> set (reg_list r)" "distinct (map idx_name (reg_list r))" "idx_name def = n"
proof -
  have r: "\<not> reg_poisoned r" "(n, def) \<in> set (reg_indexes r)"
    using assms(2) by (auto simp: reg_get_def split: if_splits dest: map_of_SomeD)
  then show "def \<in> set (reg_list r)" by (force simp: reg_list_def)
  show "idx_name def = n"
    using assms(1) r(2) by (auto simp: reg_inv_def)
  have "map (idx_name \<circ> snd) (reg_indexes r) = map fst (reg_indexes r)"
    using assms(1) by (auto simp: reg_inv_def)
  moreover have "distinct (map fst (reg_indexes r))"
    using assms(1) by (simp add: reg_inv_def hm_wf_def)
  ultimately have "distinct (map (idx_name \<circ> snd) (reg_indexes r))"
    by (simp only:)
  with r(1) show "distinct (map idx_name (reg_list r))"
    by (simp add: reg_list_def)
qed

text \<open>
  A definition that cannot be built into a schema does not only fail for its own index:
  while it is registered and its index is not open, every request for the statistics panics and
  so ends the server, whatever else is registered.
\<close>

theorem stats_panics:
  assumes "reg_inv r" "reg_get r n = Some def" "build_schema sapi def = Panicked"
    and "map_of (im_indexes m) n = None" "map_of (im_readers m) n = None"
  shows "stats_handler sapi iapi api r data_dir (m, w) = Panicked"
proof -
  note listed = registered_listed [OF assms(1,2)]
  have "stats_loop sapi iapi api r data_dir (m, w) acc defs = Panicked"
    if "def \<in> set defs" "distinct (map idx_name defs)" "map_of (im_indexes m) (idx_name def) = None" "map_of (im_readers m) (idx_name def) = None"
    for defs acc m w
    using that
  proof (induction defs arbitrary: m w acc)
    case (Cons d defs)
    obtain a b c where acc: "acc = (a, b, c)" by (cases acc)
    show ?case
    proof (cases "d = def")
      case True
      have "get_or_create_index sapi iapi r (m, w) (idx_name def) = Panicked"
        using assms(2,3) Cons.prems(3) listed(3) by (simp add: get_or_create_index_def)
      with True Cons.prems(4) show ?thesis
        by (simp add: acc get_reader_def Let_def)
    next
      case False
      with Cons.prems have rest: "def \<in> set defs" "idx_name d \<noteq> idx_name def"
        by auto
      have "map_of (im_indexes m') (idx_name def) = None \<and> map_of (im_readers m') (idx_name def) = None"
        if "get_reader sapi iapi r (m, w) (idx_name d) = Ret (m', w', res)" for m' w' res
        using get_reader_other [OF that, of "idx_name def"] rest(2) Cons.prems(3,4) by simp
      with Cons.IH [OF rest(1)] Cons.prems(2) show ?thesis
        by (auto simp: acc Let_def run_bind_case split: run.split sum.split)
    qed
  qed simp
  from this [OF listed(1,2)] assms(4,5) listed(3) show ?thesis
    by (simp add: stats_handler_def)
qed

section \<open>Witnesses\<close>

definition one_index :: "IndexDefinition \<Rightarrow> registry" where
  "one_index d = \<lparr>reg_indexes = [(idx_name d, d)], reg_poisoned = False\<rparr>"

definition demo_stats :: "(string list, u64) stats_api" where
  "demo_stats = \<lparr>sta_num_docs = (\<lambda>rd. rd), sta_num_segments = (\<lambda>_. 1), sta_dir = (\<lambda>_ _. Some [FsFile 7])\<rparr>"

theorem stats_agree_with_cat_witness:
  "\<exists>rows stats.
    cat_indexes_handler list_api demo_index_api demo_stats (one_index logs_definition) ''.''
      (new_manager ''.'' 20\<lparr>im_readers := [(idx_name logs_definition, 5)]\<rparr>, []) =
      Ret (new_manager ''.'' 20\<lparr>im_readers := [(idx_name logs_definition, 5)]\<rparr>, [], rows) \<and>
    map ci_index rows = [idx_name logs_definition]"
  using stats_agree_with_cat [of "one_index logs_definition"
      "new_manager ''.'' 20\<lparr>im_readers := [(idx_name logs_definition, 5)]\<rparr>" "\<lambda>_. 5"]
  by (fastforce simp: one_index_def reg_list_def readers_cached_def)

lemma reserved_panics: "build_schema list_api reserved_definition = Panicked"
  unfolding build_schema_entries
  by (simp add: reserved_definition_def index_of_fields_def schema_entries_def list_api_def field_of_type_def default_mode_def)

theorem stats_panics_witness:
  "validate reserved_definition = Ret (Inr ()) \<and>
    stats_handler list_api demo_index_api demo_stats (one_index reserved_definition) ''.'' (new_manager ''.'' 20, []) = Panicked"
proof
  show valid: "validate reserved_definition = Ret (Inr ())"
    by (simp add: reserved_definition_def index_of_fields_def validate_def validate_schema_def default_partition_def)
  show "stats_handler list_api demo_index_api demo_stats (one_index reserved_definition) ''.'' (new_manager ''.'' 20, []) = Panicked"
    by (rule stats_panics [OF _ _ reserved_panics, where n = "idx_name reserved_definition"])
      (use valid in \<open>simp_all add: one_index_def reg_inv_def hm_wf_def passes_check_def reg_get_def new_manager_def\<close>)
qed

end
