(* ===== verification/Search.thy ===== *)
theory Search
  imports Cluster "HOL-Library.Sorting_Algorithms"
begin

text \<open>
  The search endpoint of \<open>src/api/search.rs\<close>: the translation of a request into a query
  string, the collection of hits over the readers, the page and its documents. Tantivy's
  readers, query parser, collectors and aggregations are parameters. A score is a value of any
  type with a comparator: the scores Tantivy computes are never NaN.
\<close>

section \<open>Requests\<close>

record SearchQueryParams =
  sp_q :: "string option"
  sp_from :: "u64 option"
  sp_size :: "u64 option"

record 'g SearchRequestBody =
  sb_query :: "json option"
  sb_from :: "u64 option"
  sb_size :: "u64 option"
  sb_sort :: "json option"
  sb_aggs :: "'g option"

section \<open>The query string\<close>

text \<open>The text of one entry of a \<open>match\<close> object, if the code finds one.\<close>

definition match_text :: "string \<times> json \<Rightarrow> string option" where
  "match_text e =
     (case e of (k, v) \<Rightarrow>
        case as_str v of
          Some s \<Rightarrow> Some (k @ '':'' @ s)
        | None \<Rightarrow>
            (case as_object v of
               None \<Rightarrow> None
             | Some _ \<Rightarrow>
                 (case json_get v ''query'' of
                    None \<Rightarrow> None
                  | Some qv \<Rightarrow>
                      (case as_str qv of Some q_val \<Rightarrow> Some (k @ '':'' @ q_val) | None \<Rightarrow> None))))"

fun first_match :: "(string \<times> json) list \<Rightarrow> string option" where
  "first_match [] = None"
| "first_match (e # es) = (case match_text e of Some s \<Rightarrow> Some s | None \<Rightarrow> first_match es)"

definition phrase_text :: "string \<times> json \<Rightarrow> string option" where
  "phrase_text e =
     (case e of (k, v) \<Rightarrow>
        case as_str v of
          Some s \<Rightarrow> Some (k @ '':'' @ [CHR 0x22] @ s @ [CHR 0x22])
        | None \<Rightarrow> None)"

text \<open>The texts an item of a \<open>must\<close> array contributes.\<close>

definition must_parts :: "json \<Rightarrow> string list" where
  "must_parts item =
     (case Option.bind (json_get item ''match'') as_object of
        Some obj \<Rightarrow> List.map_filter match_text obj
      | None \<Rightarrow>
          (case Option.bind (json_get item ''match_phrase'') as_object of
             Some obj \<Rightarrow> List.map_filter phrase_text obj
           | None \<Rightarrow> []))"

fun join_and :: "string list \<Rightarrow> string" where
  "join_and [] = []"
| "join_and [s] = s"
| "join_and (s # ss) = s @ '' AND '' @ join_and ss"

definition query_string_of :: "json \<Rightarrow> string option" where
  "query_string_of q =
     Option.bind (json_get q ''query_string'') (\<lambda>qs. Option.bind (json_get qs ''query'') as_str)"

definition match_of :: "json \<Rightarrow> string option" where
  "match_of q = Option.bind (Option.bind (json_get q ''match'') as_object) first_match"

definition must_of :: "json \<Rightarrow> string list" where
  "must_of q =
     (case Option.bind (Option.bind (json_get q ''bool'') (\<lambda>b. json_get b ''must'')) as_array of
        Some arr \<Rightarrow> concat (map must_parts arr)
      | None \<Rightarrow> [])"

definition query_text :: "json \<Rightarrow> string" where
  "query_text q =
     (case query_string_of q of
        Some s \<Rightarrow> s
      | None \<Rightarrow>
          if json_get q ''match_all'' \<noteq> None then ''*''
          else (case match_of q of
             Some s \<Rightarrow> s
           | None \<Rightarrow> if must_of q \<noteq> [] then join_and (must_of q) else ''*''))"

definition extract_query_string :: "SearchQueryParams \<Rightarrow> 'g SearchRequestBody option \<Rightarrow> string" where
  "extract_query_string params body =
     (case sp_q params of
        Some q \<Rightarrow> q
      | None \<Rightarrow>
          (case body of
             Some b \<Rightarrow> (case sb_query b of Some q \<Rightarrow> query_text q | None \<Rightarrow> ''*'')
           | None \<Rightarrow> ''*''))"

section \<open>Responses\<close>

record 'sc Hit =
  hit_index :: string
  hit_id :: string
  hit_score :: "'sc option"
  hit_source :: json

record ('sc, 'ar) SearchResponse =
  sr_took :: u64
  sr_timed_out :: bool
  sr_shards :: ShardsInfo
  sr_total_value :: u64
  sr_total_relation :: string
  sr_max_score :: "'sc option"
  sr_hits :: "'sc Hit list"
  sr_aggregations :: "'ar option"

section \<open>Running a search\<close>

text \<open>
  Tantivy: the searcher of a reader while hits are collected and the one used afterwards to read
  the documents, which may be newer; whether a schema has a field; the query parser with its
  default field; a search with a limit on the hits, with and without aggregations, giving the
  count and the best hits; merging and finishing aggregations; and the text form of a stored
  document. \<open>sa_json\<close> is the JSON parser and \<open>sa_cmp\<close> the order of scores.
\<close>

record ('rd, 'sv, 'q, 'g, 'ia, 'ar, 'addr, 'sc) search_api =
  sa_searcher :: "'rd \<Rightarrow> 'sv"
  sa_later_searcher :: "'rd \<Rightarrow> 'sv"
  sa_has_field :: "'sv \<Rightarrow> string \<Rightarrow> bool"
  sa_parse :: "'sv \<Rightarrow> string \<Rightarrow> string \<Rightarrow> string + 'q"
  sa_all :: 'q
  sa_search :: "'sv \<Rightarrow> 'q \<Rightarrow> u64 \<Rightarrow> string + (u64 \<times> ('sc \<times> 'addr) list)"
  sa_search_aggs :: "'sv \<Rightarrow> 'q \<Rightarrow> u64 \<Rightarrow> 'g \<Rightarrow> string + (u64 \<times> ('sc \<times> 'addr) list \<times> 'ia)"
  sa_merge :: "'ia \<Rightarrow> 'ia \<Rightarrow> 'ia"
  sa_final :: "'ia \<Rightarrow> 'g \<Rightarrow> 'ar option"
  sa_doc :: "'sv \<Rightarrow> 'addr \<Rightarrow> string + string"
  sa_json :: "string \<Rightarrow> json option"
  sa_cmp :: "'sc comparator"

text \<open>\<open>from + size\<close> wraps in a release build; the documented contract of \<open>TopDocs\<close> is a panic for
  a limit of 0.\<close>

definition hit_limit :: "u64 \<Rightarrow> u64 \<Rightarrow> u64" where
  "hit_limit from0 size0 = (if size0 = 0 then 1 else from0 + size0)"

definition default_query_field ::
    "('rd, 'sv, 'q, 'g, 'ia, 'ar, 'addr, 'sc) search_api \<Rightarrow> 'sv \<Rightarrow> string option" where
  "default_query_field api sv =
     (if sa_has_field api sv ''_dynamic'' then Some ''_dynamic''
      else if sa_has_field api sv ''_source'' then Some ''_source''
      else None)"

definition build_query ::
    "('rd, 'sv, 'q, 'g, 'ia, 'ar, 'addr, 'sc) search_api \<Rightarrow> 'sv \<Rightarrow> string \<Rightarrow> string \<Rightarrow> string + 'q" where
  "build_query api sv source_field query_str =
     (if trim query_str = [] \<or> trim query_str = ''*'' then Inr (sa_all api)
      else case sa_parse api sv source_field query_str of
        Inl e \<Rightarrow> Inl (''Invalid query: '' @ e)
      | Inr q \<Rightarrow> Inr q)"

text \<open>What has been collected: the number of documents, the hits with the number of their reader,
  and the aggregations.\<close>

type_synonym ('sc, 'addr, 'ia) collected = "u64 \<times> ('sc \<times> nat \<times> 'addr) list \<times> 'ia option"

definition collect_reader ::
    "('rd, 'sv, 'q, 'g, 'ia, 'ar, 'addr, 'sc) search_api \<Rightarrow> string \<Rightarrow> u64 \<Rightarrow> 'g option \<Rightarrow> nat \<Rightarrow> 'rd \<Rightarrow>
     ('sc, 'addr, 'ia) collected \<Rightarrow> (string + ('sc, 'addr, 'ia) collected) run" where
  "collect_reader api query_str limit aggs reader_idx reader acc =
     (case acc of (total0, hits0, aggs0) \<Rightarrow>
        let sv = sa_searcher api reader in
        case default_query_field api sv of
          None \<Rightarrow> Ret (Inr acc)
        | Some source_field \<Rightarrow>
            (case build_query api sv source_field query_str of
               Inl e \<Rightarrow> Ret (Inl e)
             | Inr query \<Rightarrow>
                 if limit = 0 then Panicked
                 else
                   (case aggs of
                      Some req \<Rightarrow>
                        (case sa_search_aggs api sv query limit req of
                           Inl e \<Rightarrow> Ret (Inl (''Search error: '' @ e))
                         | Inr (docs, top_docs, aggs_res) \<Rightarrow>
                             Ret (Inr (total0 + docs,
                               hits0 @ map (\<lambda>(score, addr). (score, reader_idx, addr)) top_docs,
                               (case aggs0 of
                                  Some existing \<Rightarrow> Some (sa_merge api existing aggs_res)
                                | None \<Rightarrow> Some aggs_res))))
                    | None \<Rightarrow>
                        (case sa_search api sv query limit of
                           Inl e \<Rightarrow> Ret (Inl (''Search error: '' @ e))
                         | Inr (docs, top_docs) \<Rightarrow>
                             Ret (Inr (total0 + docs,
                               hits0 @ map (\<lambda>(score, addr). (score, reader_idx, addr)) top_docs, aggs0))))))"

fun collect_all ::
    "('rd, 'sv, 'q, 'g, 'ia, 'ar, 'addr, 'sc) search_api \<Rightarrow> string \<Rightarrow> u64 \<Rightarrow> 'g option \<Rightarrow> nat \<Rightarrow> 'rd list \<Rightarrow>
     ('sc, 'addr, 'ia) collected \<Rightarrow> (string + ('sc, 'addr, 'ia) collected) run" where
  "collect_all api query_str limit aggs i [] acc = Ret (Inr acc)"
| "collect_all api query_str limit aggs i (rd # rds) acc =
     run_bind (collect_reader api query_str limit aggs i rd acc)
       (\<lambda>res. case res of
          Inl e \<Rightarrow> Ret (Inl e)
        | Inr acc' \<Rightarrow> collect_all api query_str limit aggs (Suc i) rds acc')"

text \<open>The source and the index name found in the text of a document.\<close>

definition source_of :: "json \<Rightarrow> json" where
  "source_of parsed =
     (case json_get parsed ''_source'' of
        None \<Rightarrow> JNull
      | Some v \<Rightarrow>
          (case as_array v of
             Some arr \<Rightarrow> (case arr of x # _ \<Rightarrow> x | [] \<Rightarrow> JNull)
           | None \<Rightarrow> v))"

definition index_of :: "json \<Rightarrow> string" where
  "index_of parsed =
     (case Option.bind (json_get parsed ''_index'') as_array of
        Some (x # _) \<Rightarrow> (case as_str x of Some s \<Rightarrow> s | None \<Rightarrow> ''unknown'')
      | _ \<Rightarrow> ''unknown'')"

definition make_hit :: "'sc \<Rightarrow> json option \<Rightarrow> 'sc Hit" where
  "make_hit score doc_json =
     \<lparr>hit_index = (case doc_json of Some parsed \<Rightarrow> index_of parsed | None \<Rightarrow> ''unknown''),
      hit_id = ''unknown'', hit_score = Some score,
      hit_source = (case doc_json of Some parsed \<Rightarrow> source_of parsed | None \<Rightarrow> JNull)\<rparr>"

text \<open>The loop over the page, with the first score as the maximum.\<close>

fun retrieve ::
    "('rd, 'sv, 'q, 'g, 'ia, 'ar, 'addr, 'sc) search_api \<Rightarrow> 'rd list \<Rightarrow> ('sc \<times> nat \<times> 'addr) list \<Rightarrow>
     string + 'sc Hit list" where
  "retrieve api readers [] = Inr []"
| "retrieve api readers ((score, reader_idx, addr) # page) =
     (case sa_doc api (sa_later_searcher api (readers ! reader_idx)) addr of
        Inl e \<Rightarrow> Inl (''Failed to retrieve doc: '' @ e)
      | Inr doc_json \<Rightarrow>
          (case retrieve api readers page of
             Inl e \<Rightarrow> Inl e
           | Inr hits \<Rightarrow> Inr (make_hit score (sa_json api doc_json) # hits)))"

definition page_of :: "u64 \<Rightarrow> u64 \<Rightarrow> 'a list \<Rightarrow> 'a list" where
  "page_of from0 size0 hits = take (if size0 = 0 then 0 else unat size0) (drop (unat from0) hits)"

definition execute_search ::
    "('rd, 'sv, 'q, 'g, 'ia, 'ar, 'addr, 'sc) search_api \<Rightarrow> u64 \<Rightarrow> 'rd list \<Rightarrow> string \<Rightarrow> u64 \<Rightarrow> u64 \<Rightarrow>
     'g option \<Rightarrow> (string + ('sc, 'ar) SearchResponse) run" where
  "execute_search api took readers query_str from0 size0 aggs =
     run_bind (collect_all api query_str (hit_limit from0 size0) aggs 0 readers (0, [], None))
       (\<lambda>res. case res of
          Inl e \<Rightarrow> Ret (Inl e)
        | Inr (docs, hits, global_aggs) \<Rightarrow>
            let page = page_of from0 size0 (sort (key fst (reversed (sa_cmp api))) hits) in
            (case retrieve api readers page of
               Inl e \<Rightarrow> Ret (Inl e)
             | Inr found \<Rightarrow>
                 Ret (Inr
                   \<lparr>sr_took = took, sr_timed_out = False,
                    sr_shards = \<lparr>sh_total = of_nat (length readers), sh_successful = of_nat (length readers),
                       sh_skipped = 0, sh_failed = 0\<rparr>,
                    sr_total_value = docs, sr_total_relation = ''eq'',
                    sr_max_score = (case page of [] \<Rightarrow> None | (score, _) # _ \<Rightarrow> Some score),
                    sr_hits = found,
                    sr_aggregations =
                      (case (global_aggs, aggs) of
                         (Some ia, Some req) \<Rightarrow> sa_final api ia req
                       | _ \<Rightarrow> None)\<rparr>)))"

section \<open>The handler\<close>

definition or_default :: "'a option \<Rightarrow> 'a option \<Rightarrow> 'a \<Rightarrow> 'a" where
  "or_default a b d = (case a of Some x \<Rightarrow> x | None \<Rightarrow> (case b of Some x \<Rightarrow> x | None \<Rightarrow> d))"

definition index_search_handler ::
    "('b, 'x) schema_api \<Rightarrow> ('w, 'x, 'd, 'i, 'rd) index_api \<Rightarrow>
     ('rd, 'sv, 'q, 'g, 'ia, 'ar, 'addr, 'sc) search_api \<Rightarrow> u64 \<Rightarrow> registry \<Rightarrow> ('i, 'rd) manager \<times> 'w \<Rightarrow>
     string \<Rightarrow> SearchQueryParams \<Rightarrow> 'g SearchRequestBody option \<Rightarrow>
     (('i, 'rd) manager \<times> 'w \<times> ((nat \<times> string) + ('sc, 'ar) SearchResponse)) run" where
  "index_search_handler sapi iapi api took r mw index params body =
     (let query_str = extract_query_string params body;
          from0 = or_default (sp_from params) (Option.bind body sb_from) 0;
          size0 = or_default (sp_size params) (Option.bind body sb_size) 10;
          aggs = Option.bind body sb_aggs
      in run_bind (get_reader sapi iapi r mw index)
        (\<lambda>(m, w, res).
           let readers = (case res of Inr reader \<Rightarrow> [reader] | Inl _ \<Rightarrow> []) in
           run_bind (execute_search api took readers query_str from0 size0 aggs)
             (\<lambda>out. case out of
                Inr resp \<Rightarrow> Ret (m, w, Inr resp)
              | Inl e \<Rightarrow> Ret (m, w, Inl (400, ''Search error: '' @ e)))))"

section \<open>Pages\<close>

lemma sorted_sort_id: "sorted cmp xs \<Longrightarrow> sort cmp xs = xs"
proof (induction xs rule: sorted_induct)
  case Nil
  then show ?case by simp
next
  case (Cons x xs)
  then show ?case by (simp add: insort_eq_ConsI)
qed

lemma map_pair_fst: "map fst (map (\<lambda>(s, a). (s, i, a)) xs) = map fst xs"
  by (induction xs) auto

lemma sorted_fst_cong:
  "map fst xs = map fst ys \<Longrightarrow> sorted (key fst cmp) xs \<longleftrightarrow> sorted (key fst cmp) ys"
proof (induction xs arbitrary: ys rule: induct_list012)
  case (2 x)
  then show ?case by (cases ys rule: remdups_adj.cases) auto
next
  case (3 x x' xs)
  obtain y y' ys' where ys: "ys = y # y' # ys'" "fst y = fst x" "fst y' = fst x'"
      "map fst (x' # xs) = map fst (y' # ys')"
    using "3.prems" by (cases ys rule: remdups_adj.cases) auto
  with "3.IH"(2) [of "y' # ys'"] show ?case by simp
qed simp

lemma sorted_take: "sorted cmp xs \<Longrightarrow> sorted cmp (take n xs)"
proof (induction xs arbitrary: n rule: induct_list012)
  case (2 x)
  then show ?case by (cases n) simp_all
next
  case (3 x y zs)
  show ?case
  proof (cases n)
    case (Suc k)
    with "3.IH"(2) [of k] "3.prems" show ?thesis by (cases k) simp_all
  qed simp
qed simp

text \<open>
  What Tantivy does for one reader and query: \<open>ranking\<close> is the list of all matching documents in
  the order of their scores, best first; a search with a limit for which there is memory, at most
  \<open>cap\<close>, returns their number and the best ones, and the text of each document can be read
  afterwards.
\<close>

definition ranks ::
    "('rd, 'sv, 'q, 'g, 'ia, 'ar, 'addr, 'sc) search_api \<Rightarrow> 'rd \<Rightarrow> string \<Rightarrow> nat \<Rightarrow>
     ('sc \<times> 'addr) list \<Rightarrow> ('addr \<Rightarrow> string) \<Rightarrow> bool" where
  "ranks api rd query_str cap ranking doc_text \<longleftrightarrow>
     0 < cap \<and> cap < 2 ^ 64 \<and>
     sorted (key fst (reversed (sa_cmp api))) ranking \<and>
     (\<exists>f q. default_query_field api (sa_searcher api rd) = Some f \<and>
        build_query api (sa_searcher api rd) f query_str = Inr q \<and>
        (\<forall>limit. limit \<noteq> 0 \<and> unat limit \<le> cap \<longrightarrow>
           sa_search api (sa_searcher api rd) q limit =
             Inr (of_nat (length ranking), take (unat limit) ranking))) \<and>
     (\<forall>(score, addr) \<in> set ranking. sa_doc api (sa_later_searcher api rd) addr = Inr (doc_text addr))"

lemma retrieve_page:
  "(\<forall>(score, addr) \<in> set page. sa_doc api (sa_later_searcher api rd) addr = Inr (doc_text addr)) \<Longrightarrow>
   retrieve api [rd] (map (\<lambda>(score, addr). (score, 0, addr)) page) =
     Inr (map (\<lambda>(score, addr). make_hit score (sa_json api (doc_text addr))) page)"
  by (induction page) auto

lemma search_hits:
  assumes "ranks api rd query_str cap ranking doc_text" "unat from0 + unat size0 \<le> cap"
  shows "\<exists>resp. execute_search api took [rd] query_str from0 size0 None = Ret (Inr resp) \<and>
    sr_total_value resp = of_nat (length ranking) \<and>
    sr_hits resp = map (\<lambda>(score, addr). make_hit score (sa_json api (doc_text addr)))
      (take (unat size0) (drop (unat from0) ranking)) \<and>
    sr_max_score resp = (case drop (unat from0) ranking of
      (score, _) # _ \<Rightarrow> if size0 = 0 then None else Some score | [] \<Rightarrow> None)"
proof -
  let ?limit = "hit_limit from0 size0"
  let ?cmp = "key fst (reversed (sa_cmp api))"
  let ?tag = "\<lambda>(score, addr). (score, 0 :: nat, addr)"
  let ?page = "take (unat size0) (drop (unat from0) ranking)"
  have sum: "unat (from0 + size0) = unat from0 + unat size0"
    using assms by (simp add: ranks_def unat_plus_if_size word_size)
  then have limit: "?limit \<noteq> 0" "unat ?limit \<le> cap"
    using assms by (auto simp: ranks_def hit_limit_def unat_eq_0 [symmetric] simp del: unat_eq_0)
  obtain f q where q: "default_query_field api (sa_searcher api rd) = Some f"
      "build_query api (sa_searcher api rd) f query_str = Inr q"
      "sa_search api (sa_searcher api rd) q ?limit = Inr (of_nat (length ranking), take (unat ?limit) ranking)"
    using assms(1) limit unfolding ranks_def by blast
  have collected: "collect_all api query_str ?limit None 0 [rd] (0, [], None) =
      Ret (Inr (of_nat (length ranking), map ?tag (take (unat ?limit) ranking), None))"
    using q limit by (simp add: collect_reader_def Let_def)
  have "sorted ?cmp (take (unat ?limit) ranking)"
    using assms(1) by (simp add: ranks_def sorted_take)
  moreover have "map fst (map ?tag (take (unat ?limit) ranking)) = map fst (take (unat ?limit) ranking)"
    by (rule map_pair_fst)
  ultimately have "sorted ?cmp (map ?tag (take (unat ?limit) ranking))"
    using sorted_fst_cong by blast
  then have sorted: "sort ?cmp (map ?tag (take (unat ?limit) ranking)) = map ?tag (take (unat ?limit) ranking)"
    by (rule sorted_sort_id)
  have page: "page_of from0 size0 (map ?tag (take (unat ?limit) ranking)) = map ?tag ?page"
  proof (cases "size0 = 0")
    case True
    then show ?thesis by (simp add: page_of_def)
  next
    case False
    then have "unat ?limit = unat from0 + unat size0"
      using sum by (simp add: hit_limit_def)
    then show ?thesis
      using False by (simp add: page_of_def drop_map take_map drop_take)
  qed
  have "\<forall>(score, addr) \<in> set ?page. sa_doc api (sa_later_searcher api rd) addr = Inr (doc_text addr)"
    using assms(1) unfolding ranks_def by (meson in_set_dropD in_set_takeD)
  then have got: "retrieve api [rd] (map ?tag ?page) =
      Inr (map (\<lambda>(score, addr). make_hit score (sa_json api (doc_text addr))) ?page)"
    by (rule retrieve_page)
  have max: "(case map ?tag ?page of [] \<Rightarrow> None | (score, _) # _ \<Rightarrow> Some score) =
      (case drop (unat from0) ranking of
         (score, _) # _ \<Rightarrow> if size0 = 0 then None else Some score | [] \<Rightarrow> None)"
    by (cases "drop (unat from0) ranking"; cases "unat size0") (auto simp: unat_eq_0)
  show ?thesis
    unfolding execute_search_def collected run_bind.simps sum.case prod.case sorted page got Let_def
    using max by simp
qed

text \<open>
  C19. A search returns the requested page. When Tantivy ranks the matching documents of an index
  and \<open>from + size\<close> is in reach of the collector, the answer counts all of them and its hits are exactly the
  documents at positions \<open>from\<close> to \<open>from + size\<close> of the ranking, in order, with their scores and
  sources; the maximal score it reports is that of the first hit on the page.
\<close>

theorem search_page:
  assumes "ranks api rd query_str cap ranking doc_text" "unat from0 + unat size0 \<le> cap"
  shows "\<exists>resp. execute_search api took [rd] query_str from0 size0 None = Ret (Inr resp) \<and>
    sr_total_value resp = of_nat (length ranking) \<and>
    sr_hits resp = map (\<lambda>(score, addr). make_hit score (sa_json api (doc_text addr)))
      (take (unat size0) (drop (unat from0) ranking)) \<and>
    sr_max_score resp = (case drop (unat from0) ranking of
      (score, _) # _ \<Rightarrow> if size0 = 0 then None else Some score | [] \<Rightarrow> None)"
  by (rule search_hits [OF assms])

lemma one_reader_panics:
  "execute_search api took [rd] query_str from0 size0 aggs = Panicked \<longleftrightarrow>
    size0 \<noteq> 0 \<and> from0 + size0 = 0 \<and>
    (\<exists>f q. default_query_field api (sa_searcher api rd) = Some f \<and>
       build_query api (sa_searcher api rd) f query_str = Inr q)"
proof -
  have "execute_search api took [rd] query_str from0 size0 aggs = Panicked \<longleftrightarrow>
      collect_reader api query_str (hit_limit from0 size0) aggs 0 rd (0, [], None) = Panicked"
    by (cases "collect_reader api query_str (hit_limit from0 size0) aggs 0 rd (0, [], None)")
      (auto simp: execute_search_def Let_def split: sum.split)
  also have "\<dots> \<longleftrightarrow> hit_limit from0 size0 = 0 \<and>
      (\<exists>f q. default_query_field api (sa_searcher api rd) = Some f \<and>
         build_query api (sa_searcher api rd) f query_str = Inr q)"
    by (auto simp: collect_reader_def Let_def split: option.splits sum.splits prod.splits if_splits)
  finally show ?thesis
    by (auto simp: hit_limit_def)
qed


section \<open>Queries\<close>

text \<open>
  The value of a match query is not escaped: a value that contains query syntax gives the
  same query string as a request with several conditions, so a client that puts user input into
  a match query can be made to run another query.
\<close>

theorem match_not_escaped:
  assumes "sp_q params = None"
    and "sb_query b1 = Some (JObject [(''match'', JObject [(f, JString (x @ '' AND '' @ g @ '':'' @ y))])])"
    and "sb_query b2 = Some (JObject [(''bool'', JObject [(''must'', JArray
      [JObject [(''match'', JObject [(f, JString x)])], JObject [(''match'', JObject [(g, JString y)])]])])])"
  shows "extract_query_string params (Some b1) = extract_query_string params (Some b2)"
  using assms
  by (simp add: extract_query_string_def query_text_def query_string_of_def match_of_def must_of_def
      must_parts_def json_get_def match_text_def map_filter_simps)

text \<open>
  A query that uses none of the four forms the code knows is not rejected: it becomes the query
  for all documents.
\<close>

theorem unsupported_query_matches_all:
  assumes "sp_q params = None" "sb_query b = Some q"
    and "\<forall>k \<in> {''query_string'', ''match_all'', ''match'', ''bool''}. json_get q k = None"
  shows "build_query api sv f (extract_query_string params (Some b)) = Inr (sa_all api)"
  using assms
  by (simp add: extract_query_string_def query_text_def query_string_of_def match_of_def must_of_def
      build_query_def trim_solid solid_def)

text \<open>
  Searching an index that does not exist is answered as a success with no hits on no shards,
  whatever the query.
\<close>

theorem unknown_index_empty:
  assumes "reg_get r index = None" "map_of (im_indexes m) index = None" "map_of (im_readers m) index = None"
  shows "\<exists>resp. index_search_handler sapi iapi api took r (m, w) index params body = Ret (m, w, Inr resp) \<and>
    sr_hits resp = [] \<and> sr_total_value resp = 0 \<and> sh_total (sr_shards resp) = 0"
  using assms
  by (simp add: index_search_handler_def get_reader_def get_or_create_index_def execute_search_def
      page_of_def Let_def)

section \<open>Witnesses\<close>

text \<open>
  A search over two documents with natural numbers as scores; the addresses are the texts.
\<close>

definition demo_search :: "(unit, unit, unit, unit, unit, unit, string, nat) search_api" where
  "demo_search =
     \<lparr>sa_searcher = (\<lambda>_. ()), sa_later_searcher = (\<lambda>_. ()), sa_has_field = (\<lambda>_ f. f = ''_source''),
      sa_parse = (\<lambda>_ _ _. Inr ()), sa_all = (),
      sa_search = (\<lambda>_ _ limit. Inr (2, take (unat limit) [(5, ''a''), (3, ''b'')])),
      sa_search_aggs = (\<lambda>_ _ _ _. Inl ''none''), sa_merge = (\<lambda>_ _. ()), sa_final = (\<lambda>_ _. None),
      sa_doc = (\<lambda>_ addr. Inr addr), sa_json = (\<lambda>s. Some (JObject [(''_source'', JArray [JString s])])),
      sa_cmp = default\<rparr>"

theorem search_page_witness:
  "\<exists>resp. execute_search demo_search 0 [()] ''*'' 1 10 None = Ret (Inr resp) \<and>
    sr_total_value resp = 2 \<and> map hit_source (sr_hits resp) = [JString ''b'']"
proof -
  have "ranks demo_search () ''*'' 1000 [(5, ''a''), (3, ''b'')] (\<lambda>s. s)"
    by (auto simp: ranks_def demo_search_def default_query_field_def build_query_def trim_solid solid_def)
  from search_page [OF this, of 1 10 0] show ?thesis
    by (auto simp: make_hit_def source_of_def json_get_def demo_search_def)
qed

definition demo_request :: "json \<Rightarrow> unit SearchRequestBody" where
  "demo_request q = \<lparr>sb_query = Some q, sb_from = None, sb_size = None, sb_sort = None, sb_aggs = None\<rparr>"

definition no_params :: SearchQueryParams where
  "no_params = \<lparr>sp_q = None, sp_from = None, sp_size = None\<rparr>"

theorem match_not_escaped_witness:
  "extract_query_string no_params (Some (demo_request
     (JObject [(''match'', JObject [(''user'', JString ''bob AND role:admin'')])]))) =
   extract_query_string no_params (Some (demo_request
     (JObject [(''bool'', JObject [(''must'', JArray [JObject [(''match'', JObject [(''user'', JString ''bob'')])],
        JObject [(''match'', JObject [(''role'', JString ''admin'')])]])])])))"
  by (rule match_not_escaped [where f = "''user''" and x = "''bob''" and g = "''role''" and y = "''admin''"])
    (simp_all add: no_params_def demo_request_def)

theorem unsupported_query_matches_all_witness:
  "build_query demo_search () ''_source'' (extract_query_string no_params
     (Some (demo_request (JObject [(''range'', JNull)])))) = Inr (sa_all demo_search)"
  by (rule unsupported_query_matches_all [where q = "JObject [(''range'', JNull)]"])
    (simp_all add: no_params_def demo_request_def json_get_def)

theorem unknown_index_empty_witness:
  "\<exists>resp. index_search_handler sapi iapi demo_search 0 new_registry (new_manager ''.'' 20, w) ''nope''
      no_params None = Ret (new_manager ''.'' 20, w, Inr resp) \<and> sr_hits resp = []"
  using unknown_index_empty [of new_registry "''nope''" "new_manager ''.'' 20"]
  by (fastforce simp: new_registry_def reg_get_def new_manager_def)

end
