(* ===== verification/Index_Api.thy ===== *)
theory Index_Api
  imports Index_Manager
begin

text \<open>
  The index management endpoints of \<open>src/api/indexes.rs\<close> over the registry and the files of
  the data directory, and the loading of the definitions at the next start. Every call into the
  file system takes its outcome from a script. The serialisers are parameters.
\<close>

section \<open>Files\<close>

text \<open>
  The outcome of a call into the file system: done, refused without an effect, or failed after
  some bytes of a write, or after some files of a directory were removed. A script that has run
  out means that calls succeed.
\<close>

datatype fs_outcome = FsDone | FsRefused | FsPartial nat "string list"

record api_state =
  as_registry :: registry
  as_data_dir :: string
  as_files :: "(string \<times> string) list"
  as_io :: "fs_outcome list"

definition fs_pop :: "api_state \<Rightarrow> fs_outcome \<times> api_state" where
  "fs_pop st = (case as_io st of [] \<Rightarrow> (FsDone, st) | oc # io \<Rightarrow> (oc, st\<lparr>as_io := io\<rparr>))"

definition fs_create_dir_all :: "api_state \<Rightarrow> api_state \<times> bool" where
  "fs_create_dir_all st = (case fs_pop st of (oc, st') \<Rightarrow> (st', oc = FsDone))"

definition fs_write :: "string \<Rightarrow> string \<Rightarrow> api_state \<Rightarrow> api_state \<times> bool" where
  "fs_write path content st =
     (case fs_pop st of
        (FsDone, st') \<Rightarrow> (st'\<lparr>as_files := AList.update path content (as_files st')\<rparr>, True)
      | (FsRefused, st') \<Rightarrow> (st', False)
      | (FsPartial n _, st') \<Rightarrow>
          (st'\<lparr>as_files := AList.update path (take n content) (as_files st')\<rparr>, False))"

definition fs_remove_file :: "string \<Rightarrow> api_state \<Rightarrow> api_state" where
  "fs_remove_file path st =
     (case fs_pop st of
        (FsDone, st') \<Rightarrow> st'\<lparr>as_files := AList.delete path (as_files st')\<rparr>
      | (_, st') \<Rightarrow> st')"

definition dir_prefix :: "string \<Rightarrow> string" where
  "dir_prefix p = (if p \<noteq> [] \<and> last p = CHR ''/'' then p else p @ ''/'')"

definition fs_remove_dir_all :: "string \<Rightarrow> api_state \<Rightarrow> api_state" where
  "fs_remove_dir_all dir st =
     (case fs_pop st of
        (FsDone, st') \<Rightarrow>
          st'\<lparr>as_files := filter (\<lambda>(p, _). \<not> starts_with p (dir_prefix dir)) (as_files st')\<rparr>
      | (FsRefused, st') \<Rightarrow> st'
      | (FsPartial _ gone, st') \<Rightarrow>
          st'\<lparr>as_files := filter (\<lambda>(p, _). \<not> (starts_with p (dir_prefix dir) \<and> p \<in> set gone)) (as_files st')\<rparr>)"

definition path_exists :: "string \<Rightarrow> api_state \<Rightarrow> bool" where
  "path_exists path st \<longleftrightarrow>
     hm_contains_key (as_files st) path \<or>
     list_ex (\<lambda>(p, _). starts_with p (dir_prefix path)) (as_files st)"

definition indexes_dir :: "api_state \<Rightarrow> string" where
  "indexes_dir st = path_join (as_data_dir st) ''indexes''"

definition definition_path :: "api_state \<Rightarrow> string \<Rightarrow> string" where
  "definition_path st index = path_join (indexes_dir st) (index @ ''.index.yaml'')"

section \<open>The handlers\<close>

text \<open>
  The environment variable that enables management, read by every request. No character other
  than the ASCII letters has one of the letters of \<open>true\<close> as its lower case.
\<close>

definition ascii_lower :: "char \<Rightarrow> char" where
  "ascii_lower c =
     (let n = of_char c :: nat in if 65 \<le> n \<and> n \<le> 90 then char_of (n + 32) else c)"

definition is_management_enabled :: "string option \<Rightarrow> bool" where
  "is_management_enabled env = (map ascii_lower (case env of Some v \<Rightarrow> v | None \<Rightarrow> ''true'') = ''true'')"

definition error_body :: "string \<Rightarrow> json" where
  "error_body msg = JObject [(''error'', JString msg)]"

definition message_body :: "string \<Rightarrow> json" where
  "message_body msg = JObject [(''message'', JString msg)]"

text \<open>The texts of the errors; those of I/O errors are a parameter.\<close>

fun show_validation_error :: "(io_error \<Rightarrow> string) \<Rightarrow> ValidationError \<Rightarrow> string" where
  "show_validation_error io (MissingTimestampField f) =
     ''timestamp field '' @ quoted f @ '' is required for partitioning but missing from fields''"
| "show_validation_error io (InvalidRetentionFormat r) = ''retention format invalid: '' @ r"
| "show_validation_error io (IoError e) = ''failed to read file: '' @ io e"
| "show_validation_error io (YamlError e) = ''failed to parse yaml: '' @ e"

fun show_registry_error :: "(io_error \<Rightarrow> string) \<Rightarrow> RegistryError \<Rightarrow> string" where
  "show_registry_error io (AlreadyExists n) = ''index '' @ quoted n @ '' already exists''"
| "show_registry_error io (NotFound n) = ''index '' @ quoted n @ '' not found''"
| "show_registry_error io (ValidationErr e) = ''validation error: '' @ show_validation_error io e"
| "show_registry_error io (RegistryIo e) = ''io error: '' @ io e"
| "show_registry_error io LockError = ''registry lock poisoned''"

record codec =
  cd_to_yaml :: "IndexDefinition \<Rightarrow> string + string"
  cd_yaml :: "string \<Rightarrow> string + IndexDefinition"
  cd_to_json :: "IndexDefinition \<Rightarrow> json"
  cd_io_text :: "io_error \<Rightarrow> string"

definition disabled_response :: "nat \<times> json" where
  "disabled_response = (403, error_body ''Index management via API is disabled'')"

definition create_index_handler ::
    "codec \<Rightarrow> string option \<Rightarrow> api_state \<Rightarrow> string \<Rightarrow> IndexDefinition \<Rightarrow>
     (api_state \<times> nat \<times> json) run" where
  "create_index_handler cd env st index payload0 =
     (if \<not> is_management_enabled env then Ret (st, disabled_response)
      else
        let payload = (if idx_name payload0 \<noteq> index then payload0\<lparr>idx_name := index\<rparr> else payload0)
        in run_bind (upsert (as_registry st) payload)
          (\<lambda>(reg, res). case res of
             Inr _ \<Rightarrow>
               let st1 = st\<lparr>as_registry := reg\<rparr> in
               (case fs_create_dir_all st1 of
                  (st2, False) \<Rightarrow> Ret (st2, 500, error_body ''Failed to create directory on disk'')
                | (st2, True) \<Rightarrow>
                    (case cd_to_yaml cd payload of
                       Inl _ \<Rightarrow> Ret (st2, 500, error_body ''Failed to serialize definition'')
                     | Inr yaml_str \<Rightarrow>
                         (case fs_write (definition_path st2 index) yaml_str st2 of
                            (st3, False) \<Rightarrow> Ret (st3, 500, error_body ''Failed to persist index definition'')
                          | (st3, True) \<Rightarrow> Ret (st3, 200, message_body ''Index updated successfully''))))
           | Inl (ValidationErr e) \<Rightarrow>
               Ret (st, 400, error_body (''Validation failed: '' @ show_validation_error (cd_io_text cd) e))
           | Inl e \<Rightarrow>
               Ret (st, 500, error_body (''Internal error: '' @ show_registry_error (cd_io_text cd) e))))"

definition get_index_handler :: "codec \<Rightarrow> api_state \<Rightarrow> string \<Rightarrow> nat \<times> json" where
  "get_index_handler cd st index =
     (case reg_get (as_registry st) index of
        Some def \<Rightarrow> (200, cd_to_json cd def)
      | None \<Rightarrow> (404, error_body ''Index not found''))"

definition list_indexes_handler :: "codec \<Rightarrow> api_state \<Rightarrow> nat \<times> json" where
  "list_indexes_handler cd st = (200, JArray (map (cd_to_json cd) (reg_list (as_registry st))))"

definition delete_index_handler ::
    "codec \<Rightarrow> string option \<Rightarrow> api_state \<Rightarrow> string \<Rightarrow> api_state \<times> nat \<times> json" where
  "delete_index_handler cd env st index =
     (if \<not> is_management_enabled env then (st, disabled_response)
      else case reg_remove (as_registry st) index of
        (reg, Inr _) \<Rightarrow>
          let st1 = st\<lparr>as_registry := reg\<rparr>;
              file_path = definition_path st1 index;
              st2 = (if path_exists file_path st1 then fs_remove_file file_path st1 else st1);
              index_data_dir = path_join (indexes_dir st2) index;
              st3 = (if path_exists index_data_dir st2 then fs_remove_dir_all index_data_dir st2 else st2)
          in (st3, 200, message_body ''Index deleted successfully'')
      | (_, Inl (NotFound _)) \<Rightarrow> (st, 404, error_body ''Index not found'')
      | (_, Inl e) \<Rightarrow>
          (st, 500, error_body (''Internal error: '' @ show_registry_error (cd_io_text cd) e)))"

text \<open>
  The next start: \<open>main\<close> loads the regular files of the directory into a new registry and ends
  the program if that fails.
\<close>

definition in_dir :: "string \<Rightarrow> string \<Rightarrow> bool" where
  "in_dir dir p \<longleftrightarrow>
     starts_with p (dir_prefix dir) \<and> CHR ''/'' \<notin> set (drop (length (dir_prefix dir)) p)"

definition dir_listing :: "api_state \<Rightarrow> (io_error + dir_entry) list" where
  "dir_listing st =
     map (\<lambda>(p, c). Inr \<lparr>de_is_file = True,
            de_file_name = Some (drop (length (dir_prefix (indexes_dir st))) p), de_read = Inr c\<rparr>)
       (filter (\<lambda>(p, _). in_dir (indexes_dir st) p) (as_files st))"

definition restart :: "codec \<Rightarrow> api_state \<Rightarrow> api_state option run" where
  "restart cd st =
     run_bind (load_from_dir (cd_yaml cd) True (Inr (dir_listing st)) new_registry)
       (\<lambda>(reg, res). case res of
          Inr _ \<Rightarrow> Ret (Some (st\<lparr>as_registry := reg\<rparr>))
        | Inl _ \<Rightarrow> Ret None)"

section \<open>Paths of plain names\<close>

text \<open>A name that is one component of a path and not one of the two special ones.\<close>

definition plain_name :: "string \<Rightarrow> bool" where
  "plain_name n \<longleftrightarrow> n \<notin> {[], ''.'', ''..''} \<and> CHR ''/'' \<notin> set n"

lemma starts_with_iff: "starts_with s p \<longleftrightarrow> (\<exists>r. s = p @ r)"
  by (metis append_eq_conv_conj append_take_drop_id starts_with_def)

lemma dir_prefix_indexes: "dir_prefix (indexes_dir st) = indexes_dir st @ ''/''"
  by (auto simp: dir_prefix_def indexes_dir_def path_join_def starts_with_def)

lemma path_join_dir: "\<not> starts_with n ''/'' \<Longrightarrow> path_join (indexes_dir st) n = dir_prefix (indexes_dir st) @ n"
  unfolding dir_prefix_indexes by (auto simp: path_join_def indexes_dir_def starts_with_def)

lemma plain_relative: "plain_name n \<Longrightarrow> \<not> starts_with (n @ t) ''/'' \<and> \<not> starts_with n ''/''"
  by (cases n) (auto simp: plain_name_def starts_with_def)

lemma definition_path_plain:
  "plain_name n \<Longrightarrow> definition_path st n = dir_prefix (indexes_dir st) @ n @ ''.index.yaml''"
  by (simp add: definition_path_def path_join_dir plain_relative)

lemma indexes_dir_cong [simp]:
  "indexes_dir (st\<lparr>as_registry := r\<rparr>) = indexes_dir st" "indexes_dir (st\<lparr>as_files := fs\<rparr>) = indexes_dir st"
  "definition_path (st\<lparr>as_registry := r\<rparr>) n = definition_path st n"
  "definition_path (st\<lparr>as_files := fs\<rparr>) n = definition_path st n"
  "dir_listing (st\<lparr>as_registry := r\<rparr>) = dir_listing st"
  by (simp_all add: indexes_dir_def definition_path_def dir_listing_def)

lemma definition_path_inj:
  "plain_name m \<Longrightarrow> plain_name n \<Longrightarrow> definition_path st m = definition_path st n \<longleftrightarrow> m = n"
  by (auto simp: definition_path_plain)

lemma slash_position:
  "CHR ''/'' \<notin> set a \<Longrightarrow> CHR ''/'' \<notin> set b \<Longrightarrow> a @ r = b @ ''/'' @ r' \<Longrightarrow> CHR ''/'' \<in> set r"
  by (metis UnE append_Cons in_set_conv_decomp set_append)

text \<open>Wiping the data of an index leaves the definition files alone.\<close>

lemma definition_not_in_data_dir:
  assumes "plain_name m" "plain_name n"
  shows "\<not> starts_with (definition_path st m) (dir_prefix (path_join (indexes_dir st) n))"
proof
  assume "starts_with (definition_path st m) (dir_prefix (path_join (indexes_dir st) n))"
  moreover have "path_join (indexes_dir st) n = dir_prefix (indexes_dir st) @ n"
    using assms(2) by (simp add: path_join_dir plain_relative)
  moreover have "n \<noteq> []" "last n \<noteq> CHR ''/''"
    using assms(2) by (auto simp: plain_name_def dest: last_in_set)
  ultimately obtain r where "m @ ''.index.yaml'' = n @ ''/'' @ r"
    using assms(1) by (auto simp: definition_path_plain starts_with_iff dir_prefix_def [of "_ @ n"])
  then have "CHR ''/'' \<in> set (m @ ''.index.yaml'')"
    by simp
  with assms(1) show False by (simp add: plain_name_def)
qed

section \<open>Definitions that mean the same\<close>

text \<open>Equal up to the order of the two hash maps, which has no meaning.\<close>

definition same_def :: "IndexDefinition \<Rightarrow> IndexDefinition \<Rightarrow> bool" where
  "same_def d d' \<longleftrightarrow>
     d' = d\<lparr>idx_fields := idx_fields d', idx_settings := idx_settings d'\<rparr> \<and>
     map_of (idx_fields d') = map_of (idx_fields d) \<and> map_of (idx_settings d') = map_of (idx_settings d)"

lemma same_def_refl [simp]: "same_def d d"
  by (simp add: same_def_def)

lemma same_def_trans: "same_def a b \<Longrightarrow> same_def b c \<Longrightarrow> same_def a c"
  by (cases a; cases b; cases c) (simp add: same_def_def)

lemma same_def_name: "same_def d d' \<Longrightarrow> idx_name d' = idx_name d"
  by (cases d; cases d') (simp add: same_def_def)

lemma same_def_validate: "same_def d d' \<Longrightarrow> validate d' = validate d"
  by (cases d; cases d') (simp add: same_def_def validate_def validate_schema_def hm_contains_key_def)

text \<open>
  What the YAML library does with a definition: the text it prints is read back as the same
  definition. (A default value \<open>null\<close> would be read back as no default, but the parser of the
  request never makes one.)
\<close>

definition yaml_roundtrip :: "codec \<Rightarrow> IndexDefinition \<Rightarrow> bool" where
  "yaml_roundtrip cd d \<longleftrightarrow>
     (case cd_to_yaml cd d of
        Inl _ \<Rightarrow> False
      | Inr s \<Rightarrow> (case cd_yaml cd s of Inl _ \<Rightarrow> False | Inr d' \<Rightarrow> same_def d d'))"

section \<open>The disk mirrors the registry\<close>

definition mirrors :: "codec \<Rightarrow> api_state \<Rightarrow> bool" where
  "mirrors cd st \<longleftrightarrow>
     hm_wf (as_files st) \<and> reg_inv (as_registry st) \<and> \<not> reg_poisoned (as_registry st) \<and>
     (\<forall>n d. reg_get (as_registry st) n = Some d \<longrightarrow>
        plain_name n \<and>
        (\<exists>c d'. map_of (as_files st) (definition_path st n) = Some c \<and> cd_yaml cd c = Inr d' \<and> same_def d d')) \<and>
     (\<forall>p \<in> fst ` set (as_files st). in_dir (indexes_dir st) p \<longrightarrow>
        (\<exists>n. reg_get (as_registry st) n \<noteq> None \<and> p = definition_path st n))"

lemma mirrorsD:
  assumes "mirrors cd st"
  shows "hm_wf (as_files st)" "reg_inv (as_registry st)" "\<not> reg_poisoned (as_registry st)"
    and "reg_get (as_registry st) n = Some d \<Longrightarrow>
      plain_name n \<and> (\<exists>c d'. map_of (as_files st) (definition_path st n) = Some c \<and> cd_yaml cd c = Inr d' \<and> same_def d d')"
    and "p \<in> fst ` set (as_files st) \<Longrightarrow> in_dir (indexes_dir st) p \<Longrightarrow>
      \<exists>n. reg_get (as_registry st) n \<noteq> None \<and> p = definition_path st n"
  using assms by (auto simp: mirrors_def)

lemma path_prefix_cong: "fst ` set (AList.update k v m) = insert k (fst ` set m)"
  by (rule fst_set_update)

lemma mirrors_put:
  assumes m: "mirrors cd st" and n: "plain_name (idx_name d)"
    and up: "upsert (as_registry st) d = Ret (reg, Inr ())"
    and c: "cd_yaml cd c = Inr d'" "same_def d d'"
  shows "mirrors cd (st\<lparr>as_registry := reg,
    as_files := AList.update (definition_path st (idx_name d)) c (as_files st)\<rparr>)"
    and "reg_get reg = (reg_get (as_registry st))(idx_name d \<mapsto> d)"
proof -
  have pass: "passes_check d"
    using up by (auto simp: upsert_def passes_check_def run_bind_case split: run.splits sum.splits)
  with up mirrorsD(3) [OF m]
  have reg: "reg = as_registry st\<lparr>reg_indexes := AList.update (idx_name d) d (reg_indexes (as_registry st))\<rparr>"
    by (simp add: upsert_accepted)
  with mirrorsD(3) [OF m] show get: "reg_get reg = (reg_get (as_registry st))(idx_name d \<mapsto> d)"
    by (auto simp: reg_get_def update_conv' fun_eq_iff)
  have "reg_inv reg" "\<not> reg_poisoned reg"
    using reg_inv_update [OF mirrorsD(2) [OF m] pass] mirrorsD(3) [OF m] by (simp_all add: reg)
  moreover have "hm_wf (AList.update (definition_path st (idx_name d)) c (as_files st))"
    using mirrorsD(1) [OF m] by simp
  moreover have "map_of (AList.update (definition_path st (idx_name d)) c (as_files st)) (definition_path st k) =
      (if k = idx_name d then Some c else map_of (as_files st) (definition_path st k))" if "plain_name k" for k
    using that n by (simp add: update_conv' definition_path_inj)
  moreover have "plain_name k \<and> (\<exists>c' d''. (if k = idx_name d then Some c else map_of (as_files st) (definition_path st k)) = Some c' \<and>
      cd_yaml cd c' = Inr d'' \<and> same_def e d'')" if "reg_get reg k = Some e" for k e
  proof (cases "k = idx_name d")
    case True
    with that n c show ?thesis by (auto simp: get)
  next
    case False
    with that mirrorsD(4) [OF m, of k e] show ?thesis by (simp add: get)
  qed
  moreover have "\<exists>k. reg_get reg k \<noteq> None \<and> p = definition_path st k"
    if "p \<in> insert (definition_path st (idx_name d)) (fst ` set (as_files st))" "in_dir (indexes_dir st) p" for p
  proof (cases "p = definition_path st (idx_name d)")
    case True
    then show ?thesis by (auto simp: get)
  next
    case False
    with that mirrorsD(5) [OF m, of p] obtain k where "reg_get (as_registry st) k \<noteq> None" "p = definition_path st k"
      by auto
    then show ?thesis by (intro exI [of _ k]) (simp add: get)
  qed
  ultimately show "mirrors cd (st\<lparr>as_registry := reg,
      as_files := AList.update (definition_path st (idx_name d)) c (as_files st)\<rparr>)"
    unfolding mirrors_def by (simp add: path_prefix_cong)
qed

lemma fs_reliable:
  assumes "as_io st = []"
  shows "fs_create_dir_all st = (st, True)"
    and "fs_write p c st = (st\<lparr>as_files := AList.update p c (as_files st)\<rparr>, True)"
    and "fs_remove_file p st = st\<lparr>as_files := AList.delete p (as_files st)\<rparr>"
    and "fs_remove_dir_all p st = st\<lparr>as_files := filter (\<lambda>(q, _). \<not> starts_with q (dir_prefix p)) (as_files st)\<rparr>"
  using assms
  by (simp_all add: fs_pop_def fs_create_dir_all_def fs_write_def fs_remove_file_def fs_remove_dir_all_def)

text \<open>Removing what is not there has no effect, so the tests for existence do not matter.\<close>

lemma remove_absent:
  assumes "\<not> path_exists p st"
  shows "AList.delete p (as_files st) = as_files st"
    and "filter (\<lambda>(q, _). \<not> starts_with q (dir_prefix p)) (as_files st) = as_files st"
proof -
  have "p \<notin> fst ` set (as_files st)"
    using assms by (simp add: path_exists_def hm_contains_key_iff)
  then show "AList.delete p (as_files st) = as_files st"
    by (simp add: delete_idem)
  show "filter (\<lambda>(q, _). \<not> starts_with q (dir_prefix p)) (as_files st) = as_files st"
    using assms by (auto simp: path_exists_def list_ex_iff filter_id_conv)
qed

definition wiped :: "api_state \<Rightarrow> string \<Rightarrow> (string \<times> string) list" where
  "wiped st index = filter (\<lambda>(q, _). \<not> starts_with q (dir_prefix (path_join (indexes_dir st) index)))
     (AList.delete (definition_path st index) (as_files st))"

lemma delete_reliable:
  assumes "is_management_enabled env" "as_io st = []" "reg_remove (as_registry st) n = (reg, Inr d)"
  shows "delete_index_handler cd env st n =
    (st\<lparr>as_registry := reg, as_files := wiped st n\<rparr>, 200, message_body ''Index deleted successfully'')"
proof -
  let ?st1 = "st\<lparr>as_registry := reg\<rparr>"
  let ?fp = "definition_path ?st1 n"
  let ?st2 = "?st1\<lparr>as_files := AList.delete ?fp (as_files st)\<rparr>"
  let ?dd = "path_join (indexes_dir ?st2) n"
  have one: "(if path_exists ?fp ?st1 then fs_remove_file ?fp ?st1 else ?st1) = ?st2"
    using assms(2) remove_absent(1) [of ?fp ?st1] by (auto simp: fs_reliable)
  have two: "(if path_exists ?dd ?st2 then fs_remove_dir_all ?dd ?st2 else ?st2) =
      ?st2\<lparr>as_files := filter (\<lambda>(q, _). \<not> starts_with q (dir_prefix ?dd)) (as_files ?st2)\<rparr>"
    using assms(2) remove_absent(2) [of ?dd ?st2] by (auto simp: fs_reliable)
  show ?thesis
    unfolding delete_index_handler_def Let_def assms(3) prod.case sum.case one two
    using assms(1) by (simp add: wiped_def)
qed

lemma map_of_filter_key: "P k \<Longrightarrow> map_of (filter (\<lambda>(q, _). P q) xs) k = map_of xs k"
  by (induction xs) auto

lemma mirrors_delete:
  assumes m: "mirrors cd st" and n: "plain_name n"
    and rm: "reg_remove (as_registry st) n = (reg, Inr d)"
  shows "mirrors cd (st\<lparr>as_registry := reg, as_files := wiped st n\<rparr>)"
    and "reg_get reg = (reg_get (as_registry st))(n := None)"
proof -
  have reg: "reg = as_registry st\<lparr>reg_indexes := AList.delete n (reg_indexes (as_registry st))\<rparr>"
    using rm by (auto simp: reg_remove_def split: if_splits option.splits)
  with mirrorsD(3) [OF m] show get: "reg_get reg = (reg_get (as_registry st))(n := None)"
    by (auto simp: reg_get_def delete_conv' fun_eq_iff)
  have "reg_inv reg" "\<not> reg_poisoned reg"
    using reg_inv_delete [OF mirrorsD(2) [OF m]] mirrorsD(3) [OF m] by (simp_all add: reg)
  moreover have "hm_wf (wiped st n)"
    using mirrorsD(1) [OF m] hm_wf_delete [of "as_files st"]
    by (simp add: wiped_def hm_wf_def distinct_map_filter)
  moreover have "map_of (wiped st n) (definition_path st k) =
      (if k = n then None else map_of (as_files st) (definition_path st k))" if "plain_name k" for k
    using that n definition_not_in_data_dir [OF that n, of st]
    by (simp add: wiped_def map_of_filter_key delete_conv' definition_path_inj)
  then have "plain_name k \<and> (\<exists>c d'. map_of (wiped st n) (definition_path st k) = Some c \<and>
      cd_yaml cd c = Inr d' \<and> same_def e d')" if "reg_get reg k = Some e" for k e
    using that mirrorsD(4) [OF m, of k e] by (auto simp: get split: if_splits)
  moreover have "\<exists>k. reg_get reg k \<noteq> None \<and> p = definition_path st k"
    if "p \<in> fst ` set (wiped st n)" "in_dir (indexes_dir st) p" for p
  proof -
    have "p \<in> fst ` set (as_files st)" "p \<noteq> definition_path st n"
      using that(1) by (auto simp: wiped_def dest!: set_delete_subset)
    with mirrorsD(5) [OF m, of p] that(2) obtain k
      where "reg_get (as_registry st) k \<noteq> None" "p = definition_path st k" "k \<noteq> n"
      by auto
    then show ?thesis by (intro exI [of _ k]) (simp add: get)
  qed
  ultimately show "mirrors cd (st\<lparr>as_registry := reg, as_files := wiped st n\<rparr>)"
    unfolding mirrors_def by simp
qed

section \<open>Restart\<close>

lemma dir_definitions_all:
  "(\<And>e. e \<in> set es \<Longrightarrow> \<exists>de. e = Inr de \<and> (is_index_file de \<longrightarrow> (\<exists>d. from_file yaml (de_read de) = Ret (Inr d)))) \<Longrightarrow>
   \<exists>ds. dir_definitions yaml es = Some ds \<and>
     set ds = {d. \<exists>de. Inr de \<in> set es \<and> is_index_file de \<and> from_file yaml (de_read de) = Ret (Inr d)}"
proof (induction es)
  case Nil
  then show ?case by simp
next
  case (Cons e es)
  obtain de where e: "e = Inr de" "is_index_file de \<Longrightarrow> \<exists>d. from_file yaml (de_read de) = Ret (Inr d)"
    using Cons.prems [of e] by auto
  have "\<exists>ds. dir_definitions yaml es = Some ds \<and>
      set ds = {d. \<exists>de. Inr de \<in> set es \<and> is_index_file de \<and> from_file yaml (de_read de) = Ret (Inr d)}"
    by (rule Cons.IH) (use Cons.prems in simp)
  then obtain ds where ds: "dir_definitions yaml es = Some ds"
      "set ds = {d. \<exists>de. Inr de \<in> set es \<and> is_index_file de \<and> from_file yaml (de_read de) = Ret (Inr d)}"
    by blast
  show ?case
  proof (cases "is_index_file de")
    case True
    with e obtain d where "from_file yaml (de_read de) = Ret (Inr d)" by blast
    with True ds e(1) show ?thesis by auto
  next
    case False
    with ds e(1) show ?thesis by auto
  qed
qed

text \<open>The files a mirrored directory lists are the definitions of the registry.\<close>

lemma listed_definition:
  assumes "mirrors cd st"
  shows "Inr de \<in> set (dir_listing st) \<Longrightarrow> is_index_file de \<Longrightarrow>
      \<exists>n d d'. reg_get (as_registry st) n = Some d \<and> from_file (cd_yaml cd) (de_read de) = Ret (Inr d') \<and>
        same_def d d' \<and> (\<exists>c. map_of (as_files st) (definition_path st n) = Some c \<and> cd_yaml cd c = Inr d')"
    and "reg_get (as_registry st) n = Some d \<Longrightarrow>
      \<exists>de d'. Inr de \<in> set (dir_listing st) \<and> is_index_file de \<and>
        from_file (cd_yaml cd) (de_read de) = Ret (Inr d') \<and> same_def d d'"
proof -
  have loads: "from_file (cd_yaml cd) (Inr c) = Ret (Inr d')"
    if "cd_yaml cd c = Inr d'" "same_def d d'" "reg_get (as_registry st) n = Some d" for c d d' n
  proof -
    have "passes_check d"
      using mirrorsD(2,3) [OF assms] that(3) by (auto simp: reg_inv_def reg_get_def dest: map_of_SomeD)
    then have "validate_schema d' = Ret (Inr ())"
      using same_def_validate [OF that(2)] by (simp add: passes_check_def validate_def)
    with that(1) show ?thesis by (simp add: from_file_def)
  qed
  show "\<exists>n d d'. reg_get (as_registry st) n = Some d \<and> from_file (cd_yaml cd) (de_read de) = Ret (Inr d') \<and>
      same_def d d' \<and> (\<exists>c. map_of (as_files st) (definition_path st n) = Some c \<and> cd_yaml cd c = Inr d')"
    if de: "Inr de \<in> set (dir_listing st)" "is_index_file de"
  proof -
    obtain p c where p: "(p, c) \<in> set (as_files st)" "in_dir (indexes_dir st) p" "de_read de = Inr c"
      using de(1) by (auto simp: dir_listing_def)
    then obtain n d where n: "reg_get (as_registry st) n = Some d" "p = definition_path st n"
      using mirrorsD(5) [OF assms, of p] by force
    obtain c' d' where c': "map_of (as_files st) p = Some c'" "cd_yaml cd c' = Inr d'" "same_def d d'"
      using mirrorsD(4) [OF assms n(1)] n(2) by blast
    moreover have "c' = c"
      using p(1) c'(1) mirrorsD(1) [OF assms] by (simp add: hm_set_iff)
    ultimately show ?thesis
      using n p(3) loads by metis
  qed
  assume n: "reg_get (as_registry st) n = Some d"
  then obtain c d' where c: "plain_name n" "map_of (as_files st) (definition_path st n) = Some c"
      "cd_yaml cd c = Inr d'" "same_def d d'"
    using mirrorsD(4) [OF assms n] by blast
  let ?de = "\<lparr>de_is_file = True, de_file_name = Some (n @ ''.index.yaml''), de_read = Inr c\<rparr>"
  have "Inr ?de \<in> set (dir_listing st)"
    using c(1) map_of_SomeD [OF c(2)]
    by (force simp: dir_listing_def in_dir_def definition_path_plain starts_with_def plain_name_def)
  moreover have "is_index_file ?de"
    by (simp add: is_index_file_def ends_with_def)
  ultimately show "\<exists>de d'. Inr de \<in> set (dir_listing st) \<and> is_index_file de \<and>
      from_file (cd_yaml cd) (de_read de) = Ret (Inr d') \<and> same_def d d'"
    using loads [OF c(3,4) n] c(4) by force
qed

lemma mirrors_restart:
  assumes m: "mirrors cd st"
  shows "\<exists>reg. restart cd st = Ret (Some (st\<lparr>as_registry := reg\<rparr>)) \<and>
    mirrors cd (st\<lparr>as_registry := reg\<rparr>) \<and>
    (\<forall>n. rel_option same_def (reg_get (as_registry st) n) (reg_get reg n))"
proof -
  let ?loaded = "{d. \<exists>de. Inr de \<in> set (dir_listing st) \<and> is_index_file de \<and>
    from_file (cd_yaml cd) (de_read de) = Ret (Inr d)}"
  have "\<exists>ds. dir_definitions (cd_yaml cd) (dir_listing st) = Some ds \<and> set ds = ?loaded"
  proof (rule dir_definitions_all)
    fix e
    assume e: "e \<in> set (dir_listing st)"
    then obtain de where "e = Inr de" by (auto simp: dir_listing_def)
    with e listed_definition(1) [OF m, of de]
    show "\<exists>de. e = Inr de \<and> (is_index_file de \<longrightarrow> (\<exists>d. from_file (cd_yaml cd) (de_read de) = Ret (Inr d)))"
      by blast
  qed
  then obtain ds where ds: "dir_definitions (cd_yaml cd) (dir_listing st) = Some ds" "set ds = ?loaded"
    by blast
  have new: "\<not> reg_poisoned new_registry" "reg_get new_registry = Map.empty"
    by (auto simp: new_registry_def reg_get_def)
  obtain reg k where load: "load_entries (cd_yaml cd) new_registry 0 (dir_listing st) = Ret (reg, Inr k)"
      and reg: "reg_get reg = by_name ds"
    using load_entries_all [OF new(1) ds(1), of 0] new(2) by auto
  have loaded: "\<exists>n d c. reg_get (as_registry st) n = Some d \<and> same_def d d' \<and>
      map_of (as_files st) (definition_path st n) = Some c \<and> cd_yaml cd c = Inr d' \<and> idx_name d' = n"
    if d': "d' \<in> set ds" for d'
  proof -
    obtain n d c where *: "reg_get (as_registry st) n = Some d" "same_def d d'"
        "map_of (as_files st) (definition_path st n) = Some c" "cd_yaml cd c = Inr d'"
      using d' listed_definition(1) [OF m] unfolding ds(2) by fastforce
    moreover have "idx_name d' = n"
      using same_def_name [OF *(2)] mirrorsD(2,3) [OF m] *(1)
      by (auto simp: reg_inv_def reg_get_def dest!: map_of_SomeD)
    ultimately show ?thesis by blast
  qed
  have get: "rel_option same_def (reg_get (as_registry st) n) (reg_get reg n) \<and>
      (\<forall>d'. reg_get reg n = Some d' \<longrightarrow> (\<exists>c. map_of (as_files st) (definition_path st n) = Some c \<and> cd_yaml cd c = Inr d'))"
    for n
  proof (cases "reg_get reg n")
    case (Some d')
    then have "d' \<in> set ds" "idx_name d' = n"
      using map_of_SomeD [of "map (\<lambda>d. (idx_name d, d)) ds"] by (auto simp: reg)
    with loaded [OF this(1)] Some show ?thesis by auto
  next
    case None
    have "reg_get (as_registry st) n = None"
    proof (rule ccontr)
      assume "reg_get (as_registry st) n \<noteq> None"
      then obtain d where d: "reg_get (as_registry st) n = Some d" by blast
      then obtain d' where d': "d' \<in> ?loaded" "same_def d d'"
        using listed_definition(2) [OF m d] by blast
      have "idx_name d' = n"
        using same_def_name [OF d'(2)] mirrorsD(2,3) [OF m] d
        by (auto simp: reg_inv_def reg_get_def dest!: map_of_SomeD)
      then have "(n, d') \<in> set (map (\<lambda>d. (idx_name d, d)) ds)"
        using d'(1) unfolding ds(2) [symmetric] by auto
      then show False
        using None weak_map_of_SomeI by (fastforce simp: reg)
    qed
    with None show ?thesis by simp
  qed
  have "\<not> reg_poisoned reg" "reg_inv reg"
    using load_entries_poisoned [OF load] new(1) load_entries_inv [OF reg_inv_new load] by simp_all
  moreover have "plain_name n \<and> (\<exists>c d''. map_of (as_files st) (definition_path st n) = Some c \<and>
      cd_yaml cd c = Inr d'' \<and> same_def d' d'')" if "reg_get reg n = Some d'" for n d'
  proof -
    have "rel_option same_def (reg_get (as_registry st) n) (Some d')"
      using get [of n] that by simp
    then obtain d where "reg_get (as_registry st) n = Some d"
      by (auto simp: option_rel_Some2)
    then show ?thesis
      using mirrorsD(4) [OF m] get [of n] that same_def_refl by blast
  qed
  moreover have "\<exists>n. reg_get reg n \<noteq> None \<and> p = definition_path st n"
    if "p \<in> fst ` set (as_files st)" "in_dir (indexes_dir st) p" for p
  proof -
    from mirrorsD(5) [OF m that]
    obtain n where n: "reg_get (as_registry st) n \<noteq> None" "p = definition_path st n"
      by blast
    moreover have "rel_option same_def (reg_get (as_registry st) n) (reg_get reg n)"
      using get by blast
    ultimately show ?thesis
      by (intro exI [of _ n]) (auto simp: option_rel_Some1)
  qed
  ultimately have "mirrors cd (st\<lparr>as_registry := reg\<rparr>)"
    using mirrorsD(1) [OF m] unfolding mirrors_def by simp
  moreover have "restart cd st = Ret (Some (st\<lparr>as_registry := reg\<rparr>))"
    using load by (simp add: restart_def load_from_dir_def)
  ultimately show ?thesis
    using get by blast
qed

section \<open>Any use of the endpoints\<close>

text \<open>
  A run of the server: requests that change definitions, and restarts; no state means that the
  process has ended. The second machine is what the client expects: a map that survives restarts.
\<close>

datatype api_op = PutIndex string IndexDefinition | DeleteIndex string | Restart

fun api_step :: "codec \<Rightarrow> string option \<Rightarrow> api_state \<Rightarrow> api_op \<Rightarrow> api_state option" where
  "api_step cd env st (PutIndex n d) =
     (case create_index_handler cd env st n d of Panicked \<Rightarrow> None | Ret (st', _) \<Rightarrow> Some st')"
| "api_step cd env st (DeleteIndex n) = Some (fst (delete_index_handler cd env st n))"
| "api_step cd env st Restart = (case restart cd st of Panicked \<Rightarrow> None | Ret res \<Rightarrow> res)"

fun expected_step :: "string option \<Rightarrow> (string \<Rightarrow> IndexDefinition option) \<Rightarrow> api_op \<Rightarrow> string \<Rightarrow> IndexDefinition option" where
  "expected_step env m (PutIndex n d) =
     (if is_management_enabled env \<and> validate (d\<lparr>idx_name := n\<rparr>) = Ret (Inr ())
      then m(n \<mapsto> d\<lparr>idx_name := n\<rparr>) else m)"
| "expected_step env m (DeleteIndex n) = (if is_management_enabled env then m(n := None) else m)"
| "expected_step env m Restart = m"

fun op_ok :: "codec \<Rightarrow> api_op \<Rightarrow> bool" where
  "op_ok cd (PutIndex n d) \<longleftrightarrow> plain_name n \<and> yaml_roundtrip cd (d\<lparr>idx_name := n\<rparr>) \<and>
     validate (d\<lparr>idx_name := n\<rparr>) \<noteq> Panicked"
| "op_ok cd (DeleteIndex n) \<longleftrightarrow> plain_name n"
| "op_ok cd Restart \<longleftrightarrow> True"

definition agrees :: "codec \<Rightarrow> (string \<Rightarrow> IndexDefinition option) \<Rightarrow> api_state \<Rightarrow> bool" where
  "agrees cd m st \<longleftrightarrow>
     mirrors cd st \<and> as_io st = [] \<and> (\<forall>n. rel_option same_def (m n) (reg_get (as_registry st) n))"

lemma agrees_put:
  assumes a: "agrees cd m st" and ok: "plain_name n" "yaml_roundtrip cd (d\<lparr>idx_name := n\<rparr>)"
    and step: "create_index_handler cd env st n d = Ret (st', resp)"
  shows "agrees cd (expected_step env m (PutIndex n d)) st'"
proof (cases "is_management_enabled env")
  case False
  with a step show ?thesis by (simp add: create_index_handler_def)
next
  case enabled: True
  let ?d = "d\<lparr>idx_name := n\<rparr>"
  have pay: "(if idx_name d \<noteq> n then ?d else d) = ?d"
    by (cases d) simp
  obtain c d' where c: "cd_to_yaml cd ?d = Inr c" "cd_yaml cd c = Inr d'" "same_def ?d d'"
    using ok(2) by (auto simp: yaml_roundtrip_def split: sum.splits)
  have io: "as_io st = []" and m: "mirrors cd st"
    using a by (simp_all add: agrees_def)
  show ?thesis
  proof (cases "validate ?d")
    case Panicked
    with step enabled show ?thesis by (simp add: create_index_handler_def pay upsert_def)
  next
    case (Ret v)
    show ?thesis
    proof (cases v)
      case (Inl e)
      with Ret step enabled have "st' = st"
        by (simp add: create_index_handler_def pay upsert_def)
      with a enabled Ret Inl show ?thesis by simp
    next
      case (Inr u)
      with Ret have pass: "passes_check ?d" by (simp add: passes_check_def)
      obtain reg where up: "upsert (as_registry st) ?d = Ret (reg, Inr ())"
        using upsert_accepted [OF pass mirrorsD(3) [OF m]] by blast
      have st': "st' = st\<lparr>as_registry := reg, as_files := AList.update (definition_path st n) c (as_files st)\<rparr>"
        using step enabled up c(1) io
        by (simp add: create_index_handler_def pay Let_def fs_reliable del: fun_upd_apply)
      have "idx_name ?d = n" by simp
      note put = mirrors_put [OF m _ up c(2,3), unfolded this, OF ok(1)]
      have "rel_option same_def ((m(n \<mapsto> ?d)) k) (reg_get reg k)" for k
        using a by (auto simp: put(2) agrees_def)
      with put(1) io show ?thesis
        using enabled pass by (simp add: agrees_def st' passes_check_def)
    qed
  qed
qed

lemma agrees_delete:
  assumes a: "agrees cd m st" and ok: "plain_name n"
  shows "agrees cd (expected_step env m (DeleteIndex n)) (fst (delete_index_handler cd env st n))"
proof (cases "is_management_enabled env")
  case False
  with a show ?thesis by (simp add: delete_index_handler_def)
next
  case enabled: True
  have io: "as_io st = []" and m: "mirrors cd st"
    using a by (simp_all add: agrees_def)
  obtain reg res where rm: "reg_remove (as_registry st) n = (reg, res)" by fastforce
  show ?thesis
  proof (cases res)
    case (Inr d)
    note del = mirrors_delete [OF m ok rm [unfolded Inr]]
    have "rel_option same_def ((m(n := None)) k) (reg_get reg k)" for k
      using a by (auto simp: del(2) agrees_def)
    with del(1) io enabled show ?thesis
      by (simp add: delete_reliable [OF enabled io rm [unfolded Inr]] agrees_def)
  next
    case (Inl e)
    then have "e = NotFound n" "reg_get (as_registry st) n = None"
      using rm mirrorsD(3) [OF m] by (auto simp: reg_remove_def reg_get_def split: option.splits)
    moreover from this have "m n = None"
      using a by (metis agrees_def option.rel_sel option.distinct(1) not_None_eq)
    then have "m(n := None) = m" by auto
    ultimately show ?thesis
      using a enabled rm Inl by (simp add: delete_index_handler_def)
  qed
qed

lemma agrees_restart:
  assumes "agrees cd m st"
  shows "\<exists>st'. restart cd st = Ret (Some st') \<and> agrees cd m st'"
proof -
  obtain reg where reg: "restart cd st = Ret (Some (st\<lparr>as_registry := reg\<rparr>))"
      "mirrors cd (st\<lparr>as_registry := reg\<rparr>)"
      "\<forall>n. rel_option same_def (reg_get (as_registry st) n) (reg_get reg n)"
    using mirrors_restart [of cd st] assms unfolding agrees_def by blast
  have "rel_option same_def (m n) (reg_get reg n)" for n
  proof -
    have "rel_option same_def (m n) (reg_get (as_registry st) n)"
      using assms by (simp add: agrees_def)
    moreover have "rel_option same_def (reg_get (as_registry st) n) (reg_get reg n)"
      using reg(3) by blast
    ultimately show ?thesis
      using same_def_trans by (auto simp: option.rel_sel)
  qed
  with reg assms show ?thesis
    by (intro exI [of _ "st\<lparr>as_registry := reg\<rparr>"]) (simp add: agrees_def)
qed

lemma create_returns:
  assumes "validate (d\<lparr>idx_name := n\<rparr>) \<noteq> Panicked"
  shows "\<exists>st' resp. create_index_handler cd env st n d = Ret (st', resp)"
proof -
  have pay: "(if idx_name d \<noteq> n then d\<lparr>idx_name := n\<rparr> else d) = d\<lparr>idx_name := n\<rparr>"
    by (cases d) simp
  have "upsert (as_registry st) (d\<lparr>idx_name := n\<rparr>) \<noteq> Panicked"
    using assms by (auto simp: upsert_def run_bind_case split: run.splits sum.splits)
  then have "create_index_handler cd env st n d \<noteq> Panicked"
    unfolding create_index_handler_def pay Let_def
    by (auto simp: run_bind_case split: run.split sum.split RegistryError.split prod.split bool.split)
  then show ?thesis
    by (cases "create_index_handler cd env st n d") auto
qed

lemma agrees_api_step:
  assumes "agrees cd m st" "op_ok cd op"
  shows "\<exists>st'. api_step cd env st op = Some st' \<and> agrees cd (expected_step env m op) st'"
proof (cases op)
  case (PutIndex n d)
  then have ok: "plain_name n" "yaml_roundtrip cd (d\<lparr>idx_name := n\<rparr>)" "validate (d\<lparr>idx_name := n\<rparr>) \<noteq> Panicked"
    using assms(2) by simp_all
  obtain st' resp where step: "create_index_handler cd env st n d = Ret (st', resp)"
    using create_returns [OF ok(3)] by blast
  then have "api_step cd env st op = Some st'"
    by (simp add: PutIndex)
  then show ?thesis
    using agrees_put [OF assms(1) ok(1,2) step] PutIndex by blast
next
  case (DeleteIndex n)
  then have "plain_name n" using assms(2) by simp
  then show ?thesis
    using agrees_delete [OF assms(1)] DeleteIndex by (intro exI conjI) (simp, blast)
next
  case Restart
  then show ?thesis
    using agrees_restart [OF assms(1)] by auto
qed

interpretation definitions: refining_machine "api_step cd env" "expected_step env" "agrees cd" "op_ok cd"
    for cd env
  by unfold_locales (rule agrees_api_step)

text \<open>
  Definitions survive restarts. Start on an empty data directory with file system calls that
  succeed, and make any sequence of restarts and of PUT and DELETE requests with plain names
  whose definitions do not make the check panic: the server stays up, every restart succeeds,
  and the registry holds, up to the order of hash maps, exactly what the accepted requests have
  put and not deleted.
\<close>

theorem definitions_survive_restart:
  assumes "list_all (op_ok cd) ops"
  shows "\<exists>st. try_fold (api_step cd env)
      \<lparr>as_registry = new_registry, as_data_dir = dir, as_files = [], as_io = []\<rparr> ops = Some st \<and>
    (\<forall>n. rel_option same_def (foldl (expected_step env) Map.empty ops n) (reg_get (as_registry st) n))"
proof -
  have "agrees cd Map.empty \<lparr>as_registry = new_registry, as_data_dir = dir, as_files = [], as_io = []\<rparr>"
    by (simp add: agrees_def mirrors_def reg_get_def) (simp add: new_registry_def)
  from definitions.run_simulates [OF this assms] show ?thesis
    by (auto simp: agrees_def)
qed

section \<open>Where it goes wrong\<close>

text \<open>
  A PUT whose file cannot be written is answered with 500, yet the definition is registered
  and used, until the next restart, which loads whatever the failed write left: nothing at all
  when the file could not be created.
\<close>

theorem failed_put_registers:
  assumes "is_management_enabled env" "validate (d\<lparr>idx_name := n\<rparr>) = Ret (Inr ())"
    and "cd_to_yaml cd (d\<lparr>idx_name := n\<rparr>) = Inr c"
    and "\<not> reg_poisoned (as_registry st)" "as_io st = FsDone # FsRefused # io"
  shows "\<exists>st'. create_index_handler cd env st n d =
      Ret (st', 500, error_body ''Failed to persist index definition'') \<and>
    reg_get (as_registry st') = (reg_get (as_registry st))(n \<mapsto> d\<lparr>idx_name := n\<rparr>) \<and>
    as_files st' = as_files st \<and> dir_listing st' = dir_listing st"
proof -
  let ?d = "d\<lparr>idx_name := n\<rparr>"
  have pay: "(if idx_name d \<noteq> n then ?d else d) = ?d"
    by (cases d) simp
  let ?reg = "as_registry st\<lparr>reg_indexes := AList.update n ?d (reg_indexes (as_registry st))\<rparr>"
  have "upsert (as_registry st) ?d = Ret (?reg, Inr ())"
    using upsert_accepted [of ?d "as_registry st"] assms(2,4) by (simp add: passes_check_def)
  then have "create_index_handler cd env st n d =
      Ret (st\<lparr>as_registry := ?reg, as_io := io\<rparr>, 500, error_body ''Failed to persist index definition'')"
    using assms(1,3,5)
    by (simp add: create_index_handler_def pay Let_def fs_create_dir_all_def fs_pop_def fs_write_def)
  moreover have "reg_get ?reg = (reg_get (as_registry st))(n \<mapsto> ?d)"
    using assms(4) by (auto simp: reg_get_def update_conv' fun_eq_iff)
  ultimately show ?thesis
    by (simp add: dir_listing_def indexes_dir_def)
qed

text \<open>
  Names are not checked. An absolute path as the name of an index makes PUT write the
  definition to a file of that path outside the data directory, where no restart finds it, and
  DELETE then removes every file below that path.
\<close>

theorem index_name_escapes:
  assumes "is_management_enabled env" "starts_with n ''/''" "last n \<noteq> CHR ''/''"
    and "validate (d\<lparr>idx_name := n\<rparr>) = Ret (Inr ())"
    and "cd_to_yaml cd (d\<lparr>idx_name := n\<rparr>) = Inr c"
    and "\<not> reg_poisoned (as_registry st)" "as_io st = []"
  shows "\<exists>st1. create_index_handler cd env st n d = Ret (st1, 200, message_body ''Index updated successfully'') \<and>
    map_of (as_files st1) (n @ ''.index.yaml'') = Some c \<and>
    (\<exists>st2. delete_index_handler cd env st1 n = (st2, 200, message_body ''Index deleted successfully'') \<and>
       (\<forall>p. starts_with p (n @ ''/'') \<longrightarrow> map_of (as_files st2) p = None))"
proof -
  let ?d = "d\<lparr>idx_name := n\<rparr>"
  have pay: "(if idx_name d \<noteq> n then ?d else d) = ?d"
    by (cases d) simp
  let ?reg = "as_registry st\<lparr>reg_indexes := AList.update n ?d (reg_indexes (as_registry st))\<rparr>"
  let ?st1 = "st\<lparr>as_registry := ?reg, as_files := AList.update (n @ ''.index.yaml'') c (as_files st)\<rparr>"
  have abs: "starts_with (n @ t) ''/''" for t
    using assms(2) by (auto simp: starts_with_iff)
  then have paths: "definition_path st' n = n @ ''.index.yaml''" "path_join (indexes_dir st') n = n"
    "dir_prefix n = n @ ''/''" for st'
    using assms(2,3) by (simp_all add: definition_path_def path_join_def dir_prefix_def)
  have up: "upsert (as_registry st) ?d = Ret (?reg, Inr ())"
    using upsert_accepted [of ?d "as_registry st"] assms(4,6) by (simp add: passes_check_def)
  have put: "create_index_handler cd env st n d = Ret (?st1, 200, message_body ''Index updated successfully'')"
    using assms(1,5,7) up by (simp add: create_index_handler_def pay Let_def fs_reliable paths)
  obtain reg where rm: "reg_remove (as_registry ?st1) n = (reg, Inr ?d)"
    using assms(6) by (simp add: reg_remove_def update_conv')
  have "delete_index_handler cd env ?st1 n =
      (?st1\<lparr>as_registry := reg, as_files := wiped ?st1 n\<rparr>, 200, message_body ''Index deleted successfully'')"
    by (rule delete_reliable [OF assms(1) _ rm]) (simp add: assms(7))
  moreover have "map_of (wiped ?st1 n) p = None" if "starts_with p (n @ ''/'')" for p
    using that by (auto simp: wiped_def paths map_of_eq_None_iff)
  ultimately show ?thesis
    using put by (auto simp: update_conv')
qed

section \<open>Witnesses\<close>

text \<open>A codec that knows one definition.\<close>

definition demo_codec :: codec where
  "demo_codec =
     \<lparr>cd_to_yaml = (\<lambda>d. if idx_name d = ''logs'' then Inr ''Y'' else Inr ''Z''),
      cd_yaml = (\<lambda>s. if s = ''Y'' then Inr logs_definition else Inl ''bad''),
      cd_to_json = (\<lambda>_. JNull), cd_io_text = (\<lambda>_. [])\<rparr>"

lemma logs_renamed: "logs_definition\<lparr>idx_name := ''logs''\<rparr> = logs_definition"
  by (simp add: logs_definition_def index_of_fields_def)

lemma logs_name [simp]: "idx_name logs_definition = ''logs''"
  by (simp add: logs_definition_def index_of_fields_def)

lemma enabled_default [simp]: "is_management_enabled None"
  by (simp add: is_management_enabled_def ascii_lower_def)

definition fresh_api :: "fs_outcome list \<Rightarrow> api_state" where
  "fresh_api io = \<lparr>as_registry = new_registry, as_data_dir = ''./data'', as_files = [], as_io = io\<rparr>"

theorem definitions_survive_restart_witness:
  "\<exists>st. try_fold (api_step demo_codec None) (fresh_api []) [PutIndex ''logs'' logs_definition, Restart] = Some st \<and>
    reg_get (as_registry st) ''logs'' \<noteq> None"
proof -
  have "list_all (op_ok demo_codec) [PutIndex ''logs'' logs_definition, Restart]"
    using logs_definition_passes
    by (simp add: plain_name_def yaml_roundtrip_def logs_renamed demo_codec_def)
  from definitions_survive_restart [OF this, of None "''./data''"] obtain st
    where "try_fold (api_step demo_codec None) (fresh_api []) [PutIndex ''logs'' logs_definition, Restart] = Some st"
      "rel_option same_def (foldl (expected_step None) Map.empty
         [PutIndex ''logs'' logs_definition, Restart] ''logs'') (reg_get (as_registry st) ''logs'')"
    unfolding fresh_api_def by blast
  moreover from this(2) have "rel_option same_def (Some logs_definition) (reg_get (as_registry st) ''logs'')"
    using logs_definition_passes by (simp add: logs_renamed)
  ultimately show ?thesis
    by (auto simp: option_rel_Some1 simp del: try_fold.simps)
qed

theorem failed_put_registers_witness:
  "\<exists>st'. create_index_handler demo_codec None (fresh_api [FsDone, FsRefused]) ''logs'' logs_definition =
      Ret (st', 500, error_body ''Failed to persist index definition'') \<and>
    reg_get (as_registry st') ''logs'' = Some logs_definition \<and> as_files st' = []"
  using failed_put_registers [where env = None and d = logs_definition and n = "''logs''" and cd = demo_codec
      and c = "''Y''" and st = "fresh_api [FsDone, FsRefused]" and io = "[]"] logs_definition_passes
  by (auto simp: logs_renamed fresh_api_def new_registry_def demo_codec_def)

lemma renamed_passes: "validate (logs_definition\<lparr>idx_name := n\<rparr>) = Ret (Inr ())"
  by (simp add: logs_definition_def index_of_fields_def validate_def validate_schema_def default_partition_def)

theorem index_name_escapes_witness:
  "\<exists>st1. create_index_handler demo_codec None (fresh_api []) ''/etc'' logs_definition =
      Ret (st1, 200, message_body ''Index updated successfully'') \<and>
    map_of (as_files st1) ''/etc.index.yaml'' = Some ''Z''"
  using index_name_escapes [where env = None and d = logs_definition and n = "''/etc''" and cd = demo_codec
      and c = "''Z''" and st = "fresh_api []"] renamed_passes
  by (auto simp: fresh_api_def new_registry_def starts_with_def demo_codec_def)

end
