(* ===== verification/Auth.thy ===== *)
theory Auth
  imports Rust_Str
begin

text \<open>
  \<open>src/api/auth.rs\<close>: the optional check of an API key. The expected header is computed from the
  environment at the first request and kept in a \<open>OnceLock\<close>, which is state here; the checks of
  all requests are a run of the middleware.
\<close>

section \<open>The middleware\<close>

text \<open>
  \<open>HeaderValue::to_str\<close>: the text of a header, if all its bytes are visible ASCII or tabs.
\<close>

definition visible_byte :: "u8 \<Rightarrow> bool" where
  "visible_byte b \<longleftrightarrow> 32 \<le> b \<and> b < 127 \<or> b = 9"

definition header_to_str :: "u8 list \<Rightarrow> string option" where
  "header_to_str v = (if list_all visible_byte v then Some (str_of_bytes v) else None)"

text \<open>\<open>env\<close> is the variable \<open>EDGEWIT_API_KEY\<close>, if it is set to valid Unicode.\<close>

definition auth_header_of :: "string option \<Rightarrow> string option" where
  "auth_header_of env =
     (case env of None \<Rightarrow> None | Some key \<Rightarrow> if key = [] then None else Some (''Bearer '' @ key))"

definition get_expected_auth_header ::
    "string option \<Rightarrow> string option option \<Rightarrow> string option option \<times> string option" where
  "get_expected_auth_header env cell =
     (case cell of
        Some v \<Rightarrow> (cell, v)
      | None \<Rightarrow> (Some (auth_header_of env), auth_header_of env))"

text \<open>Header names are in lower case; of several headers of a name the first one counts.\<close>

definition auth_middleware ::
    "string option \<Rightarrow> string option option \<Rightarrow> (string \<times> u8 list) list \<Rightarrow> 'resp \<Rightarrow>
     string option option \<times> (nat + 'resp)" where
  "auth_middleware env cell headers response =
     (case get_expected_auth_header env cell of
        (cell', None) \<Rightarrow> (cell', Inr response)
      | (cell', Some expected_auth) \<Rightarrow>
          (case Option.bind (map_of headers ''authorization'') header_to_str of
             Some header_val \<Rightarrow>
               if header_val = expected_auth then (cell', Inr response) else (cell', Inl 401)
           | None \<Rightarrow> (cell', Inl 401)))"

text \<open>A series of requests, each with the environment at its time and the answer it would get.\<close>

fun auth_run ::
    "string option option \<Rightarrow> (string option \<times> (string \<times> u8 list) list \<times> 'resp) list \<Rightarrow> (nat + 'resp) list" where
  "auth_run cell [] = []"
| "auth_run cell ((env, headers, response) # reqs) =
     (case auth_middleware env cell headers response of
        (cell', out) \<Rightarrow> out # auth_run cell' reqs)"

section \<open>Who is let through\<close>

text \<open>The decision as the documentation states it.\<close>

definition authorized :: "string option \<Rightarrow> (string \<times> u8 list) list \<Rightarrow> bool" where
  "authorized env headers \<longleftrightarrow>
     (case env of
        None \<Rightarrow> True
      | Some key \<Rightarrow> key = [] \<or>
          map_of headers ''authorization'' = Some (as_bytes (''Bearer '' @ key)) \<and>
          list_all visible_byte (as_bytes key))"

lemma of_char_char_of_u8: "of_char (char_of (unat b)) = (b :: u8)"
proof (rule unsigned_word_eqI [where 'a = nat])
  have "unat b < 256"
    using unsigned_less [where 'a = nat, of b] by simp
  then show "unat (of_char (char_of (unat b)) :: u8) = unat b"
    by (simp add: unat_of_char_u8)
qed

lemma as_bytes_str_of_bytes [simp]: "as_bytes (str_of_bytes bs) = bs"
  by (induction bs) (simp_all add: as_bytes_def str_of_bytes_def of_char_char_of_u8)

lemma header_to_str_eq: "header_to_str v = Some s \<longleftrightarrow> v = as_bytes s \<and> list_all visible_byte v"
  by (auto simp: header_to_str_def)

lemma bearer_visible: "list_all visible_byte (as_bytes (''Bearer '' @ key)) \<longleftrightarrow> list_all visible_byte (as_bytes key)"
  by (simp add: as_bytes_def visible_byte_def)

lemma auth_middleware_cached:
  "auth_middleware env (Some (auth_header_of env0)) headers response =
    (Some (auth_header_of env0), if authorized env0 headers then Inr response else Inl 401)"
proof (cases env0)
  case (Some key)
  show ?thesis
  proof (cases "key = []")
    case False
    let ?x = "''Bearer '' @ key"
    have *: "Option.bind (map_of headers ''authorization'') header_to_str = Some ?x \<longleftrightarrow> authorized env0 headers"
      using Some False bearer_visible [of key]
      by (cases "map_of headers ''authorization''") (auto simp: authorized_def header_to_str_eq)
    have "auth_middleware env (Some (auth_header_of env0)) headers response =
        (Some (auth_header_of env0),
         if Option.bind (map_of headers ''authorization'') header_to_str = Some ?x then Inr response else Inl 401)"
      using Some False
      by (simp add: auth_middleware_def get_expected_auth_header_def auth_header_of_def split: option.split)
    then show ?thesis
      unfolding * .
  qed (use Some in \<open>simp add: auth_middleware_def get_expected_auth_header_def auth_header_of_def authorized_def\<close>)
qed (simp add: auth_middleware_def get_expected_auth_header_def auth_header_of_def authorized_def)

lemma auth_middleware_first:
  "auth_middleware env None headers response = auth_middleware env (Some (auth_header_of env)) headers response"
  by (simp add: auth_middleware_def get_expected_auth_header_def)

lemma auth_run_cached:
  "auth_run (Some (auth_header_of env0)) reqs =
    map (\<lambda>(env, headers, response). if authorized env0 headers then Inr response else Inl 401) reqs"
  by (induction reqs) (auto simp: auth_middleware_cached)


text \<open>
  A key with a character that is not visible ASCII can never be given: every request is refused.
\<close>

theorem unusable_key_locks_out:
  assumes "key \<noteq> []" "\<not> list_all visible_byte (as_bytes key)"
  shows "auth_run None ((Some key, headers, response) # reqs) = replicate (Suc (length reqs)) (Inl 401)"
proof -
  have no: "\<not> authorized (Some key) hs" for hs
    using assms by (simp add: authorized_def)
  have "map (\<lambda>(_, hs, resp). if authorized (Some key) hs then Inr resp else Inl 401) rs =
      replicate (length rs) (Inl (401 :: nat))" for rs :: "(string option \<times> (string \<times> u8 list) list \<times> 'a) list"
    by (induction rs) (auto simp: no)
  from this [of reqs] show ?thesis
    by (simp add: auth_middleware_first auth_middleware_cached auth_run_cached no)
qed

section \<open>Witness\<close>

theorem unusable_key_locks_out_witness:
  "auth_run None [(Some [CHR 0xC3, CHR 0xA9], [(''authorization'', as_bytes (''Bearer '' @ [CHR 0xC3, CHR 0xA9]))], ())] =
    [Inl 401]"
  using unusable_key_locks_out [of "[CHR 0xC3, CHR 0xA9]"
      "[(''authorization'', as_bytes (''Bearer '' @ [CHR 0xC3, CHR 0xA9]))]" "()" "[]"]
  by (simp add: as_bytes_def visible_byte_def)

end
