(* ===== verification/Router.thy ===== *)
theory Router
  imports Auth
begin

text \<open>
  The table of routes of \<open>src/api/mod.rs\<close>, with the check of the API key as the layer around
  every handler. How the web framework picks a route for a path is a parameter with the law its
  documentation states: a route that matches, and of two matching ones the one with fixed text
  where they first differ.
\<close>

section \<open>The table\<close>

datatype http_method = GET | POST | PUT | DELETE | OtherMethod string

datatype endpoint =
    RootHandler | VersionHandler | HealthHandler | StatsHandler | CatIndexesHandler | MetricsHandler
  | BulkHandler | IngestDocHandler | ListIndexesHandler | GetIndexHandler | CreateIndexHandler
  | DeleteIndexHandler | IndexSearchHandler

definition app_routes :: "(string \<times> (http_method \<times> endpoint) list) list" where
  "app_routes =
     [(''/'', [(GET, RootHandler)]),
      (''/version'', [(GET, VersionHandler)]),
      (''/_health'', [(GET, HealthHandler)]),
      (''/_cluster/health'', [(GET, HealthHandler)]),
      (''/_stats'', [(GET, StatsHandler)]),
      (''/_cat/indexes'', [(GET, CatIndexesHandler)]),
      (''/metrics'', [(GET, MetricsHandler)]),
      (''/_bulk'', [(POST, BulkHandler)]),
      (''/{index}/_doc'', [(POST, IngestDocHandler)]),
      (''/indexes'', [(GET, ListIndexesHandler)]),
      (''/indexes/{index}'', [(GET, GetIndexHandler), (PUT, CreateIndexHandler), (DELETE, DeleteIndexHandler)]),
      (''/indexes/{index}/_search'', [(GET, IndexSearchHandler), (POST, IndexSearchHandler)])]"

section \<open>Matching\<close>

text \<open>The segments of a path or a pattern, which starts with a slash.\<close>

fun split_slash :: "string \<Rightarrow> string list" where
  "split_slash [] = [[]]"
| "split_slash (c # cs) =
     (if c = CHR ''/'' then [] # split_slash cs
      else case split_slash cs of [] \<Rightarrow> [[c]] | s # ss \<Rightarrow> (c # s) # ss)"

definition is_capture :: "string \<Rightarrow> bool" where
  "is_capture seg \<longleftrightarrow> seg \<noteq> [] \<and> hd seg = CHR ''{''"

definition seg_matches :: "string \<Rightarrow> string \<Rightarrow> bool" where
  "seg_matches pat seg \<longleftrightarrow> (if is_capture pat then seg \<noteq> [] else pat = seg)"

definition route_matches :: "string \<Rightarrow> string \<Rightarrow> bool" where
  "route_matches pat path \<longleftrightarrow> list_all2 seg_matches (split_slash pat) (split_slash path)"

text \<open>Where the two patterns first differ, the first one has fixed text.\<close>

fun more_specific :: "string list \<Rightarrow> string list \<Rightarrow> bool" where
  "more_specific (p # ps) (q # qs) \<longleftrightarrow> (if p = q then more_specific ps qs else \<not> is_capture p)"
| "more_specific _ _ \<longleftrightarrow> False"

definition matcher_law :: "(string list \<Rightarrow> string \<Rightarrow> string option) \<Rightarrow> string list \<Rightarrow> bool" where
  "matcher_law pick pats \<longleftrightarrow>
     (\<forall>path. case pick pats path of
        None \<Rightarrow> \<not> (\<exists>p \<in> set pats. route_matches p path)
      | Some p \<Rightarrow> p \<in> set pats \<and> route_matches p path \<and>
          (\<forall>q \<in> set pats. route_matches q path \<and> q \<noteq> p \<longrightarrow>
             more_specific (split_slash p) (split_slash q)))"

text \<open>The value a pattern captures from a path.\<close>

definition captured :: "string \<Rightarrow> string \<Rightarrow> string option" where
  "captured pat path =
     map_option snd (find (is_capture \<circ> fst) (zip (split_slash pat) (split_slash path)))"

text \<open>The handler for a request with its captured index; without one the framework answers.\<close>

definition app_router ::
    "(string list \<Rightarrow> string \<Rightarrow> string option) \<Rightarrow> http_method \<Rightarrow> string \<Rightarrow>
     (endpoint \<times> string option) option" where
  "app_router pick m path =
     (case pick (map fst app_routes) path of
        None \<Rightarrow> None
      | Some pat \<Rightarrow>
          map_option (\<lambda>e. (e, captured pat path))
            (Option.bind (map_of app_routes pat) (\<lambda>methods. map_of methods m)))"

section \<open>The layer around the handlers\<close>

text \<open>
  One request: a handler runs only if the middleware lets it. What the framework answers itself
  (no route, wrong method) is \<open>None\<close>; the state is left alone.
\<close>

definition serve ::
    "(string list \<Rightarrow> string \<Rightarrow> string option) \<Rightarrow> (endpoint \<Rightarrow> string option \<Rightarrow> 'st \<Rightarrow> 'st \<times> 'resp) \<Rightarrow>
     string option \<Rightarrow> string option option \<times> 'st \<Rightarrow> http_method \<times> string \<times> (string \<times> u8 list) list \<Rightarrow>
     (string option option \<times> 'st) \<times> (nat + 'resp) option" where
  "serve pick handler env s req =
     (case req of (m, path, headers) \<Rightarrow>
        case app_router pick m path of
          None \<Rightarrow> (s, None)
        | Some (e, index) \<Rightarrow>
            (case auth_middleware env (fst s) headers (handler e index (snd s)) of
               (cell, Inl status) \<Rightarrow> ((cell, snd s), Some (Inl status))
             | (cell, Inr (st, resp)) \<Rightarrow> ((cell, st), Some (Inr resp))))"

definition serve_step where
  "serve_step pick handler env s req = fst (serve pick handler env s req)"

text \<open>What a request that is let through does to the state.\<close>

definition handled ::
    "(string list \<Rightarrow> string \<Rightarrow> string option) \<Rightarrow> (endpoint \<Rightarrow> string option \<Rightarrow> 'st \<Rightarrow> 'st \<times> 'resp) \<Rightarrow>
     'st \<Rightarrow> http_method \<times> string \<times> (string \<times> u8 list) list \<Rightarrow> 'st" where
  "handled pick handler st req =
     (case req of (m, path, headers) \<Rightarrow>
        case app_router pick m path of None \<Rightarrow> st | Some (e, index) \<Rightarrow> fst (handler e index st))"

lemma serve_step_eq:
  assumes "cell = None \<or> cell = Some (auth_header_of env)"
  shows "\<exists>cell'. (cell' = None \<or> cell' = Some (auth_header_of env)) \<and>
    serve_step pick handler env (cell, st) req =
      (cell', if authorized env (snd (snd req)) then handled pick handler st req else st)"
proof -
  have auth: "auth_middleware env cell headers response =
      (Some (auth_header_of env), if authorized env headers then Inr response else Inl 401)"
    for headers :: "(string \<times> u8 list) list" and response :: "'a \<times> 'b"
    using assms by (auto simp: auth_middleware_first auth_middleware_cached)
  obtain m path headers where req: "req = (m, path, headers)" by (cases req)
  show ?thesis
  proof (cases "app_router pick m path")
    case None
    with assms show ?thesis by (simp add: req serve_step_def serve_def handled_def)
  next
    case (Some route)
    then show ?thesis
      by (cases route; cases "handler (fst route) (snd route) st")
        (simp add: req serve_step_def serve_def handled_def auth)
  qed
qed

text \<open>
  C22. Only authorized requests count. Whatever requests arrive, the state of the server is the one
  that the authorized requests alone, handled in order by the handlers the table names, lead to:
  no request without the key reaches any handler, the informational ones included.
\<close>

theorem only_authorized_served:
  "snd (foldl (serve_step pick handler env) (None, st) reqs) =
    foldl (handled pick handler) st (filter (\<lambda>(m, path, headers). authorized env headers) reqs)"
proof -
  have "snd (foldl (serve_step pick handler env) (cell, st) reqs) =
      foldl (handled pick handler) st (filter (\<lambda>(m, path, headers). authorized env headers) reqs)"
    if "cell = None \<or> cell = Some (auth_header_of env)" for cell
    using that
  proof (induction reqs arbitrary: cell st)
    case (Cons req reqs)
    obtain cell' where "cell' = None \<or> cell' = Some (auth_header_of env)"
        "serve_step pick handler env (cell, st) req =
          (cell', if authorized env (snd (snd req)) then handled pick handler st req else st)"
      using serve_step_eq [OF Cons.prems, of pick handler st req] by (elim exE conjE) (rule that)
    then show ?case
      using Cons.IH [of cell' "if authorized env (snd (snd req)) then handled pick handler st req else st"]
      by (simp add: split_beta del: auth_run.simps)
  qed simp
  then show ?thesis by blast
qed

section \<open>Where documents go\<close>

lemma split_slash_nonempty [simp]: "split_slash s \<noteq> []"
  by (cases s) (auto split: list.split)

lemma split_slash_whole: "CHR ''/'' \<notin> set a \<Longrightarrow> split_slash a = [a]"
  by (induction a) auto

lemma split_slash_parts:
  "split_slash (a @ CHR ''/'' # t) = a # split_slash t" if "CHR ''/'' \<notin> set a"
  using that by (induction a) auto

text \<open>Splitting undoes joining.\<close>

fun join_slash :: "string list \<Rightarrow> string" where
  "join_slash [] = []"
| "join_slash [s] = s"
| "join_slash (s # ss) = s @ CHR ''/'' # join_slash ss"

lemma split_join: "ss \<noteq> [] \<Longrightarrow> \<forall>s \<in> set ss. CHR ''/'' \<notin> set s \<Longrightarrow> split_slash (join_slash ss) = ss"
  by (induction ss rule: join_slash.induct) (simp_all add: split_slash_whole split_slash_parts)

lemma join_split: "join_slash (split_slash s) = s"
proof (induction s)
  case (Cons c s)
  obtain x xs where x: "split_slash s = x # xs"
    by (cases "split_slash s") auto
  with Cons show ?case by (cases xs) auto
qed simp

lemma split_no_slash: "p \<in> set (split_slash s) \<Longrightarrow> CHR ''/'' \<notin> set p"
  by (induction s arbitrary: p) (auto split: if_splits list.splits)

text \<open>The patterns of the table that match a path, by its segments.\<close>

lemma pattern_segments:
  "split_slash ''/'' = [[], []]" "split_slash ''/version'' = [[], ''version'']"
  "split_slash ''/_health'' = [[], ''_health'']"
  "split_slash ''/_cluster/health'' = [[], ''_cluster'', ''health'']"
  "split_slash ''/_stats'' = [[], ''_stats'']" "split_slash ''/_cat/indexes'' = [[], ''_cat'', ''indexes'']"
  "split_slash ''/metrics'' = [[], ''metrics'']" "split_slash ''/_bulk'' = [[], ''_bulk'']"
  "split_slash ''/{index}/_doc'' = [[], ''{index}'', ''_doc'']" "split_slash ''/indexes'' = [[], ''indexes'']"
  "split_slash ''/indexes/{index}'' = [[], ''indexes'', ''{index}'']"
  "split_slash ''/indexes/{index}/_search'' = [[], ''indexes'', ''{index}'', ''_search'']"
  by simp_all

lemma doc_pattern_matches:
  "route_matches ''/{index}/_doc'' path \<longleftrightarrow>
    (\<exists>i. path = ''/'' @ i @ ''/_doc'' \<and> i \<noteq> [] \<and> CHR ''/'' \<notin> set i)"
proof
  assume "route_matches ''/{index}/_doc'' path"
  then obtain i where segs: "split_slash path = [[], i, ''_doc'']" "i \<noteq> []"
    unfolding route_matches_def pattern_segments
    by (auto simp: list_all2_Cons1 seg_matches_def is_capture_def)
  have "CHR ''/'' \<notin> set i"
    by (rule split_no_slash [of _ path]) (simp add: segs)
  moreover have "path = join_slash [[], i, ''_doc'']"
    using join_split [of path] segs(1) by simp
  ultimately show "\<exists>i. path = ''/'' @ i @ ''/_doc'' \<and> i \<noteq> [] \<and> CHR ''/'' \<notin> set i"
    using segs(2) by auto
next
  assume "\<exists>i. path = ''/'' @ i @ ''/_doc'' \<and> i \<noteq> [] \<and> CHR ''/'' \<notin> set i"
  then obtain i where i: "path = join_slash [[], i, ''_doc'']" "i \<noteq> []" "CHR ''/'' \<notin> set i"
    by auto
  have "split_slash path = [[], i, ''_doc'']"
    unfolding i(1) by (rule split_join) (use i(3) in auto)
  with i(2) show "route_matches ''/{index}/_doc'' path"
    unfolding route_matches_def pattern_segments by (simp add: seg_matches_def is_capture_def)
qed

lemma matcher_lawD:
  assumes "matcher_law pick pats"
  shows "pick pats path = None \<Longrightarrow> p \<in> set pats \<Longrightarrow> \<not> route_matches p path"
    and "pick pats path = Some p \<Longrightarrow> p \<in> set pats \<and> route_matches p path"
    and "pick pats path = Some p \<Longrightarrow> q \<in> set pats \<Longrightarrow> route_matches q path \<Longrightarrow> q \<noteq> p \<Longrightarrow>
      more_specific (split_slash p) (split_slash q)"
  using assms [unfolded matcher_law_def, rule_format, of path] by auto

lemma doc_path_segments:
  "CHR ''/'' \<notin> set i \<Longrightarrow> split_slash (''/'' @ i @ ''/_doc'') = [[], i, ''_doc'']"
  using split_join [of "[[], i, ''_doc'']"] by simp

lemma doc_path_matches:
  assumes "i \<noteq> []" "CHR ''/'' \<notin> set i" "p \<in> set (map fst app_routes)" "route_matches p (''/'' @ i @ ''/_doc'')"
  shows "p = ''/{index}/_doc'' \<or> p = ''/indexes/{index}'' \<and> i = ''indexes''"
  using assms(3,4)
  unfolding app_routes_def route_matches_def doc_path_segments [OF assms(2)]
  by (simp only: list.map fst_conv list.set insert_iff empty_iff, elim disjE)
    (simp_all only: pattern_segments, auto simp: seg_matches_def is_capture_def)

text \<open>Only one pattern of the table leads to the handler of documents.\<close>

lemma doc_handler:
  "p \<in> set (map fst app_routes) \<Longrightarrow>
   Option.bind (map_of app_routes p) (\<lambda>methods. map_of methods m) = Some IngestDocHandler \<longleftrightarrow>
     p = ''/{index}/_doc'' \<and> m = POST"
  unfolding app_routes_def by (auto split: if_splits)

lemma doc_captured: "CHR ''/'' \<notin> set i \<Longrightarrow> captured ''/{index}/_doc'' (''/'' @ i @ ''/_doc'') = Some i"
  unfolding captured_def pattern_segments doc_path_segments by (simp add: is_capture_def)

text \<open>The paths for which that pattern is picked.\<close>

lemma doc_picked:
  assumes "matcher_law pick (map fst app_routes)"
  shows "pick (map fst app_routes) path = Some ''/{index}/_doc'' \<longleftrightarrow>
    (\<exists>i. path = ''/'' @ i @ ''/_doc'' \<and> i \<noteq> [] \<and> CHR ''/'' \<notin> set i \<and> i \<noteq> ''indexes'')"
proof
  let ?pats = "map fst app_routes"
  note law = matcher_lawD [OF assms]
  have doc: "''/{index}/_doc'' \<in> set ?pats" and def: "''/indexes/{index}'' \<in> set ?pats"
    by (simp_all add: app_routes_def)
  {
    assume picked: "pick ?pats path = Some ''/{index}/_doc''"
    obtain i where i: "path = ''/'' @ i @ ''/_doc''" "i \<noteq> []" "CHR ''/'' \<notin> set i"
      using law(2) [OF picked] doc_pattern_matches by blast
    have "i \<noteq> ''indexes''"
    proof
      assume "i = ''indexes''"
      then have "route_matches ''/indexes/{index}'' path"
        by (simp add: i(1) route_matches_def seg_matches_def is_capture_def)
      then have "more_specific (split_slash ''/{index}/_doc'') (split_slash ''/indexes/{index}'')"
        by (rule law(3) [OF picked def]) simp
      then show False by (simp add: is_capture_def)
    qed
    with i show "\<exists>i. path = ''/'' @ i @ ''/_doc'' \<and> i \<noteq> [] \<and> CHR ''/'' \<notin> set i \<and> i \<noteq> ''indexes''"
      by blast
  next
    assume "\<exists>i. path = ''/'' @ i @ ''/_doc'' \<and> i \<noteq> [] \<and> CHR ''/'' \<notin> set i \<and> i \<noteq> ''indexes''"
    then obtain i where i: "path = ''/'' @ i @ ''/_doc''" "i \<noteq> []" "CHR ''/'' \<notin> set i" "i \<noteq> ''indexes''"
      by blast
    have "route_matches ''/{index}/_doc'' path"
      using i doc_pattern_matches by blast
    then obtain p where p: "pick ?pats path = Some p"
      using law(1) doc by blast
    then have "p \<in> set ?pats" "route_matches p (''/'' @ i @ ''/_doc'')"
      using law(2) [OF p] i(1) by blast+
    from doc_path_matches [OF i(2,3) this] i(4) p show "pick ?pats path = Some ''/{index}/_doc''" by blast
  }
qed

text \<open>
  C26. A document reaches the log through the single endpoint exactly by a \<open>POST\<close> to
  \<open>/<index>/_doc\<close> with an index that is not empty, has no slash, and is not \<open>indexes\<close>: that
  index alone is hidden, by the route of the definitions, which answers with an error.
\<close>

theorem document_route:
  assumes "matcher_law pick (map fst app_routes)"
  shows "app_router pick m path = Some (IngestDocHandler, index) \<longleftrightarrow>
    (\<exists>i. m = POST \<and> index = Some i \<and> path = ''/'' @ i @ ''/_doc'' \<and> i \<noteq> [] \<and> CHR ''/'' \<notin> set i \<and>
       i \<noteq> ''indexes'')"
proof -
  have "app_router pick m path = Some (IngestDocHandler, index) \<longleftrightarrow>
      pick (map fst app_routes) path = Some ''/{index}/_doc'' \<and> m = POST \<and> index = captured ''/{index}/_doc'' path"
    using matcher_lawD(2) [OF assms, of path] doc_handler by (auto simp: app_router_def split: option.splits)
  also have "\<dots> \<longleftrightarrow> (\<exists>i. m = POST \<and> index = Some i \<and> path = ''/'' @ i @ ''/_doc'' \<and> i \<noteq> [] \<and>
      CHR ''/'' \<notin> set i \<and> i \<noteq> ''indexes'')"
    unfolding doc_picked [OF assms] using doc_captured by metis
  finally show ?thesis .
qed

section \<open>Witness\<close>

text \<open>A matcher for this table: only the two patterns for documents and definitions overlap.\<close>

definition doc_pattern :: string where "doc_pattern = ''/{index}/_doc''"
definition def_pattern :: string where "def_pattern = ''/indexes/{index}''"
definition search_pattern :: string where "search_pattern = ''/indexes/{index}/_search''"

definition fixed_patterns :: "string list" where
  "fixed_patterns = [''/'', ''/version'', ''/_health'', ''/_cluster/health'', ''/_stats'', ''/_cat/indexes'',
     ''/metrics'', ''/_bulk'', ''/indexes'']"

definition demo_pick :: "string list \<Rightarrow> string \<Rightarrow> string option" where
  "demo_pick pats path =
     (if route_matches def_pattern path then Some def_pattern
      else find (\<lambda>p. route_matches p path) pats)"

lemma table_patterns:
  "set (map fst app_routes) = set fixed_patterns \<union> {doc_pattern, def_pattern, search_pattern}"
  unfolding app_routes_def fixed_patterns_def doc_pattern_def def_pattern_def search_pattern_def
  by (simp only: list.map fst_conv list.set Un_insert_left Un_empty_left insert_commute)

lemma fixed_segments: "\<forall>p \<in> set ps. \<not> is_capture p \<Longrightarrow> list_all2 seg_matches ps ss \<longleftrightarrow> ps = ss"
proof (induction ps arbitrary: ss)
  case (Cons p ps)
  then show ?case by (cases ss) (auto simp: seg_matches_def)
qed auto

lemma fixed_matches:
  assumes "p \<in> set fixed_patterns"
  shows "route_matches p path \<longleftrightarrow> path = p"
proof -
  have "\<forall>seg \<in> set (split_slash p). \<not> is_capture seg"
    using assms unfolding fixed_patterns_def list.set insert_iff empty_iff
    by (elim disjE; simp add: is_capture_def)
  then have "route_matches p path \<longleftrightarrow> split_slash p = split_slash path"
    unfolding route_matches_def by (rule fixed_segments)
  then show ?thesis
    using join_split by metis
qed

lemma captures_not_fixed:
  assumes "q \<in> set fixed_patterns"
  shows "\<not> route_matches doc_pattern q" "\<not> route_matches def_pattern q" "\<not> route_matches search_pattern q"
  using assms
  unfolding fixed_patterns_def list.set insert_iff empty_iff route_matches_def
    doc_pattern_def def_pattern_def search_pattern_def
  by (elim disjE; simp add: seg_matches_def is_capture_def)+

lemma captures_disjoint:
  "route_matches search_pattern path \<Longrightarrow>
   \<not> route_matches doc_pattern path \<and> \<not> route_matches def_pattern path"
  unfolding route_matches_def doc_pattern_def def_pattern_def search_pattern_def pattern_segments
  by (auto simp: list_all2_Cons1)

lemma table_overlap:
  assumes "p \<in> set (map fst app_routes)" "q \<in> set (map fst app_routes)"
    "route_matches p path" "route_matches q path"
  shows "p = q \<or> {p, q} = {doc_pattern, def_pattern}"
  using assms captures_not_fixed captures_disjoint unfolding table_patterns
  by (auto simp: fixed_matches)

lemma def_more_specific: "more_specific (split_slash def_pattern) (split_slash doc_pattern)"
  by (simp add: def_pattern_def doc_pattern_def is_capture_def)

lemma demo_pick_law: "matcher_law demo_pick (map fst app_routes)"
  unfolding matcher_law_def
proof
  fix path
  let ?pats = "map fst app_routes"
  have def: "def_pattern \<in> set ?pats"
    unfolding table_patterns by blast
  show "case demo_pick ?pats path of None \<Rightarrow> \<not> (\<exists>p \<in> set ?pats. route_matches p path)
    | Some p \<Rightarrow> p \<in> set ?pats \<and> route_matches p path \<and>
        (\<forall>q \<in> set ?pats. route_matches q path \<and> q \<noteq> p \<longrightarrow> more_specific (split_slash p) (split_slash q))"
  proof (cases "route_matches def_pattern path")
    case True
    have "q = doc_pattern" if "q \<in> set ?pats" "route_matches q path" "q \<noteq> def_pattern" for q
      using table_overlap [OF def that(1) True that(2)] that(3) by blast
    then have "more_specific (split_slash def_pattern) (split_slash q)"
      if "q \<in> set ?pats" "route_matches q path" "q \<noteq> def_pattern" for q
      using that def_more_specific by blast
    then show ?thesis
      using True def unfolding demo_pick_def by auto
  next
    case False
    show ?thesis
    proof (cases "find (\<lambda>p. route_matches p path) ?pats")
      case None
      then have "demo_pick ?pats path = None" "\<forall>p \<in> set ?pats. \<not> route_matches p path"
        using False unfolding demo_pick_def by (simp, metis find_None_iff)
      then show ?thesis by simp
    next
      case (Some p)
      then have p: "p \<in> set ?pats" "route_matches p path"
        using find_SomeD by metis+
      have only: "q = p" if "q \<in> set ?pats" "route_matches q path" for q
        using table_overlap [OF that(1) p(1) that(2) p(2)] that(2) p(2) False
        unfolding doubleton_eq_iff by metis
      have picked: "demo_pick ?pats path = Some p"
        using Some False by (simp only: demo_pick_def if_False)
      show ?thesis
        unfolding picked option.case using p only by blast
    qed
  qed
qed

theorem document_route_witness:
  "app_router demo_pick POST ''/logs/_doc'' = Some (IngestDocHandler, Some ''logs'') \<and>
   app_router demo_pick POST ''/indexes/_doc'' \<noteq> Some (IngestDocHandler, Some ''indexes'')"
proof
  show "app_router demo_pick POST ''/logs/_doc'' = Some (IngestDocHandler, Some ''logs'')"
    by (rule document_route [OF demo_pick_law, THEN iffD2], rule exI [of _ "''logs''"]) simp
  show "app_router demo_pick POST ''/indexes/_doc'' \<noteq> Some (IngestDocHandler, Some ''indexes'')"
  proof
    assume "app_router demo_pick POST ''/indexes/_doc'' = Some (IngestDocHandler, Some ''indexes'')"
    from document_route [OF demo_pick_law, THEN iffD1, OF this] show False
      by (elim exE conjE) simp
  qed
qed

end
