(* ===== verification/Server.thy ===== *)
theory Server
  imports System Search Index_Api Router
begin

text \<open>
  The program as its clients see it: HTTP requests, through the key check and the table of routes,
  to the handlers, which work on the registry, the definition files, the log channel and the
  manager of indexes that the tasks of the running system use too. A request for ingestion sends
  its documents one by one, between other requests, and is answered when the appender has answered
  for all of them. Every run of the server is a run of the system of \<open>System\<close>.
\<close>

section \<open>Requests and answers\<close>

record http_request =
  hq_method :: http_method
  hq_path :: string
  hq_headers :: "(string \<times> u8 list) list"
  hq_query :: string
  hq_body :: "u8 list"

datatype ('sc, 'ar) http_reply =
    Unrouted
  | Rejected nat
  | RootReply json
  | VersionReply VersionResponse
  | HealthReply HealthResponse
  | StatsReply StatsResponse
  | CatReply "CatIndex list"
  | MetricsReply string
  | IngestReply http_response
  | ManageReply nat json
  | SearchReply "(nat \<times> string) + ('sc, 'ar) SearchResponse"

text \<open>
  What the handlers get from outside: the extractors of the web framework, each an error status or
  a value (a captured part of the path, the body as text, a definition, the parameters and the body
  of a search), the choice of a route, the serialisers and Tantivy, the environment, the effect of
  removing an index directory on the files Tantivy sees, the texts fixed when the program was
  compiled, and the text of the metrics.
\<close>

record ('w, 'g, 'rd, 'sv, 'q, 'ia, 'ar, 'addr, 'sc) site =
  su_path :: "string \<Rightarrow> nat + string"
  su_text :: "http_request \<Rightarrow> nat + string"
  su_definition :: "http_request \<Rightarrow> nat + IndexDefinition"
  su_params :: "http_request \<Rightarrow> nat + SearchQueryParams"
  su_search_body :: "http_request \<Rightarrow> nat + 'g SearchRequestBody option"
  su_pick :: "string list \<Rightarrow> string \<Rightarrow> string option"
  su_codec :: codec
  su_from_str :: "string \<Rightarrow> json option"
  su_search :: "('rd, 'sv, 'q, 'g, 'ia, 'ar, 'addr, 'sc) search_api"
  su_stats :: "('w, 'rd) stats_api"
  su_api_key :: "string option"
  su_management :: "string option"
  su_data_dir :: string
  su_wipe :: "string \<Rightarrow> 'w \<Rightarrow> 'w"
  su_version :: "string \<times> string \<times> string"
  su_metrics :: string

section \<open>State\<close>

text \<open>
  A request for ingestion in progress: what was asked, the events it has still to send, and the
  identities of the requests to the appender it waits for.
\<close>

datatype job_kind = DocJob string string | BulkJob string

record job =
  jb_request :: http_request
  jb_kind :: job_kind
  jb_pending :: "IngestEvent list"
  jb_ids :: "nat list"

text \<open>
  Beside the system: the files of the data directory with the outcomes of the calls on them, the
  cached key, the ingestion requests in progress, the next free identity, and the answers given.
\<close>

record ('w, 'i, 'rd, 'wr, 'sc, 'ar) server =
  sv_system :: "('w, 'i, 'rd, 'wr) system"
  sv_files :: "(string \<times> string) list"
  sv_fs :: "fs_outcome list"
  sv_cell :: "string option option"
  sv_jobs :: "job list"
  sv_next :: nat
  sv_answers :: "(http_request \<times> ('sc, 'ar) http_reply) list"

definition api_of ::
    "string \<Rightarrow> ('w, 'i, 'rd, 'wr, 'sc, 'ar) server \<Rightarrow> api_state" where
  "api_of data_dir s =
     \<lparr>as_registry = sy_registry (sv_system s), as_data_dir = data_dir, as_files = sv_files s, as_io = sv_fs s\<rparr>"

definition set_api ::
    "api_state \<Rightarrow> ('w, 'i, 'rd, 'wr, 'sc, 'ar) server \<Rightarrow> ('w, 'i, 'rd, 'wr, 'sc, 'ar) server" where
  "set_api st s =
     s\<lparr>sv_system := (sv_system s)\<lparr>sy_registry := as_registry st\<rparr>, sv_files := as_files st, sv_fs := as_io st\<rparr>"

definition manager_of :: "('w, 'i, 'rd, 'wr, 'sc, 'ar) server \<Rightarrow> ('i, 'rd) manager \<times> 'w" where
  "manager_of s = (ac_manager (sy_indexer (sv_system s)), ac_world (sy_indexer (sv_system s)))"

definition set_manager ::
    "('i, 'rd) manager \<Rightarrow> 'w \<Rightarrow> ('w, 'i, 'rd, 'wr, 'sc, 'ar) server \<Rightarrow> ('w, 'i, 'rd, 'wr, 'sc, 'ar) server" where
  "set_manager m w s =
     s\<lparr>sv_system := (sv_system s)\<lparr>sy_indexer := (sy_indexer (sv_system s))\<lparr>ac_manager := m, ac_world := w\<rparr>\<rparr>\<rparr>"

section \<open>The endpoints\<close>

text \<open>
  An endpoint gives the new state and, unless it has to wait, the answer; without a state a panic has
  ended the process.
\<close>

type_synonym ('w, 'i, 'rd, 'wr, 'sc, 'ar) outcome =
  "('w, 'i, 'rd, 'wr, 'sc, 'ar) server option \<times> ('sc, 'ar) http_reply option"

text \<open>The extractor of the captured index.\<close>

definition with_path ::
    "(string \<Rightarrow> nat + string) \<Rightarrow> string option \<Rightarrow> ('w, 'i, 'rd, 'wr, 'sc, 'ar) server \<Rightarrow>
     (string \<Rightarrow> ('w, 'i, 'rd, 'wr, 'sc, 'ar) outcome) \<Rightarrow> ('w, 'i, 'rd, 'wr, 'sc, 'ar) outcome" where
  "with_path decode cap s f =
     (case cap of
        None \<Rightarrow> (Some s, Some (Rejected 500))
      | Some raw \<Rightarrow>
          (case decode raw of Inl status \<Rightarrow> (Some s, Some (Rejected status)) | Inr index \<Rightarrow> f index))"

definition with_extracted ::
    "nat + 'v \<Rightarrow> ('w, 'i, 'rd, 'wr, 'sc, 'ar) server \<Rightarrow> ('v \<Rightarrow> ('w, 'i, 'rd, 'wr, 'sc, 'ar) outcome) \<Rightarrow>
     ('w, 'i, 'rd, 'wr, 'sc, 'ar) outcome" where
  "with_extracted x s f =
     (case x of Inl status \<Rightarrow> (Some s, Some (Rejected status)) | Inr v \<Rightarrow> f v)"

text \<open>
  What the two ingestion handlers send and answer, given the answers of the appender; the channel to
  the appender is open as long as the program runs. The first part does not depend on the answers.
\<close>

fun ask ::
    "('w, 'g, 'rd, 'sv, 'q, 'ia, 'ar, 'addr, 'sc) site \<Rightarrow> job_kind \<Rightarrow> reply list \<Rightarrow>
     IngestEvent list \<times> http_response" where
  "ask su (DocJob index body) answers =
     ingest_doc_handler [] (case answers of [] \<Rightarrow> Dropped | answer # _ \<Rightarrow> answer) index body"
| "ask su (BulkJob body) answers = bulk_handler (su_from_str su) [] answers body"

definition new_job ::
    "('w, 'g, 'rd, 'sv, 'q, 'ia, 'ar, 'addr, 'sc) site \<Rightarrow> http_request \<Rightarrow> job_kind \<Rightarrow> job" where
  "new_job su req kind =
     \<lparr>jb_request = req, jb_kind = kind, jb_pending = fst (ask su kind []), jb_ids = []\<rparr>"

definition add_job ::
    "('w, 'g, 'rd, 'sv, 'q, 'ia, 'ar, 'addr, 'sc) site \<Rightarrow> http_request \<Rightarrow> job_kind \<Rightarrow>
     ('w, 'i, 'rd, 'wr, 'sc, 'ar) server \<Rightarrow> ('w, 'i, 'rd, 'wr, 'sc, 'ar) outcome" where
  "add_job su req kind s = (Some (s\<lparr>sv_jobs := sv_jobs s @ [new_job su req kind]\<rparr>), None)"

definition serve_search ::
    "('w, 'g, 'rd, 'sv, 'q, 'ia, 'ar, 'addr, 'sc) site \<Rightarrow>
     ('b, 'x, 'w, 'd, 'i, 'rd, 'doc, 'f, 'wr) deps \<Rightarrow> u64 \<Rightarrow> string \<Rightarrow> SearchQueryParams \<Rightarrow>
     'g SearchRequestBody option \<Rightarrow> ('w, 'i, 'rd, 'wr, 'sc, 'ar) server \<Rightarrow>
     ('w, 'i, 'rd, 'wr, 'sc, 'ar) outcome" where
  "serve_search su dp took index params body s =
     (case index_search_handler (dp_schema dp) (dp_index dp) (su_search su) took
             (sy_registry (sv_system s)) (manager_of s) index params body of
        Panicked \<Rightarrow> (None, None)
      | Ret (m, w, resp) \<Rightarrow> (Some (set_manager m w s), Some (SearchReply resp)))"

definition serve_stats ::
    "('w, 'g, 'rd, 'sv, 'q, 'ia, 'ar, 'addr, 'sc) site \<Rightarrow>
     ('b, 'x, 'w, 'd, 'i, 'rd, 'doc, 'f, 'wr) deps \<Rightarrow> ('w, 'i, 'rd, 'wr, 'sc, 'ar) server \<Rightarrow>
     ('w, 'i, 'rd, 'wr, 'sc, 'ar) outcome" where
  "serve_stats su dp s =
     (case stats_handler (dp_schema dp) (dp_index dp) (su_stats su) (sy_registry (sv_system s))
             (su_data_dir su) (manager_of s) of
        Panicked \<Rightarrow> (None, None)
      | Ret (m, w, resp) \<Rightarrow> (Some (set_manager m w s), Some (StatsReply resp)))"

definition serve_cat ::
    "('w, 'g, 'rd, 'sv, 'q, 'ia, 'ar, 'addr, 'sc) site \<Rightarrow>
     ('b, 'x, 'w, 'd, 'i, 'rd, 'doc, 'f, 'wr) deps \<Rightarrow> ('w, 'i, 'rd, 'wr, 'sc, 'ar) server \<Rightarrow>
     ('w, 'i, 'rd, 'wr, 'sc, 'ar) outcome" where
  "serve_cat su dp s =
     (case cat_indexes_handler (dp_schema dp) (dp_index dp) (su_stats su) (sy_registry (sv_system s))
             (su_data_dir su) (manager_of s) of
        Panicked \<Rightarrow> (None, None)
      | Ret (m, w, rows) \<Rightarrow> (Some (set_manager m w s), Some (CatReply rows)))"

definition serve_create ::
    "('w, 'g, 'rd, 'sv, 'q, 'ia, 'ar, 'addr, 'sc) site \<Rightarrow> string \<Rightarrow> IndexDefinition \<Rightarrow>
     ('w, 'i, 'rd, 'wr, 'sc, 'ar) server \<Rightarrow> ('w, 'i, 'rd, 'wr, 'sc, 'ar) outcome" where
  "serve_create su index payload s =
     (case create_index_handler (su_codec su) (su_management su) (api_of (su_data_dir su) s) index payload of
        Panicked \<Rightarrow> (None, None)
      | Ret (st, status, body) \<Rightarrow> (Some (set_api st s), Some (ManageReply status body)))"

definition serve_delete ::
    "('w, 'g, 'rd, 'sv, 'q, 'ia, 'ar, 'addr, 'sc) site \<Rightarrow> string \<Rightarrow>
     ('w, 'i, 'rd, 'wr, 'sc, 'ar) server \<Rightarrow> ('w, 'i, 'rd, 'wr, 'sc, 'ar) outcome" where
  "serve_delete su index s =
     (case delete_index_handler (su_codec su) (su_management su) (api_of (su_data_dir su) s) index of
        (st, status, body) \<Rightarrow>
          let s1 = set_api st s in
          (Some (if status = 200
                 then set_manager (fst (manager_of s1)) (su_wipe su index (snd (manager_of s1))) s1
                 else s1),
           Some (ManageReply status body)))"

text \<open>The handlers of the table.\<close>

fun handle ::
    "('w, 'g, 'rd, 'sv, 'q, 'ia, 'ar, 'addr, 'sc) site \<Rightarrow>
     ('b, 'x, 'w, 'd, 'i, 'rd, 'doc, 'f, 'wr) deps \<Rightarrow> http_request \<Rightarrow> u64 \<Rightarrow> endpoint \<Rightarrow> string option \<Rightarrow>
     ('w, 'i, 'rd, 'wr, 'sc, 'ar) server \<Rightarrow> ('w, 'i, 'rd, 'wr, 'sc, 'ar) outcome" where
  "handle su dp req took RootHandler cap s = (Some s, Some (RootReply root_handler))"
| "handle su dp req took VersionHandler cap s =
     (case su_version su of (v, commit, build) \<Rightarrow> (Some s, Some (VersionReply (version_handler v commit build))))"
| "handle su dp req took HealthHandler cap s = (Some s, Some (HealthReply health_handler))"
| "handle su dp req took StatsHandler cap s = serve_stats su dp s"
| "handle su dp req took CatIndexesHandler cap s = serve_cat su dp s"
| "handle su dp req took MetricsHandler cap s = (Some s, Some (MetricsReply (su_metrics su)))"
| "handle su dp req took BulkHandler cap s =
     with_extracted (su_text su req) s (\<lambda>body. add_job su req (BulkJob body) s)"
| "handle su dp req took IngestDocHandler cap s =
     with_path (su_path su) cap s (\<lambda>index.
       with_extracted (su_text su req) s (\<lambda>body. add_job su req (DocJob index body) s))"
| "handle su dp req took ListIndexesHandler cap s =
     (case list_indexes_handler (su_codec su) (api_of (su_data_dir su) s) of
        (status, body) \<Rightarrow> (Some s, Some (ManageReply status body)))"
| "handle su dp req took GetIndexHandler cap s =
     with_path (su_path su) cap s (\<lambda>index.
       case get_index_handler (su_codec su) (api_of (su_data_dir su) s) index of
         (status, body) \<Rightarrow> (Some s, Some (ManageReply status body)))"
| "handle su dp req took CreateIndexHandler cap s =
     with_path (su_path su) cap s (\<lambda>index.
       with_extracted (su_definition su req) s (\<lambda>payload. serve_create su index payload s))"
| "handle su dp req took DeleteIndexHandler cap s =
     with_path (su_path su) cap s (\<lambda>index. serve_delete su index s)"
| "handle su dp req took IndexSearchHandler cap s =
     with_path (su_path su) cap s (\<lambda>index.
       with_extracted (su_params su req) s (\<lambda>params.
         with_extracted (su_search_body su req) s (\<lambda>body. serve_search su dp took index params body s)))"

section \<open>The running server\<close>

text \<open>
  A request reaches its handler through the key check and the table of routes; the clock gives the
  time a search took. The other events are that a request in progress sends its next document, that
  it is answered, once all it sent has been, and a step of the tasks or the file system.
\<close>

datatype 'w server_event =
    Http http_request u64 | SendNext nat | Respond nat | Background "'w system_event"

fun background :: "'w system_event \<Rightarrow> bool" where
  "background (Request _) \<longleftrightarrow> False"
| "background (Define _) \<longleftrightarrow> False"
| "background (OpenReader _) \<longleftrightarrow> False"
| "background _ \<longleftrightarrow> True"

definition on_state ::
    "('w, 'g, 'rd, 'sv, 'q, 'ia, 'ar, 'addr, 'sc) site \<Rightarrow>
     ('b, 'x, 'w, 'd, 'i, 'rd, 'doc, 'f, 'wr) deps \<Rightarrow> http_request \<Rightarrow> u64 \<Rightarrow> endpoint \<Rightarrow> string option \<Rightarrow>
     ('w, 'i, 'rd, 'wr, 'sc, 'ar) server option \<Rightarrow> ('w, 'i, 'rd, 'wr, 'sc, 'ar) outcome" where
  "on_state su dp req took e cap st =
     (case st of None \<Rightarrow> (None, None) | Some s \<Rightarrow> handle su dp req took e cap s)"

definition serve_http ::
    "('w, 'g, 'rd, 'sv, 'q, 'ia, 'ar, 'addr, 'sc) site \<Rightarrow>
     ('b, 'x, 'w, 'd, 'i, 'rd, 'doc, 'f, 'wr) deps \<Rightarrow> http_request \<Rightarrow> u64 \<Rightarrow>
     ('w, 'i, 'rd, 'wr, 'sc, 'ar) server \<Rightarrow> ('w, 'i, 'rd, 'wr, 'sc, 'ar) server option" where
  "serve_http su dp req took s =
     (case serve (su_pick su) (on_state su dp req took) (su_api_key su) (sv_cell s, Some s)
             (hq_method req, hq_path req, hq_headers req) of
        ((cell, st), out) \<Rightarrow>
          map_option
            (\<lambda>s'. s'\<lparr>sv_cell := cell,
               sv_answers := sv_answers s' @
                 (case out of
                    None \<Rightarrow> [(req, Unrouted)]
                  | Some (Inl status) \<Rightarrow> [(req, Rejected status)]
                  | Some (Inr None) \<Rightarrow> []
                  | Some (Inr (Some resp)) \<Rightarrow> [(req, resp)])\<rparr>) st)"

definition send_next ::
    "(u8 list \<Rightarrow> u32) \<Rightarrow> ('dur, int) chrono_api \<Rightarrow> ('b, 'x, 'w, 'd, 'i, 'rd, 'doc, 'f, 'wr) deps \<Rightarrow> nat \<Rightarrow>
     ('w, 'i, 'rd, 'wr, 'sc, 'ar) server \<Rightarrow> ('w, 'i, 'rd, 'wr, 'sc, 'ar) server option" where
  "send_next crc chr dp k s =
     (if k < length (sv_jobs s) then
        (case jb_pending (sv_jobs s ! k) of
           [] \<Rightarrow> Some s
         | ev # evs \<Rightarrow>
             map_option
               (\<lambda>sys. s\<lparr>sv_system := sys, sv_next := Suc (sv_next s),
                  sv_jobs := (sv_jobs s)[k := (sv_jobs s ! k)\<lparr>jb_pending := evs,
                    jb_ids := jb_ids (sv_jobs s ! k) @ [sv_next s]\<rparr>]\<rparr>)
               (system_step crc chr dp (sv_system s) (Request \<lparr>req_id = sv_next s, req_event = ev\<rparr>)))
      else Some s)"

text \<open>The answers to the requests of these identities, if all are there.\<close>

definition replies_to :: "(nat \<times> reply) list \<Rightarrow> nat list \<Rightarrow> reply list option" where
  "replies_to replies ids = those (map (map_of replies) ids)"

definition respond ::
    "('w, 'g, 'rd, 'sv, 'q, 'ia, 'ar, 'addr, 'sc) site \<Rightarrow> nat \<Rightarrow>
     ('w, 'i, 'rd, 'wr, 'sc, 'ar) server \<Rightarrow> ('w, 'i, 'rd, 'wr, 'sc, 'ar) server" where
  "respond su k s =
     (if k < length (sv_jobs s) \<and> jb_pending (sv_jobs s ! k) = [] then
        (case replies_to (ap_replies (sy_appender (sv_system s))) (jb_ids (sv_jobs s ! k)) of
           None \<Rightarrow> s
         | Some answers \<Rightarrow>
             s\<lparr>sv_jobs := take k (sv_jobs s) @ drop (Suc k) (sv_jobs s),
               sv_answers := sv_answers s @
                 [(jb_request (sv_jobs s ! k), IngestReply (snd (ask su (jb_kind (sv_jobs s ! k)) answers)))]\<rparr>)
      else s)"

fun server_step ::
    "('w, 'g, 'rd, 'sv, 'q, 'ia, 'ar, 'addr, 'sc) site \<Rightarrow> (u8 list \<Rightarrow> u32) \<Rightarrow> ('dur, int) chrono_api \<Rightarrow>
     ('b, 'x, 'w, 'd, 'i, 'rd, 'doc, 'f, 'wr) deps \<Rightarrow> ('w, 'i, 'rd, 'wr, 'sc, 'ar) server \<Rightarrow>
     'w server_event \<Rightarrow> ('w, 'i, 'rd, 'wr, 'sc, 'ar) server option" where
  "server_step su crc chr dp s (Http req took) = serve_http su dp req took s"
| "server_step su crc chr dp s (SendNext k) = send_next crc chr dp k s"
| "server_step su crc chr dp s (Respond k) = Some (respond su k s)"
| "server_step su crc chr dp s (Background e) =
     (if background e then
        map_option (\<lambda>sys. s\<lparr>sv_system := sys\<rparr>) (system_step crc chr dp (sv_system s) e)
      else Some s)"

definition start_server ::
    "('w, 'i, 'rd, 'wr) system \<Rightarrow> (string \<times> string) list \<Rightarrow> fs_outcome list \<Rightarrow>
     ('w, 'i, 'rd, 'wr, 'sc, 'ar) server" where
  "start_server s files outcomes =
     \<lparr>sv_system = s, sv_files = files, sv_fs = outcomes, sv_cell = None, sv_jobs = [], sv_next = 0,
      sv_answers = []\<rparr>"

end
