(* ===== verification/End_To_End.thy ===== *)
theory End_To_End
  imports System
begin

text \<open>
  Properties of the whole system: the path of a document from the answer 201 to the committed
  index, the path of a retention policy from the registry to the committed deletion, and the
  documents that are acknowledged and then dropped.
\<close>

section \<open>From the answer to the index\<close>

lemma start_program_parts:
  assumes "start_program yaml env pf = Ret (Inr p)"
  shows "actor_inv (pr_indexer p)" "ac_writers (pr_indexer p) = []"
    "pr_wal p = start_wal 0 (pf_log_files pf) (pf_io pf)" "reg_inv (pr_registry p)"
    "im_indexes (ac_manager (pr_indexer p)) = []"
  using assms
  by (cases rule: start_program_cases;
      simp add: new_actor_def new_manager_def actor_inv_def load_from_dir_inv [OF reg_inv_new])+

lemma boot_inv:
  assumes "start_program yaml env pf = Ret (Inr p)" "boot p = Some s"
  shows "system_inv dp pend comm pay s"
  using start_program_parts [OF assms(1)] assms(2)
  by (auto simp: boot_def initial_def system_inv_def actor_ok_def tidy_def pending_def schemas_built_def
      indexes_built_def)

lemma reached_inv:
  assumes "writer_law (dp_writer dp) pend comm pay" "reliable (dp_writer dp)"
    and "start_program yaml env pf = Ret (Inr p)" "boot p = Some s0"
    and "try_fold (system_step crc chr dp) s0 es = Some s"
  shows "system_inv dp pend comm pay s"
  using running.run_inv [of dp pend comm pay s0 crc chr es s] boot_inv [OF assms(3,4), of dp pend comm pay]
    assms(1,2,5)
  by (simp add: system_ok_def)

text \<open>After the next tick an operation of the task is committed.\<close>

lemma committed_by_tick:
  assumes "writer_law (dp_writer dp) pend comm pay" "reliable (dp_writer dp)"
    and "system_inv dp pend comm pay s" "op \<in> set (history pend comm (sy_indexer s) n)"
  shows "\<exists>s' wr. system_step crc chr dp s Timer = Some s' \<and>
    map_of (ac_writers (sy_indexer s')) n = Some wr \<and> op \<in> set (comm wr) \<and> pend wr = []"
proof -
  obtain wr where wr: "map_of (ac_writers (sy_indexer s)) n = Some wr" "op \<in> set (comm wr @ pend wr)"
    using assms(4) by (cases "map_of (ac_writers (sy_indexer s)) n") (auto simp: history_def)
  have "actor_inv (sy_indexer s)" "tidy pend (sy_indexer s)"
    using assms(1-3) by (auto simp: system_inv_def actor_ok_def)
  from tick_outcome [OF assms(1,2) this, of "sy_registry s"] wr(1)
  obtain a' wr' where a': "actor_step dp (Ret (sy_indexer s)) (sy_registry s, Tick) = Ret a'"
      "map_of (ac_writers a') n = Some wr'" "pend wr' = []" "comm wr' = comm wr @ pend wr"
    by metis
  then have "system_step crc chr dp s Timer = Some (s\<lparr>sy_indexer := a'\<rparr>)"
    by (simp add: with_indexer_def del: actor_step.simps)
  with wr(2) a' show ?thesis by auto
qed

lemma delivered_result:
  assumes "system_inv dp pend comm pay s" "sy_delivered s = length (ap_sent (sy_appender s))"
    and "ev \<in> fst ` set (ap_sent (sy_appender s))"
  obtains res where "(ev, res) \<in> set (sy_results s)"
proof -
  have "fst ` set (sy_results s) = fst ` set (ap_sent (sy_appender s))"
    using assms(1,2) by (metis list.set_map order_refl system_inv_def take_all)
  with assms(3) have "ev \<in> fst ` set (sy_results s)" by simp
  with that show ?thesis by force
qed

text \<open>
  Acknowledged: the frame of the document is in the synced part of a log file the appender has written
  (whose name a round of retention may have removed, \<open>sy_removed\<close>), and either the task has logged an
  error for it, or after the next tick of the timer the document built from it is among the committed
  operations of the writer of its index, which has none left uncommitted.
\<close>

definition stored where
  "stored crc chr dp pend comm s ev \<longleftrightarrow>
     durable crc (ap_wal (sy_appender s)) ev \<and>
     ((\<exists>e. (ev, Inl e) \<in> set (sy_results s)) \<or>
      (\<exists>s' wr doc. system_step crc chr dp s Timer = Some s' \<and> doc_for dp ev doc \<and>
         map_of (ac_writers (sy_indexer s')) (ev_index ev) = Some wr \<and> Inl doc \<in> set (comm wr) \<and> pend wr = []))"

lemma acked_is_stored:
  assumes "writer_law (dp_writer dp) pend comm pay" "reliable (dp_writer dp)"
    and "start_program yaml env pf = Ret (Inr p)" "boot p = Some s0"
    and "\<And>path f. pf_log_files pf path = Some f \<Longrightarrow> lf_synced f \<le> length (lf_bytes f)"
    and "try_fold (system_step crc chr dp) s0 es = Some s"
    and "distinct (map req_id (requests es))" "req \<in> set (requests es)"
    and "(req_id req, Acked) \<in> set (ap_replies (sy_appender s))"
    and "sy_delivered s = length (ap_sent (sy_appender s))"
  shows "stored crc chr dp pend comm s (req_event req)"
proof -
  obtain w where w: "start_wal 0 (pf_log_files pf) (pf_io pf) = Some w"
      "sy_appender s0 = \<lparr>ap_queue = [], ap_wal = w, ap_replies = [], ap_sent = []\<rparr>"
    using start_program_parts(3) [OF assms(3)] assms(4) by (auto simp: boot_def initial_def)
  note acked_if = durable_if_acked [OF w(1) _ system_appender [OF assms(6), unfolded w(2)]
      assms(7,8) [unfolded requests_def] assms(9)]
  have acked: "durable crc (ap_wal (sy_appender s)) (req_event req)"
    "req_event req \<in> fst ` set (ap_sent (sy_appender s))"
    by (rule acked_if, erule assms(5))+
  have inv: "system_inv dp pend comm pay s"
    using reached_inv [OF assms(1-4,6)] .
  obtain res where res: "(req_event req, res) \<in> set (sy_results s)"
    using delivered_result [OF inv assms(10) acked(2)] .
  show ?thesis
  proof (cases res)
    case (Inl e)
    with acked(1) res show ?thesis by (auto simp: stored_def)
  next
    case (Inr u)
    then obtain doc where doc: "doc_for dp (req_event req) doc"
        "Inl doc \<in> set (history pend comm (sy_indexer s) (ev_index (req_event req)))"
      using inv res by (auto simp: system_inv_def)
    with committed_by_tick [OF assms(1,2) inv doc(2), of crc chr] acked(1) show ?thesis
      unfolding stored_def by blast
  qed
qed

text \<open>
  The path of a document. Start the program on any platform and let requests, turns of the
  appender, deliveries, rounds of retention, purges, timer ticks and changes of the registry
  follow in any order, with any I/O errors on the log. If a client has the answer 201 for a
  document and the indexing task has received all that was sent to it, then the frame of the
  document is in the synced part of a log file the appender has written (whose name a round of
  retention may have removed, \<open>sy_removed\<close>), and either the task has logged an error for it, or
  after the next tick of the timer the document built from it is among the committed operations of
  the writer of its index, which has none left uncommitted.
\<close>

theorem created_is_indexed:
  assumes "writer_law (dp_writer dp) pend comm pay" "reliable (dp_writer dp)"
    and "start_program yaml env pf = Ret (Inr p)" "boot p = Some s0"
    and "\<And>path f. pf_log_files pf path = Some f \<Longrightarrow> lf_synced f \<le> length (lf_bytes f)"
    and "try_fold (system_step crc chr dp) s0 es = Some s"
    and "distinct (map req_id (requests es))" "req \<in> set (requests es)"
    and "(req_id req, answer) \<in> set (ap_replies (sy_appender s))"
    and "ingest_doc_handler script answer index body = ([req_event req], Inr (201, response))"
    and "sy_delivered s = length (ap_sent (sy_appender s))"
  shows "durable crc (ap_wal (sy_appender s)) (req_event req) \<and>
    ((\<exists>e. (req_event req, Inl e) \<in> set (sy_results s)) \<or>
     (\<exists>s' wr doc. system_step crc chr dp s Timer = Some s' \<and> doc_for dp (req_event req) doc \<and>
        map_of (ac_writers (sy_indexer s')) index = Some wr \<and> Inl doc \<in> set (comm wr) \<and> pend wr = []))"
proof -
  have acked: "answer = Acked" and ev: "req_event req = ingest_event index body"
    using assms(10) by (auto simp: ingest_doc_handler_def split: if_splits reply.splits)
  from ev have "ev_index (req_event req) = index"
    by (simp add: ingest_event_def)
  moreover have "stored crc chr dp pend comm s (req_event req)"
    by (rule acked_is_stored [OF assms(1-4) _ assms(6-8) assms(9) [unfolded acked] assms(11)], erule assms(5))
  ultimately show ?thesis
    by (simp add: stored_def)
qed

section \<open>From the policy to the deletion\<close>


section \<open>Acknowledged and dropped\<close>

lemma run_one_request:
  assumes "start_program yaml env pf = Ret (Inr p)" "boot p = Some s0" "set (pf_io pf) \<subseteq> {IoOk}"
  shows "\<exists>s off. try_fold (system_step crc chr dp) s0 [Request req, WalLoop] = Some s \<and>
    ap_replies (sy_appender s) = [(req_id req, Acked)] \<and> ap_sent (sy_appender s) = [(req_event req, off)] \<and>
    sy_indexer s = pr_indexer p \<and> sy_registry s = pr_registry p \<and> sy_delivered s = 0 \<and> sy_results s = []"
proof -
  obtain w where w: "start_wal 0 (pf_log_files pf) (pf_io pf) = Some w"
      "s0 = initial (pr_registry p) w (pr_indexer p) (pr_retention p)"
    using start_program_parts(3) [OF assms(1)] assms(2) by (auto simp: boot_def initial_def)
  obtain st replies sent where p: "process_batch crc w [req] = (st, replies, sent)"
    by (cases "process_batch crc w [req]") auto
  have "replies = [(req_id req, Acked)]" "\<exists>off. sent = [(req_event req, off)]"
    using p start_wal_healthy(1) [OF w(1) assms(3)] by (cases rule: process_batch_cases; simp)+
  with p w(2) show ?thesis by (auto simp: initial_def)
qed

text \<open>
  C36. An answer of 201 does not promise that a document can be found. On a healthy log a document
  for an unknown index, or whose bytes are not a JSON object, is acknowledged and stored; the
  indexing task then drops it with an error that is only logged, and nothing in its state
  remembers the document.
\<close>

theorem acked_but_dropped:
  assumes "start_program yaml env pf = Ret (Inr p)" "boot p = Some s0" "set (pf_io pf) \<subseteq> {IoOk}"
    and "reg_get (pr_registry p) (ev_index (req_event req)) = None \<or>
      (\<forall>m. sj_from_slice (dp_json dp) (ev_payload (req_event req)) \<noteq> Inr (JObject m))"
  shows "\<exists>s e. try_fold (system_step crc chr dp) s0 [Request req, WalLoop, Deliver] = Some s \<and>
    ap_replies (sy_appender s) = [(req_id req, Acked)] \<and>
    sy_delivered s = length (ap_sent (sy_appender s)) \<and>
    sy_results s = [(req_event req, Inl e)] \<and> sy_indexer s = sy_indexer s0"
proof -
  obtain s off where s: "try_fold (system_step crc chr dp) s0 [Request req, WalLoop] = Some s"
      "ap_replies (sy_appender s) = [(req_id req, Acked)]" "ap_sent (sy_appender s) = [(req_event req, off)]"
      "sy_indexer s = pr_indexer p" "sy_registry s = pr_registry p" "sy_delivered s = 0" "sy_results s = []"
    using run_one_request [OF assms(1-3)] by blast
  have "\<exists>e. process_event dp (pr_registry p) (pr_indexer p) (req_event req) off = Ret (pr_indexer p, Inl e)"
    using assms(4) by (auto simp: process_event_def split: option.split sum.split elim: is_object.elims)
  then obtain e where e: "process_event dp (pr_registry p) (pr_indexer p) (req_event req) off = Ret (pr_indexer p, Inl e)"
    by blast
  have idle: "commit_all dp (pr_indexer p)\<lparr>ac_docs_since_commit := 0\<rparr> = pr_indexer p"
    using assms(1) by (cases rule: start_program_cases) (simp add: new_actor_def commit_all_def)
  have "actor_step dp (Ret (pr_indexer p)) (pr_registry p, Receive (req_event req) off) = Ret (pr_indexer p)"
    using idle by (simp add: e Let_def)
  then have "deliver dp s = Some (s\<lparr>sy_delivered := 1, sy_results := [(req_event req, Inl e)]\<rparr>)"
    using s(3-7) e by (simp add: deliver_def with_indexer_def del: actor_step.simps)
  moreover have "sy_indexer s0 = pr_indexer p"
    using assms(2) by (auto simp: boot_def initial_def)
  ultimately show ?thesis
    using try_fold_append [of "system_step crc chr dp" s0 "[Request req, WalLoop]" "[Deliver]"] s by simp
qed


section \<open>Witnesses\<close>

definition here :: "string \<Rightarrow> string option" where
  "here key = (if key = ''EDGEWIT_DATA_DIR'' then Some ''d'' else None)"

definition empty_platform :: "string list platform" where
  "empty_platform =
     \<lparr>pf_logging = None, pf_thread_pool = None, pf_indexes_exist = False, pf_read_dir = Inr [],
      pf_log_files = Map.empty, pf_io = [], pf_upper = (\<lambda>s. s), pf_world = [], pf_recorder = None,
      pf_listen = (\<lambda>_. None)\<rparr>"

definition logs_req :: WalRequest where
  "logs_req = \<lparr>req_id = 1, req_event = logs_event\<rparr>"

lemma demo_program:
  "\<exists>p. start_program (\<lambda>_. Inl []) here empty_platform = Ret (Inr p) \<and> pr_registry p = new_registry \<and>
     pr_indexer p = demo_start \<and> pr_wal p = start_wal 0 Map.empty []"
  by (simp add: start_program_def read_config_def env_usize_def env_or_def here_def parse_u16_def
      parse_u64_def from_str_radix_u64_def magnitude_def strip_plus_def to_digit_def digit_val_def
      load_from_dir_def empty_platform_def channel_ok_def start_indexer_def env_number_def new_worker_def
      demo_start_def new_actor_def Let_def)


lemma demo_boot:
  obtains p w s0 where "start_program (\<lambda>_. Inl []) here empty_platform = Ret (Inr p)"
    "pr_registry p = new_registry" "pr_indexer p = demo_start" "start_wal 0 Map.empty [] = Some w"
    "boot p = Some s0" "s0 = initial new_registry w demo_start (pr_retention p)"
proof -
  obtain p where p: "start_program (\<lambda>_. Inl []) here empty_platform = Ret (Inr p)"
      "pr_registry p = new_registry" "pr_indexer p = demo_start" "pr_wal p = start_wal 0 Map.empty []"
    using demo_program by blast
  obtain w where "start_wal 0 Map.empty [] = Some w"
    using start_wal_starts by blast
  with p show ?thesis
    by (intro that [of p w, OF p(1-3) _ _ refl]) (simp_all add: boot_def)
qed

theorem acked_but_dropped_witness:
  "\<exists>p s0 s e. start_program (\<lambda>_. Inl []) here empty_platform = Ret (Inr p) \<and> boot p = Some s0 \<and>
    try_fold (system_step (\<lambda>_. 7) demo_chrono demo_deps) s0 [Request logs_req, WalLoop, Deliver] = Some s \<and>
    sy_results s = [(logs_event, Inl e)]"
proof -
  obtain p w s0 where p: "start_program (\<lambda>_. Inl []) here empty_platform = Ret (Inr p)"
      "pr_registry p = new_registry" "boot p = Some s0" "pr_indexer p = demo_start"
    using demo_boot by metis
  have "reg_get (pr_registry p) n = None" for n
    by (simp add: p(2) reg_get_def new_registry_def)
  then show ?thesis
    using acked_but_dropped [OF p(1,3), where req = logs_req and dp = demo_deps and crc = "\<lambda>_. 7"
        and chr = demo_chrono] p
    by (auto simp: empty_platform_def logs_req_def simp del: try_fold.simps)
qed

lemma demo_define:
  "reg_step (Ret new_registry) (Upsert logs_definition) = Ret logs_registry"
  using logs_definition_passes
  by (simp add: upsert_def passes_check_def logs_registry_def new_registry_def logs_definition_def index_of_fields_def)

text \<open>The index is defined, one document arrives, is written and delivered.\<close>

definition demo_events_of :: "nat \<Rightarrow> string list system_event list" where
  "demo_events_of i =
     [Define (Upsert logs_definition), Request \<lparr>req_id = i, req_event = logs_event\<rparr>, WalLoop, Deliver]"

definition demo_events :: "string list system_event list" where
  "demo_events = demo_events_of 1"

lemma demo_run_of:
  obtains p s0 s off where "start_program (\<lambda>_. Inl []) here empty_platform = Ret (Inr p)" "boot p = Some s0"
    "try_fold (system_step (\<lambda>_. 7) demo_chrono demo_deps) s0 (demo_events_of i) = Some s"
    "sy_indexer s = demo_actor ([Inl ''{}''], [], None) [(''logs'', off)] 1" "sy_delivered s = 1"
    "sy_results s = [(logs_event, Inr ())]" "ap_sent (sy_appender s) = [(logs_event, off)]" "sy_purged s = []"
    "ap_replies (sy_appender s) = [(i, Acked)]" "sy_removed s = []"
proof -
  obtain p w s0 where p: "start_program (\<lambda>_. Inl []) here empty_platform = Ret (Inr p)"
      "start_wal 0 Map.empty [] = Some w" "boot p = Some s0"
      "s0 = initial new_registry w demo_start (pr_retention p)"
    using demo_boot by metis
  obtain st replies sent where b: "process_batch (\<lambda>_. 7) w [\<lparr>req_id = i, req_event = logs_event\<rparr>] = (st, replies, sent)"
    by (cases "process_batch (\<lambda>_. 7) w [\<lparr>req_id = i, req_event = logs_event\<rparr>]") auto
  have replies: "replies = [(i, Acked)]" and "\<exists>off. sent = [(logs_event, off)]"
    using b start_wal_healthy(1) [OF p(2)] by (cases rule: process_batch_cases; simp)+
  then obtain off where sent: "sent = [(logs_event, off)]" by blast
  define s where "s = \<lparr>sy_registry = logs_registry,
    sy_appender = \<lparr>ap_queue = [], ap_wal = st, ap_replies = [(i, Acked)], ap_sent = [(logs_event, off)]\<rparr>,
    sy_indexer = demo_actor ([Inl ''{}''], [], None) [(''logs'', off)] 1,
    sy_delivered = 1, sy_results = [(logs_event, Inr ())], sy_retention = pr_retention p,
    sy_purges = [], sy_purged = [], sy_removed = []\<rparr>"
  have "actor_step demo_deps (Ret demo_start) (logs_registry, Receive logs_event off) =
      Ret (demo_actor ([Inl ''{}''], [], None) [(''logs'', off)] 1)"
    by (simp add: demo_first_event) (simp add: demo_actor_def Let_def word_le_nat_alt)
  then have "try_fold (system_step (\<lambda>_. 7) demo_chrono demo_deps) s0 (demo_events_of i) = Some s"
    using demo_define b replies sent
    by (simp add: p(4) demo_events_of_def initial_def s_def deliver_def with_indexer_def demo_first_event
        del: actor_step.simps reg_step.simps)
  with p(1,3) show ?thesis
    by (rule that) (simp_all add: s_def)
qed

lemma demo_system_run:
  obtains p s0 s off where "start_program (\<lambda>_. Inl []) here empty_platform = Ret (Inr p)" "boot p = Some s0"
    "try_fold (system_step (\<lambda>_. 7) demo_chrono demo_deps) s0 demo_events = Some s"
    "sy_indexer s = demo_actor ([Inl ''{}''], [], None) [(''logs'', off)] 1" "sy_delivered s = 1"
    "sy_results s = [(logs_event, Inr ())]" "ap_sent (sy_appender s) = [(logs_event, off)]" "sy_purged s = []"
    "ap_replies (sy_appender s) = [(1, Acked)]"
  unfolding demo_events_def by (rule demo_run_of)

theorem created_is_indexed_witness:
  "\<exists>p s0 s s' wr. start_program (\<lambda>_. Inl []) here empty_platform = Ret (Inr p) \<and> boot p = Some s0 \<and>
    try_fold (system_step (\<lambda>_. 7) demo_chrono demo_deps) s0 demo_events = Some s \<and>
    durable (\<lambda>_. 7) (ap_wal (sy_appender s)) logs_event \<and>
    system_step (\<lambda>_. 7) demo_chrono demo_deps s Timer = Some s' \<and>
    map_of (ac_writers (sy_indexer s')) ''logs'' = Some wr \<and> (fst \<circ> snd) wr \<noteq> []"
proof -
  obtain p s0 s off where d: "start_program (\<lambda>_. Inl []) here empty_platform = Ret (Inr p)" "boot p = Some s0"
      "try_fold (system_step (\<lambda>_. 7) demo_chrono demo_deps) s0 demo_events = Some s" "sy_delivered s = 1"
      "sy_results s = [(logs_event, Inr ())]" "ap_sent (sy_appender s) = [(logs_event, off)]"
      "ap_replies (sy_appender s) = [(1, Acked)]"
    by (rule demo_system_run) blast
  have h: "ingest_doc_handler [] Acked ''logs'' ''{}'' = ([req_event logs_req], Inr (201, created_body ''logs''))"
    by (simp add: ingest_doc_handler_def ingest_event_def logs_req_def logs_event_def as_bytes_def)
  have "durable (\<lambda>_. 7) (ap_wal (sy_appender s)) (req_event logs_req) \<and>
    ((\<exists>e. (req_event logs_req, Inl e) \<in> set (sy_results s)) \<or>
     (\<exists>s' wr doc. system_step (\<lambda>_. 7) demo_chrono demo_deps s Timer = Some s' \<and> doc_for demo_deps (req_event logs_req) doc \<and>
        map_of (ac_writers (sy_indexer s')) ''logs'' = Some wr \<and> Inl doc \<in> set ((fst \<circ> snd) wr) \<and> fst wr = []))"
    by (rule created_is_indexed [OF demo_law demo_reliable d(1,2) _ d(3) _ _ _ h])
      (simp_all add: empty_platform_def requests_def arrivals_def demo_events_def demo_events_of_def d(4-7) logs_req_def)
  then obtain s' wr where "durable (\<lambda>_. 7) (ap_wal (sy_appender s)) logs_event"
      "system_step (\<lambda>_. 7) demo_chrono demo_deps s Timer = Some s'"
      "map_of (ac_writers (sy_indexer s')) ''logs'' = Some wr" "(fst \<circ> snd) wr \<noteq> []"
    by (fastforce simp: logs_req_def d(5) simp del: system_step.simps)
  with d(1-3) show ?thesis by blast
qed


text \<open>A policy of a week for the index of the log, and one round of retention.\<close>

definition week_logs :: IndexDefinition where
  "week_logs = logs_definition\<lparr>idx_retention := Some ''7d''\<rparr>"

definition week_logs_registry :: registry where
  "week_logs_registry = new_registry\<lparr>reg_indexes := [(''logs'', week_logs)]\<rparr>"

lemma week_logs_upsert: "reg_step (Ret new_registry) (Upsert week_logs) = Ret week_logs_registry"
  using form_7d
  by (simp add: upsert_def week_logs_registry_def new_registry_def week_logs_def logs_definition_def
      index_of_fields_def validate_def validate_schema_def is_valid_retention_outcomes default_partition_def
      continuation_def)

lemma week_logs_get: "reg_get week_logs_registry ''logs'' = Some week_logs"
    "reg_list week_logs_registry = [week_logs]"
  by (simp_all add: reg_get_def reg_list_def week_logs_registry_def new_registry_def)

lemma week_logs_lookup:
  "get_or_create_index list_api demo_index_api week_logs_registry (new_manager ''d'' 20, []) ''logs'' =
    Ret ((new_manager ''d'' 20)\<lparr>im_indexes := [(''logs'', (''d/indexes/logs'', logs_schema))]\<rparr>,
         [''d/indexes/logs''], Inr (''d/indexes/logs'', logs_schema))"
proof -
  have "build_schema list_api week_logs = build_schema list_api logs_definition"
    by (simp add: build_schema_def week_logs_def)
  then show ?thesis
    using logs_builds week_logs_get(1)
    by (simp add: get_or_create_index_def new_manager_def demo_index_api_def index_path_def path_join_def
        starts_with_def Let_def)
qed

lemma week_purge:
  "purge_old_docs demo_deps week_logs_registry demo_start ''logs'' cutoff =
    Ret (demo_actor ([Inr (''timestamp'', cutoff)], [], None) [(''logs'', 0)] 0, Inr ())"
proof -
  have "ensure_writer demo_deps week_logs_registry demo_start ''logs'' = Ret (demo_actor ([], [], None) [] 0, Inr ())"
    using week_logs_lookup
    by (simp add: ensure_writer_def demo_start_def new_actor_def hm_contains_key_def demo_deps_def
        demo_writer_api_def demo_actor_def Let_def)
  moreover have "''timestamp'' \<in> fst ` set logs_schema"
    by (simp add: logs_schema_def schema_entries_def logs_definition_def index_of_fields_def)
  ultimately show ?thesis
    using demo_cached [of week_logs_registry "([], [], None)" "[]" 0] week_logs_get(1)
    by (simp add: purge_old_docs_def week_logs_def logs_definition_def index_of_fields_def
        default_timestamp_field_def field_of_type_def demo_deps_def demo_index_api_def
        demo_writer_api_def demo_actor_def or_insert_def hm_contains_key_def)
qed


end
