(* ===== verification/Exactly_Once.thy ===== *)
theory Exactly_Once
  imports End_To_End
begin

text \<open>
  The committed index as a function of the requests: over any run of the program the writer of an
  index holds, after what the index library gave it when it was opened, one operation for each
  delivered event and each purge the task has accepted, in the order they were delivered, and
  nothing else. The events delivered are those of the acknowledged requests, in the order the
  requests arrived.
\<close>

section \<open>The operations of a writer since it was opened\<close>

text \<open>The committed operations of a writer as the index library returned it to the task.\<close>

definition opened :: "('w, 'x, 'i, 'doc, 'f, 'wr) writer_api \<Rightarrow> ('wr \<Rightarrow> 'op list) \<Rightarrow> 'op list \<Rightarrow> bool" where
  "opened wapi comm base \<longleftrightarrow>
     (\<exists>w i budget w' wr segments. wa_writer wapi w i budget = (w', Inr wr) \<and>
        base = comm (wa_set_merge_policy wapi wr segments))"

text \<open>Every writer holds what it held when opened, followed by the operations given here.\<close>

definition logged ::
    "('b, 'x, 'w, 'd, 'i, 'rd, 'doc, 'f, 'wr) deps \<Rightarrow> ('wr \<Rightarrow> 'op list) \<Rightarrow> ('wr \<Rightarrow> 'op list) \<Rightarrow>
     ('w, 'i, 'rd, 'wr) actor \<Rightarrow> (string \<Rightarrow> 'op list) \<Rightarrow> bool" where
  "logged dp pend comm a ops \<longleftrightarrow>
     (\<forall>n. case map_of (ac_writers a) n of
        None \<Rightarrow> ops n = []
      | Some wr \<Rightarrow> \<exists>base. opened (dp_writer dp) comm base \<and> comm wr @ pend wr = base @ ops n)"

definition add_op :: "string \<Rightarrow> 'op list \<Rightarrow> (string \<Rightarrow> 'op list) \<Rightarrow> string \<Rightarrow> 'op list" where
  "add_op n new ops = ops(n := ops n @ new)"

lemma add_op_Nil [simp]: "add_op n [] ops = ops"
  by (simp add: add_op_def)

lemma logged_writers: "ac_writers a' = ac_writers a \<Longrightarrow> logged dp pend comm a' = logged dp pend comm a"
  by (simp add: logged_def fun_eq_iff)

lemma logged_eq: "logged dp pend comm a ops \<Longrightarrow> ac_writers a' = ac_writers a \<Longrightarrow> logged dp pend comm a' ops"
  using logged_writers by metis

lemma logged_frame [simp]:
  "logged dp pend comm (a\<lparr>ac_docs_since_commit := c\<rparr>) = logged dp pend comm a"
  by (rule logged_writers) simp

lemma logged_update:
  assumes "logged dp pend comm a ops" "map_of (ac_writers a) n = Some wr"
    and "comm wr' @ pend wr' = (comm wr @ pend wr) @ new"
  shows "logged dp pend comm (a\<lparr>ac_writers := AList.update n wr' (ac_writers a)\<rparr>) (add_op n new ops)"
  unfolding logged_def
proof
  fix k
  have "case map_of (ac_writers a) k of
      None \<Rightarrow> ops k = []
    | Some wr \<Rightarrow> \<exists>base. opened (dp_writer dp) comm base \<and> comm wr @ pend wr = base @ ops k"
    using assms(1) by (simp add: logged_def)
  then show "case map_of (ac_writers (a\<lparr>ac_writers := AList.update n wr' (ac_writers a)\<rparr>)) k of
      None \<Rightarrow> add_op n new ops k = []
    | Some wr \<Rightarrow> \<exists>base. opened (dp_writer dp) comm base \<and> comm wr @ pend wr = base @ add_op n new ops k"
    using assms(2,3) by (cases "k = n") (auto simp: update_conv' add_op_def split: option.split)
qed

lemma ensure_writer_logged:
  assumes "writer_law (dp_writer dp) pend comm pay" "ensure_writer dp r a n = Ret (a', res)"
    and "logged dp pend comm a ops"
  shows "logged dp pend comm a' ops"
  using assms(2)
proof (cases rule: ensure_writer_cases)
  case (opened m w w1 i writer wr)
  have "pend wr = []" "opened (dp_writer dp) comm (comm wr)"
    using opened(3,4) writer_lawD(1) [OF assms(1)] unfolding opened_def by blast+
  moreover have "map_of (ac_writers a) n = None"
    using opened(1) by (simp add: hm_contains_key_def)
  moreover from this have "ops n = []"
    using assms(3) [unfolded logged_def, rule_format, of n] by simp
  ultimately have fresh: "logged dp pend comm (a\<lparr>ac_writers := AList.update n wr (ac_writers a)\<rparr>) ops"
    using assms(3) by (auto simp: logged_def update_conv')
  show ?thesis
    by (rule logged_eq [OF fresh]) (simp add: opened(5))
qed (use assms(3) in \<open>auto intro: logged_eq\<close>)

lemma process_event_logged:
  assumes "writer_law (dp_writer dp) pend comm pay" "process_event dp r a ev off = Ret (a', res)"
    and "logged dp pend comm a ops" "schemas_built dp a"
  shows "case res of
      Inl _ \<Rightarrow> logged dp pend comm a' ops
    | Inr _ \<Rightarrow> \<exists>doc. doc_for dp ev doc \<and> logged dp pend comm a' (add_op (ev_index ev) [Inl doc] ops)"
  using assms(2)
proof (cases rule: process_event_cases)
  case (rejected e)
  with assms(3) show ?thesis by simp
next
  case (no_index a1 m w x e)
  have "logged dp pend comm a' ops"
    using no_index(2) by (intro logged_eq [OF ensure_writer_logged [OF assms(1) no_index(1) assms(3)]]) auto
  with no_index(3) show ?thesis by simp
next
  case (run d m a1 man w i)
  have a1: "logged dp pend comm a1 ops"
    by (rule ensure_writer_logged [OF assms(1) run(3) assms(3)])
  have writer: "map_of (ac_writers a1) (ev_index ev) \<noteq> None"
    using run(3) by (cases rule: ensure_writer_cases) (auto simp: hm_contains_key_def update_conv')
  from run(5) show ?thesis
  proof (cases rule: add_event_cases)
    case (added s doc wr wr')
    have "logged dp pend comm (a1\<lparr>ac_writers := AList.update (ev_index ev) wr' (ac_writers a1)\<rparr>)
        (add_op (ev_index ev) [Inl doc] ops)"
      using added(3) writer_lawD(2) [OF assms(1) added(4)] by (intro logged_update [OF a1]) simp_all
    then have "logged dp pend comm a' (add_op (ev_index ev) [Inl doc] ops)"
      by (rule logged_eq) (simp add: added(5))
    moreover have "doc_for dp ev doc"
      using run(2) added(1,2) get_or_create_schemas(2) [OF run(4) ensure_writer_schemas [OF run(3) assms(4)]]
      unfolding doc_for_def by blast
    ultimately show ?thesis
      using added(6) by auto
  next
    case (refused doc wr wr' e)
    have "logged dp pend comm (a1\<lparr>ac_writers := AList.update (ev_index ev) wr' (ac_writers a1)\<rparr>)
        (add_op (ev_index ev) [] ops)"
      using refused(1) writer_lawD(2) [OF assms(1) refused(2)] by (intro logged_update [OF a1]) simp_all
    then have "logged dp pend comm a' (add_op (ev_index ev) [] ops)"
      by (rule logged_eq) (simp add: refused(3))
    with refused(4) show ?thesis by simp
  next
    case (no_doc e)
    have "logged dp pend comm a' ops"
      by (rule logged_eq [OF a1]) (simp add: no_doc(1))
    with no_doc(2) show ?thesis by simp
  qed (use writer in simp)
qed

lemma purge_logged:
  assumes "writer_law (dp_writer dp) pend comm pay" "reg_inv r" "logged dp pend comm a ops"
    and "purge_old_docs dp r a n cutoff = Ret (a', res)"
  shows "case res of
      Inl _ \<Rightarrow> logged dp pend comm a' ops
    | Inr _ \<Rightarrow> \<exists>f. timestamp_field dp n f \<and> logged dp pend comm a' (add_op n [Inr (f, cutoff)] ops)"
  using assms(4)
proof (cases rule: purge_cases)
  case (stopped a1 x m w e)
  have "logged dp pend comm a' ops"
    using stopped(3) by (intro logged_eq [OF ensure_writer_logged [OF assms(1) stopped(1) assms(3)]]) auto
  with stopped(2) show ?thesis by simp
next
  case (staged a1 m w f wr wr')
  have "logged dp pend comm (a1\<lparr>ac_writers := AList.update n wr' (ac_writers a1)\<rparr>) (add_op n [Inr (f, cutoff)] ops)"
    using staged(3) writer_lawD(3) [OF assms(1) staged(4)]
    by (intro logged_update [OF ensure_writer_logged [OF assms(1) staged(1) assms(3)]]) simp_all
  then have "logged dp pend comm a' (add_op n [Inr (f, cutoff)] ops)"
    by (rule logged_eq) (simp add: staged(5))
  moreover have "idx_name d = n" if "reg_get r n = Some d" for d
    using that assms(2) by (auto simp: reg_get_def reg_inv_def split: if_splits dest: map_of_SomeD)
  ultimately show ?thesis
    using staged(2,6) by (auto simp: timestamp_field_def)
next
  case (refused a1 m w f wr wr' e e')
  have "logged dp pend comm (a1\<lparr>ac_writers := AList.update n wr' (ac_writers a1)\<rparr>) (add_op n [] ops)"
    using refused(3) writer_lawD(3) [OF assms(1) refused(4)]
    by (intro logged_update [OF ensure_writer_logged [OF assms(1) refused(1) assms(3)]]) simp_all
  then have "logged dp pend comm a' (add_op n [] ops)"
    by (rule logged_eq) (simp add: refused(5))
  with refused(2) show ?thesis by simp
qed (use assms(3) in simp)

lemma commit_all_logged:
  assumes "writer_law (dp_writer dp) pend comm pay" "reliable (dp_writer dp)" "actor_inv a"
    and "logged dp pend comm a ops"
  shows "logged dp pend comm (commit_all dp a) ops"
  unfolding logged_def
proof
  fix n
  have "case map_of (ac_writers a) n of
      None \<Rightarrow> ops n = []
    | Some wr \<Rightarrow> \<exists>base. opened (dp_writer dp) comm base \<and> comm wr @ pend wr = base @ ops n"
    using assms(4) by (simp add: logged_def)
  then show "case map_of (ac_writers (commit_all dp a)) n of
      None \<Rightarrow> ops n = []
    | Some wr \<Rightarrow> \<exists>base. opened (dp_writer dp) comm base \<and> comm wr @ pend wr = base @ ops n"
    using assms(3) commit_one_reliable [OF assms(1,2)]
    by (cases "map_of (ac_dirty a) n")
      (auto simp: commit_all_def commit_entries_get actor_inv_def split: option.splits)
qed

section \<open>Over a run\<close>

fun documents :: "('doc + 'del) list \<Rightarrow> 'doc list" where
  "documents [] = []"
| "documents (Inl doc # ops) = doc # documents ops"
| "documents (Inr _ # ops) = documents ops"

fun deletions :: "('doc + 'del) list \<Rightarrow> 'del list" where
  "deletions [] = []"
| "deletions (Inl _ # ops) = deletions ops"
| "deletions (Inr del # ops) = del # deletions ops"

lemma documents_append [simp]: "documents (xs @ ys) = documents xs @ documents ys"
  by (induction xs rule: documents.induct) simp_all

lemma deletions_append [simp]: "deletions (xs @ ys) = deletions xs @ deletions ys"
  by (induction xs rule: deletions.induct) simp_all

text \<open>The events the task has accepted for an index, and the cutoffs of the purges.\<close>

definition accepted :: "(IngestEvent \<times> (string + unit)) list \<Rightarrow> string \<Rightarrow> IngestEvent list" where
  "accepted results n = [ev. (ev, res) \<leftarrow> results, res = Inr () \<and> ev_index ev = n]"

definition purges_done :: "((string \<times> int) \<times> (string + unit)) list \<Rightarrow> string \<Rightarrow> int list" where
  "purges_done purged n = [cutoff. ((m, cutoff), res) \<leftarrow> purged, res = Inr () \<and> m = n]"

lemma accepted_snoc [simp]:
  "accepted (results @ [(ev, Inl e)]) n = accepted results n"
  "accepted (results @ [(ev, Inr u)]) n = accepted results n @ (if ev_index ev = n then [ev] else [])"
  by (simp_all add: accepted_def)

lemma purges_done_snoc [simp]:
  "purges_done (purged @ [((m, cutoff), Inl e)]) n = purges_done purged n"
  "purges_done (purged @ [((m, cutoff), Inr u)]) n = purges_done purged n @ (if m = n then [cutoff] else [])"
  by (simp_all add: purges_done_def)

text \<open>
  The operations of the writer of an index are those of the accepted events and purges, one for
  each and in their order.
\<close>

definition answers_for ::
    "('b, 'x, 'w, 'd, 'i, 'rd, 'doc, 'f, 'wr) deps \<Rightarrow> ('w, 'i, 'rd, 'wr) system \<Rightarrow> string \<Rightarrow>
     ('doc + 'f \<times> int) list \<Rightarrow> bool" where
  "answers_for dp s n ops \<longleftrightarrow>
     list_all2 (doc_for dp) (accepted (sy_results s) n) (documents ops) \<and>
     list_all2 (\<lambda>cutoff (f, t). t = cutoff \<and> timestamp_field dp n f) (purges_done (sy_purged s) n) (deletions ops)"

definition once_inv ::
    "('b, 'x, 'w, 'd, 'i, 'rd, 'doc, 'f, 'wr) deps \<Rightarrow> ('wr \<Rightarrow> ('doc + 'f \<times> int) list) \<Rightarrow>
     ('wr \<Rightarrow> ('doc + 'f \<times> int) list) \<Rightarrow> ('w, 'i, 'rd, 'wr) system \<Rightarrow> bool" where
  "once_inv dp pend comm s \<longleftrightarrow>
     (\<exists>ops. logged dp pend comm (sy_indexer s) ops \<and> (\<forall>n. answers_for dp s n (ops n)))"

lemma answers_for_frame [simp]:
  "answers_for dp (s\<lparr>sy_indexer := a\<rparr>) n ops = answers_for dp s n ops"
  "answers_for dp (s\<lparr>sy_appender := w\<rparr>) n ops = answers_for dp s n ops"
  "answers_for dp (s\<lparr>sy_registry := r\<rparr>) n ops = answers_for dp s n ops"
  "answers_for dp (s\<lparr>sy_purges := ps, sy_removed := xs\<rparr>) n ops = answers_for dp s n ops"
  by (simp_all add: answers_for_def)

lemma answers_for_event:
  "doc_for dp ev doc \<Longrightarrow> (\<And>n. answers_for dp s n (ops n)) \<Longrightarrow>
   answers_for dp (s\<lparr>sy_delivered := k, sy_results := sy_results s @ [(ev, Inr u)]\<rparr>) n
     (add_op (ev_index ev) [Inl doc] ops n)"
  by (auto simp: answers_for_def add_op_def intro: list_all2_appendI)

lemma answers_for_purge:
  "timestamp_field dp m f \<Longrightarrow> (\<And>n. answers_for dp s n (ops n)) \<Longrightarrow>
   answers_for dp (s\<lparr>sy_purges := ps, sy_purged := sy_purged s @ [((m, cutoff), Inr u)]\<rparr>) n
     (add_op m [Inr (f, cutoff)] ops n)"
  by (auto simp: answers_for_def add_op_def intro: list_all2_appendI)

lemma receive_logged:
  assumes "writer_law (dp_writer dp) pend comm pay" "reliable (dp_writer dp)" "actor_inv a"
    and "process_event dp r a ev off = Ret (a1, res)" "logged dp pend comm a1 ops"
    and "actor_step dp (Ret a) (r, Receive ev off) = Ret a'"
  shows "logged dp pend comm a' ops"
proof -
  define a2 where "a2 = (case res of Inl _ \<Rightarrow> a1
      | Inr _ \<Rightarrow> a1\<lparr>ac_docs_since_commit := ac_docs_since_commit a1 + 1\<rparr>)"
  have "actor_inv a2" "logged dp pend comm a2 ops"
    using process_event_keeps [OF assms(4,3)] assms(5) by (auto simp: a2_def split: sum.split)
  moreover from this have "logged dp pend comm (commit_all dp a2) ops"
    using commit_all_logged [OF assms(1,2)] by blast
  moreover have "a' = commit_all dp a2\<lparr>ac_docs_since_commit := 0\<rparr> \<or> a' = a2"
    using assms(4,6) by (auto simp: Let_def a2_def split: if_splits)
  ultimately show ?thesis by auto
qed

lemma deliver_once:
  assumes "writer_law (dp_writer dp) pend comm pay" "reliable (dp_writer dp)" "actor_inv (sy_indexer s)"
    and "once_inv dp pend comm s" "deliver dp s = Some s'" "schemas_built dp (sy_indexer s)"
  shows "once_inv dp pend comm s'"
proof (cases "sy_delivered s < length (ap_sent (sy_appender s))")
  case False
  with assms(4,5) show ?thesis by (simp add: deliver_def)
next
  case True
  obtain ev off where e: "ap_sent (sy_appender s) ! sy_delivered s = (ev, off)" by fastforce
  obtain a1 res a' where p: "process_event dp (sy_registry s) (sy_indexer s) ev off = Ret (a1, res)"
      and a': "actor_step dp (Ret (sy_indexer s)) (sy_registry s, Receive ev off) = Ret a'"
      and s': "s' = s\<lparr>sy_delivered := Suc (sy_delivered s), sy_results := sy_results s @ [(ev, res)],
        sy_indexer := a'\<rparr>"
    using assms(5) True e by (auto simp: deliver_def with_indexer_Some split: run.splits prod.splits simp del: actor_step.simps)
  obtain ops where ops: "logged dp pend comm (sy_indexer s) ops" "\<And>n. answers_for dp s n (ops n)"
    using assms(4) by (auto simp: once_inv_def)
  note received = receive_logged [OF assms(1-3) p _ a']
  note logged_event = process_event_logged [OF assms(1) p ops(1) assms(6)]
  show ?thesis
  proof (cases res)
    case (Inl err)
    then have "logged dp pend comm a' ops"
      using logged_event received by simp
    with ops(2) Inl show ?thesis
      by (auto simp: once_inv_def s' answers_for_def intro!: exI [of _ ops])
  next
    case (Inr u)
    then obtain doc where doc: "doc_for dp ev doc" "logged dp pend comm a1 (add_op (ev_index ev) [Inl doc] ops)"
      using logged_event by auto
    with received have "logged dp pend comm a' (add_op (ev_index ev) [Inl doc] ops)" by blast
    moreover have "answers_for dp s' n (add_op (ev_index ev) [Inl doc] ops n)" for n
      using answers_for_event [OF doc(1) ops(2), where k = "Suc (sy_delivered s)" and u = u and n = n] by (simp add: s' Inr)
    ultimately show ?thesis
      unfolding once_inv_def s' by fastforce
  qed
qed

lemma deliver_purge_once:
  assumes "writer_law (dp_writer dp) pend comm pay" "reg_inv (sy_registry s)"
    and "once_inv dp pend comm s" "deliver_purge dp s = Some s'"
  shows "once_inv dp pend comm s'"
proof (cases "sy_purges s")
  case Nil
  with assms(3,4) show ?thesis by (simp add: deliver_purge_def)
next
  case (Cons cmd purges)
  obtain n cutoff where cmd: "cmd = (n, cutoff)" by (cases cmd)
  obtain a' res where p: "purge_old_docs dp (sy_registry s) (sy_indexer s) n cutoff = Ret (a', res)"
      and s': "s' = s\<lparr>sy_purges := purges, sy_purged := sy_purged s @ [((n, cutoff), res)], sy_indexer := a'\<rparr>"
    using assms(4) Cons cmd by (auto simp: deliver_purge_def with_indexer_Some split: run.splits prod.splits)
  obtain ops where ops: "logged dp pend comm (sy_indexer s) ops" "\<And>n. answers_for dp s n (ops n)"
    using assms(3) by (auto simp: once_inv_def)
  note purged = purge_logged [OF assms(1,2) ops(1) p]
  show ?thesis
  proof (cases res)
    case (Inl err)
    with purged ops(2) show ?thesis
      by (auto simp: once_inv_def s' answers_for_def intro!: exI [of _ ops])
  next
    case (Inr u)
    with purged obtain f where f: "timestamp_field dp n f" "logged dp pend comm a' (add_op n [Inr (f, cutoff)] ops)"
      by auto
    have "answers_for dp s' k (add_op n [Inr (f, cutoff)] ops k)" for k
      using answers_for_purge [OF f(1) ops(2), where ps = purges and cutoff = cutoff and u = u and n = k] by (simp add: s' Inr)
    with f(2) show ?thesis
      unfolding once_inv_def s' by fastforce
  qed
qed

lemma once_inv_eq:
  "once_inv dp pend comm s \<Longrightarrow> sy_indexer s' = sy_indexer s \<Longrightarrow> sy_results s' = sy_results s \<Longrightarrow>
   sy_purged s' = sy_purged s \<Longrightarrow> once_inv dp pend comm s'"
  by (simp add: once_inv_def answers_for_def)

lemma once_inv_manager:
  assumes "once_inv dp pend comm s"
  shows "once_inv dp pend comm (s\<lparr>sy_indexer := (sy_indexer s)\<lparr>ac_manager := m, ac_world := w\<rparr>\<rparr>)"
proof -
  have "logged dp pend comm ((sy_indexer s)\<lparr>ac_manager := m, ac_world := w\<rparr>) = logged dp pend comm (sy_indexer s)"
    by (rule logged_writers) simp
  with assms show ?thesis by (simp add: once_inv_def)
qed

lemma once_inv_step:
  assumes "writer_law (dp_writer dp) pend comm pay" "reliable (dp_writer dp)"
    and "system_inv dp pend comm pay s" "once_inv dp pend comm s" "system_step crc chr dp s e = Some s'"
  shows "once_inv dp pend comm s'"
proof -
  have inv: "actor_inv (sy_indexer s)" "reg_inv (sy_registry s)" "schemas_built dp (sy_indexer s)"
    using assms(3) by (simp_all add: system_inv_def actor_ok_def)
  show ?thesis
  proof (cases e)
    case Deliver
    with assms(5) show ?thesis by (intro deliver_once [OF assms(1,2) inv(1) assms(4) _ inv(3)]) simp
  next
    case DeliverPurge
    with assms(5) show ?thesis by (intro deliver_purge_once [OF assms(1) inv(2) assms(4)]) simp
  next
    case Timer
    obtain ops where ops: "logged dp pend comm (sy_indexer s) ops" "\<And>n. answers_for dp s n (ops n)"
      using assms(4) by (auto simp: once_inv_def)
    have "logged dp pend comm (commit_all dp (sy_indexer s)) ops"
      using commit_all_logged [OF assms(1,2) inv(1) ops(1)] .
    with ops assms(5) Timer show ?thesis
      by (auto simp: once_inv_def with_indexer_Some intro!: exI [of _ ops] split: if_splits)
  next
    case (OpenReader n)
    with assms(4,5) show ?thesis
      by (auto simp: open_reader_def intro: once_inv_manager split: run.splits)
  next
    case (FilesChange f)
    have "once_inv dp pend comm (s\<lparr>sy_indexer :=
        (sy_indexer s)\<lparr>ac_manager := ac_manager (sy_indexer s), ac_world := f (ac_world (sy_indexer s))\<rparr>\<rparr>)"
      by (rule once_inv_manager [OF assms(4)])
    with FilesChange assms(5) show ?thesis by simp
  qed (use assms(4,5) in \<open>auto simp: retention_round_def intro: once_inv_eq simp del: reg_step.simps split: run.splits\<close>)
qed

definition once_ok ::
    "('b, 'x, 'w, 'd, 'i, 'rd, 'doc, 'f, 'wr) deps \<Rightarrow> ('wr \<Rightarrow> ('doc + 'f \<times> int) list) \<Rightarrow>
     ('wr \<Rightarrow> ('doc + 'f \<times> int) list) \<Rightarrow> ('wr \<Rightarrow> string option) \<Rightarrow>
     ('w, 'i, 'rd, 'wr) system \<Rightarrow> bool" where
  "once_ok dp pend comm pay s \<longleftrightarrow>
     (writer_law (dp_writer dp) pend comm pay \<and> reliable (dp_writer dp) \<longrightarrow>
        system_inv dp pend comm pay s \<and> once_inv dp pend comm s)"

interpretation once: ending_machine "system_step crc chr dp" "once_ok dp pend comm pay"
    for crc chr dp pend comm pay
  by unfold_locales (auto simp: once_ok_def intro: system_step_inv once_inv_step)

lemma boot_once:
  assumes "start_program yaml env pf = Ret (Inr p)" "boot p = Some s"
  shows "once_inv dp pend comm s"
  using start_program_parts [OF assms(1)] assms(2)
  by (auto simp: boot_def initial_def once_inv_def logged_def answers_for_def accepted_def purges_done_def
      intro!: exI [of _ "\<lambda>_. []"])

section \<open>The committed index\<close>

lemma committed_once:
  assumes "writer_law (dp_writer dp) pend comm pay" "reliable (dp_writer dp)"
    and "start_program yaml env pf = Ret (Inr p)" "boot p = Some s0"
    and "try_fold (system_step crc chr dp) s0 es = Some s"
    and "sy_delivered s = length (ap_sent (sy_appender s))"
  shows "map fst (sy_results s) = acked_events (requests es) (ap_replies (sy_appender s)) \<and>
    (\<exists>s'. system_step crc chr dp s Timer = Some s' \<and>
      (\<forall>n. case map_of (ac_writers (sy_indexer s')) n of
         None \<Rightarrow> answers_for dp s n []
       | Some wr \<Rightarrow> pend wr = [] \<and>
           (\<exists>base ops. opened (dp_writer dp) comm base \<and> comm wr = base @ ops \<and> answers_for dp s n ops)))"
proof
  obtain w where w: "sy_appender s0 = \<lparr>ap_queue = [], ap_wal = w, ap_replies = [], ap_sent = []\<rparr>"
    using assms(4) by (auto simp: boot_def initial_def)
  have "once_ok dp pend comm pay s0"
    by (simp add: once_ok_def boot_inv [OF assms(3,4)] boot_once [OF assms(3,4)])
  then have "once_ok dp pend comm pay s"
    using assms(5) by (rule once.run_inv)
  then have inv: "system_inv dp pend comm pay s" "once_inv dp pend comm s"
    using assms(1,2) by (simp_all add: once_ok_def)
  have "map fst (ap_sent (sy_appender s)) = acked_events (requests es) (ap_replies (sy_appender s))"
    using sent_acked [OF system_appender [OF assms(5), unfolded w]] by (simp add: requests_def)
  then show "map fst (sy_results s) = acked_events (requests es) (ap_replies (sy_appender s))"
    using inv(1) assms(6) by (simp add: system_inv_def)
  have ok: "actor_inv (sy_indexer s)" "tidy pend (sy_indexer s)"
    using inv(1) assms(1,2) by (auto simp: system_inv_def actor_ok_def)
  obtain a' where a': "actor_step dp (Ret (sy_indexer s)) (sy_registry s, Tick) = Ret a'"
      "\<And>n wr. map_of (ac_writers (sy_indexer s)) n = Some wr \<Longrightarrow>
         \<exists>wr'. map_of (ac_writers a') n = Some wr' \<and> pend wr' = [] \<and> comm wr' = comm wr @ pend wr"
    using tick_outcome [OF assms(1,2) ok, of "sy_registry s"] by metis
  have none: "map_of (ac_writers a') n = None" if "map_of (ac_writers (sy_indexer s)) n = None" for n
    using a'(1) that ok(1)
    by (auto simp: commit_all_def commit_entries_get actor_inv_def split: if_splits)
  obtain ops where ops: "logged dp pend comm (sy_indexer s) ops" "\<And>n. answers_for dp s n (ops n)"
    using inv(2) by (auto simp: once_inv_def)
  have "case map_of (ac_writers a') n of
      None \<Rightarrow> answers_for dp s n []
    | Some wr \<Rightarrow> pend wr = [] \<and>
        (\<exists>base ops. opened (dp_writer dp) comm base \<and> comm wr = base @ ops \<and> answers_for dp s n ops)" for n
  proof (cases "map_of (ac_writers (sy_indexer s)) n")
    case None
    then have "ops n = []"
      using ops(1) [unfolded logged_def, rule_format, of n] by simp
    with none [OF None] ops(2) [of n] show ?thesis by simp
  next
    case (Some wr)
    then obtain base where "opened (dp_writer dp) comm base" "comm wr @ pend wr = base @ ops n"
      using ops(1) [unfolded logged_def, rule_format, of n] by auto
    moreover obtain wr' where "map_of (ac_writers a') n = Some wr'" "pend wr' = []" "comm wr' = comm wr @ pend wr"
      using a'(2) [OF Some] by blast
    ultimately show ?thesis
      using ops(2) [of n] by (simp, metis)
  qed
  moreover have "system_step crc chr dp s Timer = Some (s\<lparr>sy_indexer := a'\<rparr>)"
    using a'(1) by (simp add: with_indexer_def del: actor_step.simps)
  ultimately show "\<exists>s'. system_step crc chr dp s Timer = Some s' \<and>
      (\<forall>n. case map_of (ac_writers (sy_indexer s')) n of
         None \<Rightarrow> answers_for dp s n []
       | Some wr \<Rightarrow> pend wr = [] \<and>
           (\<exists>base ops. opened (dp_writer dp) comm base \<and> comm wr = base @ ops \<and> answers_for dp s n ops))"
    by auto
qed



end
