(* ===== verification/Server_Run.thy ===== *)
theory Server_Run
  imports Server Exactly_Once
begin

text \<open>
  Every run of the server is a run of the system: what each endpoint does to the state it shares with
  the tasks is a short series of system events. So what is proved of the system holds for the
  clients: an answer 201 means a durable document that gets indexed, and every request in progress
  can be answered.
\<close>

section \<open>What the endpoints do to the system\<close>

lemma fs_registry:
  "fs_pop st = (oc, st') \<Longrightarrow> as_registry st' = as_registry st"
  "fs_create_dir_all st = (st', ok) \<Longrightarrow> as_registry st' = as_registry st"
  "fs_write path content st = (st', ok) \<Longrightarrow> as_registry st' = as_registry st"
  "as_registry (fs_remove_file path st) = as_registry st"
  "as_registry (fs_remove_dir_all dir st) = as_registry st"
  by (auto simp: fs_pop_def fs_create_dir_all_def fs_write_def fs_remove_file_def fs_remove_dir_all_def
      split: list.splits prod.splits fs_outcome.splits)

lemma create_registry:
  assumes "create_index_handler cd env st index payload = Ret (st', status, body)"
  shows "as_registry st' = as_registry st \<or>
    reg_step (Ret (as_registry st)) (Upsert (payload\<lparr>idx_name := index\<rparr>)) = Ret (as_registry st')"
proof (cases "is_management_enabled env")
  case False
  with assms show ?thesis by (simp add: create_index_handler_def)
next
  case True
  define d where "d = (if idx_name payload \<noteq> index then payload\<lparr>idx_name := index\<rparr> else payload)"
  have d: "d = payload\<lparr>idx_name := index\<rparr>"
    by (cases payload) (simp add: d_def)
  obtain reg res where up: "upsert (as_registry st) d = Ret (reg, res)"
    using assms True by (auto simp: create_index_handler_def d_def run_bind_case Let_def split: run.splits)
  then have step: "reg_step (Ret (as_registry st)) (Upsert (payload\<lparr>idx_name := index\<rparr>)) = Ret reg"
    by (simp add: d)
  show ?thesis
  proof (cases res)
    case (Inl e)
    with assms True up show ?thesis
      by (cases e) (simp_all add: create_index_handler_def d_def)
  next
    case (Inr u)
    with assms True up have "as_registry st' = reg"
      by (auto simp: create_index_handler_def d_def Let_def dest!: fs_registry(2,3)
          split: prod.splits bool.splits sum.splits)
    with step show ?thesis by blast
  qed
qed

lemma delete_registry:
  assumes "delete_index_handler cd env st index = (st', status, body)"
  shows "status = 200 \<Longrightarrow> reg_step (Ret (as_registry st)) (Remove index) = Ret (as_registry st')"
    and "status \<noteq> 200 \<Longrightarrow> as_registry st' = as_registry st"
  using assms
  by (auto simp: delete_index_handler_def disabled_response_def Let_def fs_registry
      split: if_splits prod.splits sum.splits RegistryError.splits)

definition quiet_run where
  "quiet_run crc chr dp s s' \<longleftrightarrow>
     (\<exists>ts. requests ts = [] \<and> try_fold (system_step crc chr dp) s ts = Some s')"

lemma requests_simps [simp]:
  "requests [] = []"
  "requests (a @ b) = requests a @ requests b"
  "requests (Request req # ts) = req # requests ts"
  "background e \<Longrightarrow> requests (e # ts) = requests ts"
  "requests (OpenReader n # ts) = requests ts"
  "requests (Define op # ts) = requests ts"
proof -
  have "wal_events (a @ b) = wal_events a @ wal_events b"
    by (induction a rule: wal_events.induct) simp_all
  then show "requests (a @ b) = requests a @ requests b"
    by (simp add: requests_def arrivals_def)
  show "background e \<Longrightarrow> requests (e # ts) = requests ts"
    by (cases e) (simp_all add: requests_def arrivals_def)
qed (simp_all add: requests_def arrivals_def)

lemma quiet_refl [simp]: "quiet_run crc chr dp s s"
  unfolding quiet_run_def by (rule exI [of _ "[]"]) simp

lemma quiet_step:
  assumes "system_step crc chr dp s e = Some s1" "quiet_run crc chr dp s1 s'" "requests [e] = []"
  shows "quiet_run crc chr dp s s'"
proof -
  obtain ts where ts: "requests ts = []" "try_fold (system_step crc chr dp) s1 ts = Some s'"
    using assms(2) by (auto simp: quiet_run_def)
  have "requests ([e] @ ts) = []"
    unfolding requests_simps(2) using assms(3) ts(1) by simp
  moreover have "try_fold (system_step crc chr dp) s ([e] @ ts) = Some s'"
    using assms(1) ts(2) by simp
  ultimately show ?thesis unfolding quiet_run_def by blast
qed

lemma quiet_one: "system_step crc chr dp s e = Some s' \<Longrightarrow> requests [e] = [] \<Longrightarrow> quiet_run crc chr dp s s'"
  by (rule quiet_step [where ?s1.0 = s']) simp_all

text \<open>The tasks see another manager and other files.\<close>

definition with_manager where
  "with_manager m w s = s\<lparr>sy_indexer := (sy_indexer s)\<lparr>ac_manager := m, ac_world := w\<rparr>\<rparr>"

lemma with_manager_simps [simp]:
  "sy_registry (with_manager m w s) = sy_registry s"
  "ac_manager (sy_indexer (with_manager m w s)) = m"
  "ac_world (sy_indexer (with_manager m w s)) = w"
  "with_manager m w (with_manager m' w' s) = with_manager m w s"
  "ac_manager (sy_indexer s) = m \<and> ac_world (sy_indexer s) = w \<Longrightarrow> with_manager m w s = s"
  by (auto simp: with_manager_def)

lemma get_reader_quiet:
  assumes "get_reader (dp_schema dp) (dp_index dp) (sy_registry s)
      (ac_manager (sy_indexer s), ac_world (sy_indexer s)) n = Ret (m, w, res)"
    and "quiet_run crc chr dp (with_manager m w s) s'"
  shows "quiet_run crc chr dp s s'"
  by (rule quiet_step [where e = "OpenReader n" and ?s1.0 = "with_manager m w s"])
    (use assms in \<open>simp_all add: open_reader_def with_manager_def\<close>)

lemma stats_loop_quiet:
  "stats_loop (dp_schema dp) (dp_index dp) api (sy_registry s) data_dir
      (ac_manager (sy_indexer s), ac_world (sy_indexer s)) acc defs = Ret (m, w, acc') \<Longrightarrow>
   quiet_run crc chr dp s (with_manager m w s)"
proof (induction defs arbitrary: s acc)
  case (Cons d defs)
  obtain a b c where acc: "acc = (a, b, c)" by (cases acc)
  obtain m1 w1 res where g: "get_reader (dp_schema dp) (dp_index dp) (sy_registry s)
      (ac_manager (sy_indexer s), ac_world (sy_indexer s)) (idx_name d) = Ret (m1, w1, res)"
    using Cons.prems by (auto simp: acc run_bind_case Let_def split: run.splits)
  from Cons.prems g obtain acc1 where
      "stats_loop (dp_schema dp) (dp_index dp) api (sy_registry s) data_dir (m1, w1) acc1 defs = Ret (m, w, acc')"
    by (cases res) (auto simp: acc Let_def)
  with Cons.IH [of "with_manager m1 w1 s" acc1]
  have "quiet_run crc chr dp (with_manager m1 w1 s) (with_manager m w s)" by simp
  with g show ?case by (rule get_reader_quiet)
qed simp

lemma cat_rows_quiet:
  "cat_rows (dp_schema dp) (dp_index dp) api (sy_registry s) data_dir
      (ac_manager (sy_indexer s), ac_world (sy_indexer s)) defs = Ret (m, w, rows) \<Longrightarrow>
   quiet_run crc chr dp s (with_manager m w s)"
proof (induction defs arbitrary: s rows)
  case (Cons d defs)
  obtain m1 w1 res where g: "get_reader (dp_schema dp) (dp_index dp) (sy_registry s)
      (ac_manager (sy_indexer s), ac_world (sy_indexer s)) (idx_name d) = Ret (m1, w1, res)"
    using Cons.prems by (auto simp: run_bind_case Let_def split: run.splits)
  from Cons.prems g obtain rows1 where
      "cat_rows (dp_schema dp) (dp_index dp) api (sy_registry s) data_dir (m1, w1) defs = Ret (m, w, rows1)"
    by (auto simp: Let_def run_bind_case split: run.splits)
  with Cons.IH [of "with_manager m1 w1 s" rows1]
  have "quiet_run crc chr dp (with_manager m1 w1 s) (with_manager m w s)" by simp
  with g show ?case by (rule get_reader_quiet)
qed simp

section \<open>What an endpoint does to the server\<close>

text \<open>The question an ingestion request asks, if it reaches its handler.\<close>

definition concerns ::
    "('w, 'g, 'rd, 'sv, 'q, 'ia, 'ar, 'addr, 'sc) site \<Rightarrow> http_request \<Rightarrow> endpoint \<Rightarrow> string option \<Rightarrow>
     job_kind \<Rightarrow> bool" where
  "concerns su req e cap kind \<longleftrightarrow>
     (case kind of
        DocJob index body \<Rightarrow> e = IngestDocHandler \<and> map_option (su_path su) cap = Some (Inr index) \<and>
          su_text su req = Inr body
      | BulkJob body \<Rightarrow> e = BulkHandler \<and> su_text su req = Inr body)"

definition touches where
  "touches su crc chr dp s s' new_jobs \<longleftrightarrow>
     quiet_run crc chr dp (sv_system s) (sv_system s') \<and> sv_next s' = sv_next s \<and> sv_cell s' = sv_cell s \<and>
     sv_answers s' = sv_answers s \<and> sv_jobs s' = sv_jobs s @ map (\<lambda>(req, kind). new_job su req kind) new_jobs"

lemma touches_refl [simp]: "touches su crc chr dp s s []"
  by (simp add: touches_def)

lemma touches_manager:
  "quiet_run crc chr dp (sv_system s) (with_manager m w (sv_system s)) \<Longrightarrow>
   touches su crc chr dp s (set_manager m w s) []"
  by (simp add: touches_def set_manager_def with_manager_def)

lemma serve_search_touches:
  assumes "serve_search su dp took index params body s = (Some s', out)"
  shows "touches su crc chr dp s s' [] \<and> (\<exists>resp. out = Some (SearchReply resp))"
proof -
  obtain m w resp where h: "index_search_handler (dp_schema dp) (dp_index dp) (su_search su) took
      (sy_registry (sv_system s)) (manager_of s) index params body = Ret (m, w, resp)"
      and s': "s' = set_manager m w s" "out = Some (SearchReply resp)"
    using assms by (auto simp: serve_search_def split: run.splits)
  obtain res where "get_reader (dp_schema dp) (dp_index dp) (sy_registry (sv_system s)) (manager_of s) index = Ret (m, w, res)"
    using h by (auto simp: index_search_handler_def run_bind_case Let_def split: run.splits sum.splits)
  then have "quiet_run crc chr dp (sv_system s) (with_manager m w (sv_system s))"
    unfolding manager_of_def by (rule get_reader_quiet) simp
  with s' show ?thesis by (auto intro: touches_manager)
qed

lemma serve_stats_touches:
  assumes "serve_stats su dp s = (Some s', out)"
  shows "touches su crc chr dp s s' [] \<and> (\<exists>resp. out = Some (StatsReply resp))"
proof -
  obtain m w resp where h: "stats_handler (dp_schema dp) (dp_index dp) (su_stats su) (sy_registry (sv_system s))
      (su_data_dir su) (manager_of s) = Ret (m, w, resp)"
      and s': "s' = set_manager m w s" "out = Some (StatsReply resp)"
    using assms by (auto simp: serve_stats_def split: run.splits)
  obtain acc where "stats_loop (dp_schema dp) (dp_index dp) (su_stats su) (sy_registry (sv_system s)) (su_data_dir su)
      (manager_of s) (0, 0, 0) (reg_list (sy_registry (sv_system s))) = Ret (m, w, acc)"
    using h by (auto simp: stats_handler_def run_simps simp del: run_bind.simps)
  then have "quiet_run crc chr dp (sv_system s) (with_manager m w (sv_system s))"
    unfolding manager_of_def by (rule stats_loop_quiet)
  with s' show ?thesis by (auto intro: touches_manager)
qed

lemma serve_cat_touches:
  assumes "serve_cat su dp s = (Some s', out)"
  shows "touches su crc chr dp s s' [] \<and> (\<exists>rows. out = Some (CatReply rows))"
proof -
  obtain m w rows where h: "cat_indexes_handler (dp_schema dp) (dp_index dp) (su_stats su) (sy_registry (sv_system s))
      (su_data_dir su) (manager_of s) = Ret (m, w, rows)"
      and s': "s' = set_manager m w s" "out = Some (CatReply rows)"
    using assms by (auto simp: serve_cat_def split: run.splits)
  have "quiet_run crc chr dp (sv_system s) (with_manager m w (sv_system s))"
  proof (cases "reg_list (sy_registry (sv_system s)) = []")
    case True
    with h show ?thesis by (auto simp: cat_indexes_handler_def manager_of_def)
  next
    case False
    with h show ?thesis
      unfolding cat_indexes_handler_def manager_of_def by (auto intro: cat_rows_quiet)
  qed
  with s' show ?thesis by (auto intro: touches_manager)
qed

lemma touches_api:
  "quiet_run crc chr dp (sv_system s) ((sv_system s)\<lparr>sy_registry := as_registry st\<rparr>) \<Longrightarrow>
   touches su crc chr dp s (set_api st s) []"
  by (simp add: touches_def set_api_def)

lemma registry_quiet:
  assumes "r = sy_registry s \<or> (\<exists>op. reg_step (Ret (sy_registry s)) op = Ret r)"
  shows "quiet_run crc chr dp s (s\<lparr>sy_registry := r\<rparr>)"
proof (cases "r = sy_registry s")
  case False
  with assms obtain op where "reg_step (Ret (sy_registry s)) op = Ret r" by blast
  then have "system_step crc chr dp s (Define op) = Some (s\<lparr>sy_registry := r\<rparr>)"
    by (simp del: reg_step.simps)
  then show ?thesis
    by (rule quiet_one) (simp add: requests_def arrivals_def)
qed simp

lemma serve_create_touches:
  assumes "serve_create su index payload s = (Some s', out)"
  shows "touches su crc chr dp s s' [] \<and> (\<exists>status body. out = Some (ManageReply status body))"
proof -
  obtain st status body where h: "create_index_handler (su_codec su) (su_management su) (api_of (su_data_dir su) s)
      index payload = Ret (st, status, body)" and s': "s' = set_api st s" "out = Some (ManageReply status body)"
    using assms by (auto simp: serve_create_def split: run.splits)
  have "as_registry st = sy_registry (sv_system s) \<or>
      (\<exists>op. reg_step (Ret (sy_registry (sv_system s))) op = Ret (as_registry st))"
    using create_registry [OF h] unfolding api_of_def by (auto simp del: reg_step.simps)
  then have "touches su crc chr dp s (set_api st s) []"
    by (intro touches_api registry_quiet)
  with s' show ?thesis by blast
qed

lemma serve_delete_touches:
  assumes "serve_delete su index s = (Some s', out)"
  shows "touches su crc chr dp s s' [] \<and> (\<exists>status body. out = Some (ManageReply status body))"
proof -
  obtain st status body where h: "delete_index_handler (su_codec su) (su_management su) (api_of (su_data_dir su) s)
      index = (st, status, body)"
    by (metis prod_cases3)
  let ?s1 = "set_api st s"
  have out: "out = Some (ManageReply status body)"
    using assms h by (simp add: serve_delete_def Let_def)
  show ?thesis
  proof (cases "status = 200")
    case False
    then have "s' = ?s1"
      using assms h by (simp add: serve_delete_def Let_def)
    moreover have "touches su crc chr dp s ?s1 []"
      using delete_registry(2) [OF h False] by (intro touches_api registry_quiet) (simp add: api_of_def)
    ultimately show ?thesis using out by blast
  next
    case True
    let ?sys = "sv_system ?s1"
    have s': "s' = set_manager (fst (manager_of ?s1)) (su_wipe su index (snd (manager_of ?s1))) ?s1"
      using assms h True by (simp add: serve_delete_def Let_def)
    have "system_step crc chr dp (sv_system s) (Define (Remove index)) = Some ?sys"
      using delete_registry(1) [OF h True] by (simp add: api_of_def set_api_def del: reg_step.simps)
    moreover have "system_step crc chr dp ?sys (FilesChange (su_wipe su index)) = Some (sv_system s')"
      by (simp add: s' set_manager_def manager_of_def)
    then have "quiet_run crc chr dp ?sys (sv_system s')"
      by (rule quiet_one) (simp add: requests_def arrivals_def)
    ultimately have "quiet_run crc chr dp (sv_system s) (sv_system s')"
      by (rule quiet_step) (simp add: requests_def arrivals_def)
    with out show ?thesis
      by (simp add: touches_def s' set_manager_def set_api_def)
  qed
qed

lemma with_path_cases:
  assumes "with_path decode cap s f = (Some s', out)"
  obtains (rejected) status where "s' = s" "out = Some (Rejected status)"
    | (run) index where "map_option decode cap = Some (Inr index)" "f index = (Some s', out)"
proof (cases cap)
  case None
  with assms have "s' = s" "out = Some (Rejected 500)" by (simp_all add: with_path_def)
  then show ?thesis by (rule rejected)
next
  case (Some raw)
  show ?thesis
  proof (cases "decode raw")
    case (Inl status)
    with Some assms have "s' = s" "out = Some (Rejected status)" by (simp_all add: with_path_def)
    then show ?thesis by (rule rejected)
  next
    case (Inr index)
    with Some assms show ?thesis by (intro run) (simp_all add: with_path_def)
  qed
qed

lemma with_extracted_cases:
  assumes "with_extracted x s f = (Some s', out)"
  obtains (rejected) status where "s' = s" "out = Some (Rejected status)"
    | (run) v where "x = Inr v" "f v = (Some s', out)"
proof (cases x)
  case (Inl status)
  with assms have "s' = s" "out = Some (Rejected status)" by (simp_all add: with_extracted_def)
  then show ?thesis by (rule rejected)
next
  case (Inr v)
  with assms show ?thesis by (intro run) (simp_all add: with_extracted_def)
qed

text \<open>What a handler may do: it leaves the requests in progress alone, or adds the one it was called for.\<close>

definition fits where
  "fits su crc chr dp req e cap s s' out \<longleftrightarrow>
     (\<exists>new. touches su crc chr dp s s' new \<and>
       (new = [] \<or> (\<exists>kind. new = [(req, kind)] \<and> concerns su req e cap kind))) \<and>
     (\<forall>resp. out \<noteq> Some (IngestReply resp))"

lemma fits_quiet: "touches su crc chr dp s s' [] \<Longrightarrow> (\<And>resp. out \<noteq> Some (IngestReply resp)) \<Longrightarrow>
    fits su crc chr dp req e cap s s' out"
  unfolding fits_def by blast

lemma fits_job:
  "add_job su req kind s = (Some s', out) \<Longrightarrow> concerns su req e cap kind \<Longrightarrow>
   fits su crc chr dp req e cap s s' out"
  unfolding fits_def by (intro conjI exI [of _ "[(req, kind)]"]) (auto simp: add_job_def touches_def)

lemma fits_path:
  assumes "with_path decode cap' s f = (Some s', out)"
    and "\<And>index. map_option decode cap' = Some (Inr index) \<Longrightarrow> f index = (Some s', out) \<Longrightarrow>
      fits su crc chr dp req e cap s s' out"
  shows "fits su crc chr dp req e cap s s' out"
  using assms(1) by (cases rule: with_path_cases) (use assms(2) in \<open>auto intro: fits_quiet\<close>)

lemma fits_extracted:
  assumes "with_extracted x s f = (Some s', out)"
    and "\<And>v. x = Inr v \<Longrightarrow> f v = (Some s', out) \<Longrightarrow> fits su crc chr dp req e cap s s' out"
  shows "fits su crc chr dp req e cap s s' out"
  using assms(1) by (cases rule: with_extracted_cases) (use assms(2) in \<open>auto intro: fits_quiet\<close>)

lemma handle_fits:
  assumes "handle su dp req took e cap s = (Some s', out)"
  shows "fits su crc chr dp req e cap s s' out"
proof (cases e)
  case StatsHandler
  with assms have "serve_stats su dp s = (Some s', out)" by simp
  from serve_stats_touches [OF this] show ?thesis by (auto intro: fits_quiet)
next
  case CatIndexesHandler
  with assms have "serve_cat su dp s = (Some s', out)" by simp
  from serve_cat_touches [OF this] show ?thesis by (auto intro: fits_quiet)
next
  case BulkHandler
  note b = assms [unfolded BulkHandler handle.simps]
  show ?thesis
    by (rule fits_extracted [OF b], erule fits_job) (simp add: concerns_def BulkHandler)
next
  case IngestDocHandler
  note b = assms [unfolded IngestDocHandler handle.simps]
  show ?thesis
    by (rule fits_path [OF b], erule fits_extracted, erule fits_job) (simp add: concerns_def IngestDocHandler)
next
  case GetIndexHandler
  note b = assms [unfolded GetIndexHandler handle.simps]
  show ?thesis
    by (rule fits_path [OF b], rule fits_quiet) (auto split: prod.splits)
next
  case CreateIndexHandler
  note b = assms [unfolded CreateIndexHandler handle.simps]
  show ?thesis
    by (rule fits_path [OF b], erule fits_extracted, drule serve_create_touches) (auto intro: fits_quiet)
next
  case DeleteIndexHandler
  note b = assms [unfolded DeleteIndexHandler handle.simps]
  show ?thesis
    by (rule fits_path [OF b], drule serve_delete_touches) (auto intro: fits_quiet)
next
  case IndexSearchHandler
  note b = assms [unfolded IndexSearchHandler handle.simps]
  show ?thesis
    by (rule fits_path [OF b], erule fits_extracted, erule fits_extracted, drule serve_search_touches)
      (auto intro: fits_quiet)
qed (use assms in \<open>auto intro!: fits_quiet split: prod.splits\<close>)

section \<open>What the server keeps\<close>

text \<open>A request for ingestion that has the key and reaches its handler, and what it asks for.\<close>

definition asked ::
    "('w, 'g, 'rd, 'sv, 'q, 'ia, 'ar, 'addr, 'sc) site \<Rightarrow> http_request \<Rightarrow> job_kind \<Rightarrow> bool" where
  "asked su req kind \<longleftrightarrow>
     authorized (su_api_key su) (hq_headers req) \<and>
     (\<exists>e cap. app_router (su_pick su) (hq_method req) (hq_path req) = Some (e, cap) \<and> concerns su req e cap kind)"

text \<open>
  A request in progress has sent the first of its events, each as a request of its own to the appender;
  an answered one has sent them all, and the answer is made from the appender's answers.
\<close>

definition job_ok ::
    "('w, 'g, 'rd, 'sv, 'q, 'ia, 'ar, 'addr, 'sc) site \<Rightarrow> WalRequest list \<Rightarrow> job \<Rightarrow> bool" where
  "job_ok su reqs j \<longleftrightarrow>
     asked su (jb_request j) (jb_kind j) \<and>
     (\<exists>sent. set sent \<subseteq> set reqs \<and> jb_ids j = map req_id sent \<and>
        map req_event sent @ jb_pending j = fst (ask su (jb_kind j) []))"

definition ingest_ok ::
    "('w, 'g, 'rd, 'sv, 'q, 'ia, 'ar, 'addr, 'sc) site \<Rightarrow> WalRequest list \<Rightarrow> (nat \<times> reply) list \<Rightarrow>
     http_request \<Rightarrow> http_response \<Rightarrow> bool" where
  "ingest_ok su reqs replies req resp \<longleftrightarrow>
     (\<exists>kind sent answers. asked su req kind \<and> set sent \<subseteq> set reqs \<and>
        list_all2 (\<lambda>r answer. (req_id r, answer) \<in> set replies) sent answers \<and>
        ask su kind answers = (map req_event sent, resp))"

text \<open>The HTTP requests a server knows of, and where a request to the appender comes from.\<close>

definition clients :: "('w, 'i, 'rd, 'wr, 'sc, 'ar) server \<Rightarrow> http_request set" where
  "clients s = jb_request ` set (sv_jobs s) \<union> fst ` set (sv_answers s)"

definition asked_by ::
    "('w, 'g, 'rd, 'sv, 'q, 'ia, 'ar, 'addr, 'sc) site \<Rightarrow> http_request set \<Rightarrow> IngestEvent \<Rightarrow> bool" where
  "asked_by su reqs ev \<longleftrightarrow> (\<exists>req \<in> reqs. \<exists>kind. asked su req kind \<and> ev \<in> set (fst (ask su kind [])))"

definition tracks where
  "tracks su crc chr dp s0 ts s \<longleftrightarrow>
     try_fold (system_step crc chr dp) s0 ts = Some (sv_system s) \<and>
     map req_id (requests ts) = [0..<sv_next s] \<and>
     (\<forall>r \<in> set (requests ts). asked_by su (clients s) (req_event r)) \<and>
     (\<forall>j \<in> set (sv_jobs s). job_ok su (requests ts) j) \<and>
     (\<forall>req resp. (req, IngestReply resp) \<in> set (sv_answers s) \<longrightarrow>
        ingest_ok su (requests ts) (ap_replies (sy_appender (sv_system s))) req resp) \<and>
     (sv_cell s = None \<or> sv_cell s = Some (auth_header_of (su_api_key su)))"

definition follows where
  "follows su crc chr dp s0 s \<longleftrightarrow> (\<exists>ts. tracks su crc chr dp s0 ts s)"

lemma asked_by_mono: "asked_by su reqs ev \<Longrightarrow> reqs \<subseteq> reqs' \<Longrightarrow> asked_by su reqs' ev"
  unfolding asked_by_def by blast

lemma job_ok_mono: "job_ok su reqs j \<Longrightarrow> set reqs \<subseteq> set reqs' \<Longrightarrow> job_ok su reqs' j"
  unfolding job_ok_def by blast

lemma ingest_ok_mono:
  assumes "ingest_ok su reqs replies req resp" "set reqs \<subseteq> set reqs'" "set replies \<subseteq> set replies'"
  shows "ingest_ok su reqs' replies' req resp"
proof -
  obtain kind sent answers where a: "asked su req kind" "set sent \<subseteq> set reqs"
      "list_all2 (\<lambda>r answer. (req_id r, answer) \<in> set replies) sent answers" "ask su kind answers = (map req_event sent, resp)"
    using assms(1) unfolding ingest_ok_def by blast
  have "list_all2 (\<lambda>r answer. (req_id r, answer) \<in> set replies') sent answers"
    using a(3) by (rule list_all2_mono) (use assms(3) in blast)
  with a assms(2) show ?thesis
    unfolding ingest_ok_def by blast
qed

lemma replies_grow: "try_fold (system_step crc chr dp) s ts = Some s' \<Longrightarrow>
    set (ap_replies (sy_appender s)) \<subseteq> set (ap_replies (sy_appender s'))"
proof -
  have step: "set (ap_replies a) \<subseteq> set (ap_replies (appender_step crc a e))" for a e
    by (cases e) (auto split: list.split prod.split)
  have "set (ap_replies a) \<subseteq> set (ap_replies (foldl (appender_step crc) a es))" for a es
    by (induction es arbitrary: a) (use step in fastforce)+
  then show "try_fold (system_step crc chr dp) s ts = Some s' \<Longrightarrow> ?thesis"
    using system_appender by metis
qed

lemma ask_sends: "fst (ask su kind answers) = fst (ask su kind [])"
  by (cases kind) (auto simp: ingest_doc_handler_def bulk_handler_def split: prod.split bool.split)

lemma tracks_quiet:
  assumes "tracks su crc chr dp s0 ts s" "quiet_run crc chr dp (sv_system s) (sv_system s')"
    and "sv_next s' = sv_next s" "clients s \<subseteq> clients s'" "sv_cell s' = None \<or> sv_cell s' = Some (auth_header_of (su_api_key su))"
    and "\<And>j. j \<in> set (sv_jobs s') \<Longrightarrow> j \<in> set (sv_jobs s) \<or> job_ok su (requests ts) j"
    and "\<And>req resp. (req, IngestReply resp) \<in> set (sv_answers s') \<Longrightarrow>
      (req, IngestReply resp) \<in> set (sv_answers s) \<or>
      ingest_ok su (requests ts) (ap_replies (sy_appender (sv_system s))) req resp"
  shows "follows su crc chr dp s0 s'"
proof -
  obtain us where us: "requests us = []" "try_fold (system_step crc chr dp) (sv_system s) us = Some (sv_system s')"
    using assms(2) by (auto simp: quiet_run_def)
  have "tracks su crc chr dp s0 (ts @ us) s'"
    unfolding tracks_def
  proof (intro conjI allI impI ballI)
    show "try_fold (system_step crc chr dp) s0 (ts @ us) = Some (sv_system s')"
      using assms(1) us(2) by (simp add: tracks_def try_fold_append)
    show "map req_id (requests (ts @ us)) = [0..<sv_next s']"
      using assms(1,3) us(1) by (simp add: tracks_def)
    show "job_ok su (requests (ts @ us)) j" if "j \<in> set (sv_jobs s')" for j
      using assms(1) assms(6) [OF that] us(1) by (auto simp: tracks_def)
    show "asked_by su (clients s') (req_event r)" if "r \<in> set (requests (ts @ us))" for r
    proof (rule asked_by_mono)
      show "asked_by su (clients s) (req_event r)"
        using assms(1) that us(1) by (simp add: tracks_def)
    qed (rule assms(4))
    show "ingest_ok su (requests (ts @ us)) (ap_replies (sy_appender (sv_system s'))) req resp"
      if "(req, IngestReply resp) \<in> set (sv_answers s')" for req resp
    proof (rule ingest_ok_mono)
      show "ingest_ok su (requests ts) (ap_replies (sy_appender (sv_system s))) req resp"
        using assms(1) assms(7) [OF that] unfolding tracks_def by blast
    qed (use us(1) replies_grow [OF us(2)] in auto)
  qed (rule assms(5))
  then show ?thesis unfolding follows_def by blast
qed

lemma key_check:
  assumes "cell = None \<or> cell = Some (auth_header_of env)"
  shows "auth_middleware env cell headers response =
    (Some (auth_header_of env), if authorized env headers then Inr response else Inl 401)"
  using assms by (auto simp: auth_middleware_first auth_middleware_cached)

text \<open>The part of the server a request works on, without the cell of the key and its answer.\<close>

lemma serve_http_cases:
  assumes "sv_cell s = None \<or> sv_cell s = Some (auth_header_of (su_api_key su))"
    and "serve_http su dp req took s = Some s'"
  obtains s1 cell more new where "s' = s1\<lparr>sv_cell := cell, sv_answers := sv_answers s @ more\<rparr>"
    "cell = None \<or> cell = Some (auth_header_of (su_api_key su))"
    "\<And>r resp. (r, IngestReply resp) \<notin> set more"
    "touches su crc chr dp s s1 new" "new = [] \<or> (\<exists>kind. new = [(req, kind)] \<and> asked su req kind)"
    "fst ` set more \<subseteq> {req}"
proof (cases "app_router (su_pick su) (hq_method req) (hq_path req)")
  case None
  with assms(2) have "s' = s\<lparr>sv_cell := sv_cell s, sv_answers := sv_answers s @ [(req, Unrouted)]\<rparr>"
    by (auto simp: serve_http_def serve_def)
  then show ?thesis
    by (rule that [OF _ assms(1) _ touches_refl]) simp_all
next
  case (Some route)
  obtain e cap where route: "route = (e, cap)" by (cases route)
  show ?thesis
  proof (cases "authorized (su_api_key su) (hq_headers req)")
    case False
    with assms(2) Some route have "s' = s\<lparr>sv_cell := Some (auth_header_of (su_api_key su)),
        sv_answers := sv_answers s @ [(req, Rejected 401)]\<rparr>"
      by (auto simp: serve_http_def serve_def key_check [OF assms(1)])
    then show ?thesis
      by (rule that [OF _ _ _ touches_refl]) simp_all
  next
    case True
    obtain st out where h: "handle su dp req took e cap s = (st, out)" by fastforce
    with assms(2) Some route True obtain s1 where s1: "st = Some s1"
        "s' = s1\<lparr>sv_cell := Some (auth_header_of (su_api_key su)), sv_answers := sv_answers s1 @
          (case out of None \<Rightarrow> [] | Some resp \<Rightarrow> [(req, resp)])\<rparr>"
      by (auto simp: serve_http_def serve_def key_check [OF assms(1)] on_state_def split: option.splits)
    have "fits su crc chr dp req e cap s s1 out"
      using h s1(1) by (simp add: handle_fits)
    then obtain new where new: "touches su crc chr dp s s1 new"
        "new = [] \<or> (\<exists>kind. new = [(req, kind)] \<and> concerns su req e cap kind)"
        "\<And>resp. out \<noteq> Some (IngestReply resp)"
      unfolding fits_def by blast
    have "sv_answers s1 = sv_answers s"
      using new(1) by (simp add: touches_def)
    then have "s' = s1\<lparr>sv_cell := Some (auth_header_of (su_api_key su)), sv_answers := sv_answers s @
          (case out of None \<Rightarrow> [] | Some resp \<Rightarrow> [(req, resp)])\<rparr>"
      using s1(2) by simp
    then show ?thesis
      by (rule that [OF _ _ _ new(1)]) (use new(2,3) Some route True in \<open>auto simp: asked_def split: option.splits\<close>)
  qed
qed

lemma follows_http:
  assumes "follows su crc chr dp s0 s" "serve_http su dp req took s = Some s'"
  shows "follows su crc chr dp s0 s'"
proof -
  obtain ts where ts: "tracks su crc chr dp s0 ts s"
    using assms(1) by (auto simp: follows_def)
  then have cell: "sv_cell s = None \<or> sv_cell s = Some (auth_header_of (su_api_key su))"
    by (simp add: tracks_def)
  obtain s1 cell more new where s1: "s' = s1\<lparr>sv_cell := cell, sv_answers := sv_answers s @ more\<rparr>"
      "cell = None \<or> cell = Some (auth_header_of (su_api_key su))"
      "\<And>r resp. (r, IngestReply resp) \<notin> set more"
      "touches su crc chr dp s s1 new" "new = [] \<or> (\<exists>kind. new = [(req, kind)] \<and> asked su req kind)"
    by (rule serve_http_cases [OF cell assms(2), of crc chr]) blast
  have job: "job_ok su reqs (new_job su req kind)" if "asked su req kind" for reqs kind
    using that by (auto simp: job_ok_def new_job_def intro!: exI [of _ "[]"])
  show ?thesis
    by (rule tracks_quiet [OF ts]) (use s1 job in \<open>auto simp: touches_def clients_def\<close>)
qed

lemma follows_send:
  assumes "follows su crc chr dp s0 s" "send_next crc chr dp k s = Some s'"
  shows "follows su crc chr dp s0 s'"
proof (cases "k < length (sv_jobs s) \<and> jb_pending (sv_jobs s ! k) \<noteq> []")
  case False
  with assms show ?thesis by (auto simp: send_next_def split: if_splits)
next
  case True
  obtain ts where ts: "tracks su crc chr dp s0 ts s"
    using assms(1) by (auto simp: follows_def)
  let ?j = "sv_jobs s ! k"
  obtain ev evs where ev: "jb_pending ?j = ev # evs"
    using True by (cases "jb_pending ?j") auto
  define r where "r = \<lparr>req_id = sv_next s, req_event = ev\<rparr>"
  define j' where "j' = ?j\<lparr>jb_pending := evs, jb_ids := jb_ids ?j @ [sv_next s]\<rparr>"
  let ?sys = "(sv_system s)\<lparr>sy_appender := appender_step crc (sy_appender (sv_system s)) (Arrive r)\<rparr>"
  have s': "s' = s\<lparr>sv_system := ?sys, sv_next := Suc (sv_next s), sv_jobs := (sv_jobs s)[k := j']\<rparr>"
    using assms(2) True ev by (simp add: send_next_def r_def j'_def)
  have reqs: "requests (ts @ [Request r]) = requests ts @ [r]"
    by simp
  have "job_ok su (requests ts) ?j"
    using ts True by (simp add: tracks_def)
  then obtain sent where sent: "asked su (jb_request ?j) (jb_kind ?j)" "set sent \<subseteq> set (requests ts)"
      "jb_ids ?j = map req_id sent" "map req_event sent @ jb_pending ?j = fst (ask su (jb_kind ?j) [])"
    unfolding job_ok_def by blast
  then have j': "job_ok su (requests ts @ [r]) j'"
    unfolding job_ok_def by (intro conjI exI [of _ "sent @ [r]"]) (auto simp: j'_def r_def ev)
  have "tracks su crc chr dp s0 (ts @ [Request r]) s'"
    unfolding tracks_def reqs
  proof (intro conjI ballI allI impI)
    show "try_fold (system_step crc chr dp) s0 (ts @ [Request r]) = Some (sv_system s')"
      using ts by (simp add: tracks_def try_fold_append s')
    show "map req_id (requests ts @ [r]) = [0..<sv_next s']"
      using ts by (simp add: tracks_def s' r_def)
    have "jb_request j' = jb_request ?j" "ev \<in> set (fst (ask su (jb_kind ?j) []))"
      using sent(4) [symmetric] by (simp_all add: j'_def ev)
    moreover have "jb_request ` set ((sv_jobs s)[k := j']) = jb_request ` set (sv_jobs s)" if "jb_request j' = jb_request ?j"
      using that by (metis list.set_map list_update_id map_update)
    ultimately have clients: "clients s' = clients s" "asked_by su (clients s) ev"
      using sent(1) True unfolding asked_by_def clients_def s' by (auto intro!: bexI [of _ "jb_request ?j"])
    then show "asked_by su (clients s') (req_event q)" if "q \<in> set (requests ts @ [r])" for q
      using that ts by (auto simp: tracks_def r_def)
    show "job_ok su (requests ts @ [r]) j" if "j \<in> set (sv_jobs s')" for j
    proof (cases "j = j'")
      case False
      then have "j \<in> set (sv_jobs s)"
        using that set_update_subset_insert [of "sv_jobs s" k j'] by (auto simp: s')
      with ts have "job_ok su (requests ts) j" by (simp add: tracks_def)
      then show ?thesis by (rule job_ok_mono) auto
    qed (use j' in simp)
    show "ingest_ok su (requests ts @ [r]) (ap_replies (sy_appender (sv_system s'))) req resp"
      if "(req, IngestReply resp) \<in> set (sv_answers s')" for req resp
    proof (rule ingest_ok_mono)
      show "ingest_ok su (requests ts) (ap_replies (sy_appender (sv_system s))) req resp"
        using ts that by (simp add: tracks_def s')
    qed (auto simp: s')
    show "sv_cell s' = None \<or> sv_cell s' = Some (auth_header_of (su_api_key su))"
      using ts by (simp add: tracks_def s')
  qed
  then show ?thesis unfolding follows_def by blast
qed

lemma those_Some: "those xs = Some ys \<Longrightarrow> list_all2 (\<lambda>x y. x = Some y) xs ys"
  by (induction xs arbitrary: ys) (auto split: option.splits)

lemma respond_clients: "clients (respond su k s) = clients s"
proof (cases "k < length (sv_jobs s)")
  case True
  then have "set (sv_jobs s) = set (take k (sv_jobs s) @ drop (Suc k) (sv_jobs s)) \<union> {sv_jobs s ! k}"
    by (subst id_take_nth_drop [OF True]) auto
  then show ?thesis
    by (auto simp: clients_def respond_def image_Un split: option.split)
qed (simp add: respond_def)

lemma follows_respond:
  assumes "follows su crc chr dp s0 s"
  shows "follows su crc chr dp s0 (respond su k s)"
proof (cases "respond su k s = s")
  case True
  with assms show ?thesis by simp
next
  case False
  obtain ts where ts: "tracks su crc chr dp s0 ts s"
    using assms by (auto simp: follows_def)
  let ?j = "sv_jobs s ! k" and ?replies = "ap_replies (sy_appender (sv_system s))"
  obtain answers where a: "k < length (sv_jobs s)" "jb_pending ?j = []"
      "replies_to ?replies (jb_ids ?j) = Some answers"
      "respond su k s = s\<lparr>sv_jobs := take k (sv_jobs s) @ drop (Suc k) (sv_jobs s), sv_answers := sv_answers s @
        [(jb_request ?j, IngestReply (snd (ask su (jb_kind ?j) answers)))]\<rparr>"
    using False by (auto simp: respond_def split: if_splits option.splits)
  have "job_ok su (requests ts) ?j"
    using ts a(1) by (simp add: tracks_def)
  then obtain sent where sent: "asked su (jb_request ?j) (jb_kind ?j)" "set sent \<subseteq> set (requests ts)"
      "jb_ids ?j = map req_id sent" "map req_event sent = fst (ask su (jb_kind ?j) [])"
    using a(2) unfolding job_ok_def by auto
  have "list_all2 (\<lambda>r answer. map_of ?replies (req_id r) = Some answer) sent answers"
    using those_Some [OF a(3) [unfolded replies_to_def sent(3)]] by (simp add: list_all2_map1)
  then have "list_all2 (\<lambda>r answer. (req_id r, answer) \<in> set ?replies) sent answers"
    by (rule list_all2_mono) (rule map_of_SomeD)
  moreover have "ask su (jb_kind ?j) answers = (map req_event sent, snd (ask su (jb_kind ?j) answers))"
    using sent(4) ask_sends by (metis prod.collapse)
  ultimately have "ingest_ok su (requests ts) ?replies (jb_request ?j) (snd (ask su (jb_kind ?j) answers))"
    using sent(1,2) unfolding ingest_ok_def by blast
  then show ?thesis
    by (intro tracks_quiet [OF ts])
      (use ts respond_clients [of su k s] in \<open>auto simp: a(4) tracks_def dest: in_set_takeD in_set_dropD\<close>)
qed

lemma follows_background:
  assumes "follows su crc chr dp s0 s" "background e" "system_step crc chr dp (sv_system s) e = Some sys"
  shows "follows su crc chr dp s0 (s\<lparr>sv_system := sys\<rparr>)"
proof -
  obtain ts where ts: "tracks su crc chr dp s0 ts s"
    using assms(1) by (auto simp: follows_def)
  have "quiet_run crc chr dp (sv_system s) sys"
    using assms(3) by (rule quiet_one) (simp add: assms(2))
  with ts show ?thesis
    by (intro tracks_quiet [OF ts]) (auto simp: tracks_def clients_def)
qed

lemma server_step_follows:
  assumes "follows su crc chr dp s0 s" "server_step su crc chr dp s e = Some s'"
  shows "follows su crc chr dp s0 s'"
proof (cases e)
  case (Background b)
  with assms follows_background show ?thesis by (auto split: if_splits)
qed (use assms in \<open>auto intro: follows_http follows_send follows_respond\<close>)

interpretation serving: ending_machine "server_step su crc chr dp" "follows su crc chr dp s0" for su crc chr dp s0
  by unfold_locales (rule server_step_follows)

lemma start_follows: "follows su crc chr dp s0 (start_server s0 files outcomes)"
  unfolding follows_def tracks_def start_server_def by (rule exI [of _ "[]"]) simp

lemma run_tracks:
  assumes "try_fold (server_step su crc chr dp) (start_server s0 files outcomes) es = Some s"
  obtains ts where "tracks su crc chr dp s0 ts s"
  using serving.run_inv [OF start_follows assms] unfolding follows_def by blast

section \<open>Only what was posted is indexed\<close>

text \<open>The server knows only of requests that clients have sent.\<close>

lemma step_clients:
  assumes "follows su crc chr dp s0 s" "server_step su crc chr dp s e = Some s'"
  shows "clients s' \<subseteq> clients s \<union> {req. \<exists>took. e = Http req took}"
proof (cases e)
  case (Http req took)
  have cell: "sv_cell s = None \<or> sv_cell s = Some (auth_header_of (su_api_key su))"
    using assms(1) by (auto simp: follows_def tracks_def)
  have served: "serve_http su dp req took s = Some s'"
    using assms(2) Http by simp
  obtain s1 cell more new where s1: "s' = s1\<lparr>sv_cell := cell, sv_answers := sv_answers s @ more\<rparr>"
      "touches su crc chr dp s s1 new" "new = [] \<or> (\<exists>kind. new = [(req, kind)] \<and> asked su req kind)"
      "fst ` set more \<subseteq> {req}"
    by (rule serve_http_cases [OF cell served, of crc chr]) blast
  have "jb_request ` set (sv_jobs s1) \<subseteq> jb_request ` set (sv_jobs s) \<union> {req}"
    using s1(2,3) by (auto simp: touches_def new_job_def)
  then show ?thesis
    using s1(1,4) by (auto simp: clients_def Http)
next
  case (SendNext k)
  show ?thesis
  proof (cases "k < length (sv_jobs s) \<and> jb_pending (sv_jobs s ! k) \<noteq> []")
    case True
    then obtain j' sys where "s' = s\<lparr>sv_system := sys, sv_next := Suc (sv_next s), sv_jobs := (sv_jobs s)[k := j']\<rparr>"
        "jb_request j' = jb_request (sv_jobs s ! k)"
      using assms(2) SendNext by (auto simp: send_next_def split: list.splits)
    then show ?thesis
      using True set_update_subset_insert [of "sv_jobs s" k j'] by (auto simp: clients_def)
  next
    case False
    with assms(2) SendNext show ?thesis by (auto simp: send_next_def split: if_splits)
  qed
next
  case (Respond k)
  with assms(2) show ?thesis by (auto simp: respond_clients)
next
  case (Background b)
  with assms(2) show ?thesis by (auto simp: clients_def split: if_splits)
qed

lemma run_clients:
  assumes "try_fold (server_step su crc chr dp) s es = Some s'" "follows su crc chr dp s0 s"
  shows "clients s' \<subseteq> clients s \<union> {req. \<exists>took. Http req took \<in> set es}"
  using assms
proof (induction es arbitrary: s)
  case (Cons e es)
  obtain s1 where s1: "server_step su crc chr dp s e = Some s1" "try_fold (server_step su crc chr dp) s1 es = Some s'"
    using Cons.prems(1) by (auto split: option.splits simp del: server_step.simps)
  have "{req. \<exists>took. Http req took \<in> set (e # es)} =
      {req. \<exists>took. e = Http req took} \<union> {req. \<exists>took. Http req took \<in> set es}"
    by auto
  with Cons.IH [OF s1(2) server_step_follows [OF Cons.prems(2) s1(1)]] step_clients [OF Cons.prems(2) s1(1)]
  show ?case by blast
qed simp

lemma acked_requested: "ev \<in> set (acked_events reqs replies) \<Longrightarrow> \<exists>r \<in> set reqs. ev = req_event r"
  by (auto simp: acked_events_def dest: set_zip_leftD)

lemma sent_was_posted:
  assumes "boot p = Some s0"
    and "try_fold (server_step su crc chr dp) (start_server s0 files outcomes) es = Some s"
    and "(ev, off) \<in> set (ap_sent (sy_appender (sv_system s)))"
  shows "\<exists>req took kind. Http req took \<in> set es \<and> authorized (su_api_key su) (hq_headers req) \<and>
    asked su req kind \<and> ev \<in> set (fst (ask su kind []))"
proof -
  obtain ts where ts: "tracks su crc chr dp s0 ts s"
    using assms(2) by (rule run_tracks)
  obtain w where w: "sy_appender s0 = \<lparr>ap_queue = [], ap_wal = w, ap_replies = [], ap_sent = []\<rparr>"
    using assms(1) by (auto simp: boot_def initial_def)
  have "try_fold (system_step crc chr dp) s0 ts = Some (sv_system s)"
    using ts by (simp add: tracks_def)
  from sent_acked [OF system_appender [OF this, unfolded w]]
  have "fst ` set (ap_sent (sy_appender (sv_system s))) =
      set (acked_events (requests ts) (ap_replies (sy_appender (sv_system s))))"
    by (metis list.set_map requests_def)
  then have "ev \<in> set (acked_events (requests ts) (ap_replies (sy_appender (sv_system s))))"
    using assms(3) by force
  then obtain r where "r \<in> set (requests ts)" "ev = req_event r"
    using acked_requested by blast
  then have "asked_by su (clients s) ev"
    using ts by (simp add: tracks_def)
  moreover have "clients s \<subseteq> {req. \<exists>took. Http req took \<in> set es}"
    using run_clients [OF assms(2) start_follows] by (auto simp: clients_def start_server_def)
  ultimately show ?thesis
    unfolding asked_by_def asked_def by blast
qed

section \<open>Every request in progress can be answered\<close>

text \<open>The documents a request has still to send are sent.\<close>

lemma send_all:
  assumes "k < length (sv_jobs s)"
  shows "\<exists>n s'. try_fold (server_step su crc chr dp) s (replicate n (SendNext k)) = Some s' \<and>
    k < length (sv_jobs s') \<and> jb_pending (sv_jobs s' ! k) = [] \<and>
    jb_request (sv_jobs s' ! k) = jb_request (sv_jobs s ! k) \<and> sv_answers s' = sv_answers s"
  using assms
proof (induction "jb_pending (sv_jobs s ! k)" arbitrary: s)
  case Nil
  then show ?case by (intro exI [of _ 0] exI [of _ s]) simp
next
  case (Cons ev evs)
  obtain s1 where sent: "send_next crc chr dp k s = Some s1"
    using Cons.hyps(2) [symmetric] Cons.prems by (simp add: send_next_def)
  then have s1: "server_step su crc chr dp s (SendNext k) = Some s1" "evs = jb_pending (sv_jobs s1 ! k)"
      "k < length (sv_jobs s1)" "jb_request (sv_jobs s1 ! k) = jb_request (sv_jobs s ! k)"
      "sv_answers s1 = sv_answers s"
    using Cons.hyps(2) [symmetric] Cons.prems by (auto simp: send_next_def)
  obtain n s' where s': "try_fold (server_step su crc chr dp) s1 (replicate n (SendNext k)) = Some s'"
      "k < length (sv_jobs s')" "jb_pending (sv_jobs s' ! k) = []"
      "jb_request (sv_jobs s' ! k) = jb_request (sv_jobs s1 ! k)" "sv_answers s' = sv_answers s1"
    using Cons.hyps(1) [OF s1(2,3)] by blast
  show ?case
    by (rule exI [of _ "Suc n"], rule exI [of _ s']) (use s1 s' in \<open>simp del: server_step.simps\<close>)
qed

text \<open>The appender empties its channel.\<close>

lemma drain_shorter: "drain_queue batch queue = (batch', queue') \<Longrightarrow> length queue' \<le> length queue"
  by (induction batch queue rule: drain_queue.induct) (auto simp: Let_def split: if_splits)

lemma run_loop_shorter:
  "length (ap_queue (appender_step crc a RunLoopBody)) \<le> length (ap_queue a) - 1"
  by (auto split: list.split prod.split dest: drain_shorter)

lemma drain_all:
  "\<exists>n s'. try_fold (server_step su crc chr dp) s (replicate n (Background WalLoop)) = Some s' \<and>
    ap_queue (sy_appender (sv_system s')) = [] \<and> sv_jobs s' = sv_jobs s \<and> sv_answers s' = sv_answers s"
proof (induction "length (ap_queue (sy_appender (sv_system s)))" arbitrary: s rule: less_induct)
  case less
  show ?case
  proof (cases "ap_queue (sy_appender (sv_system s)) = []")
    case True
    then show ?thesis by (intro exI [of _ 0] exI [of _ s]) simp
  next
    case False
    define s1 where "s1 = s\<lparr>sv_system := (sv_system s)\<lparr>sy_appender := appender_step crc (sy_appender (sv_system s)) RunLoopBody\<rparr>\<rparr>"
    have "length (ap_queue (sy_appender (sv_system s1))) < length (ap_queue (sy_appender (sv_system s)))"
      using run_loop_shorter [of crc "sy_appender (sv_system s)"] False
      by (cases "ap_queue (sy_appender (sv_system s))") (simp_all add: s1_def del: appender_step.simps)
    from less [OF this] obtain n s' where s': "try_fold (server_step su crc chr dp) s1 (replicate n (Background WalLoop)) = Some s'"
        "ap_queue (sy_appender (sv_system s')) = []" "sv_jobs s' = sv_jobs s1" "sv_answers s' = sv_answers s1"
      by blast
    have "server_step su crc chr dp s (Background WalLoop) = Some s1"
      by (simp add: s1_def del: appender_step.simps)
    with s' show ?thesis
      by (intro exI [of _ "Suc n"] exI [of _ s']) (simp add: s1_def del: server_step.simps)
  qed
qed

lemma all_replied:
  assumes "tracks su crc chr dp s0 ts s" "sy_appender s0 = \<lparr>ap_queue = [], ap_wal = w, ap_replies = [], ap_sent = []\<rparr>"
    and "ap_queue (sy_appender (sv_system s)) = []"
  shows "map fst (ap_replies (sy_appender (sv_system s))) = map req_id (requests ts)"
proof -
  have "sy_appender (sv_system s) = foldl (appender_step crc) (sy_appender s0) (wal_events ts)"
    using assms(1) by (auto simp: tracks_def intro: system_appender)
  moreover have "answered_in_order (foldl (counted_step crc) (sy_appender s0, []) (wal_events ts))"
    by (rule answers.run_inv) (simp add: answered_in_order_def assms(2))
  ultimately show ?thesis
    using assms(3) by (simp add: counted_run answered_in_order_def requests_def arrivals_def)
qed

lemma those_total: "\<forall>x \<in> set xs. x \<noteq> None \<Longrightarrow> \<exists>ys. those xs = Some ys"
  by (induction xs) auto

end
