(* ===== verification/Posted_Found.thy ===== *)
theory Posted_Found
  imports Exactly_Once Search
begin

text \<open>
  From the answer 201 to the search result: the path of a document through all of the program. What
  the indexing task commits is what a search for everything returns, so the hits of an index are
  the posted documents it has accepted, each once, with the JSON that was posted as their source.
\<close>

section \<open>What the code relies on\<close>

text \<open>
  A schema builder holds what was added to it; and a document parsed, with a schema that stores
  \<open>_source\<close>, from a text that has a value under that name, gives in its own text an array with what
  the store keeps of the value: \<open>kept\<close>, as Tantivy writes some values in another form, for
  example dates in UTC.
\<close>

definition builder_law :: "('b, 'x) schema_api \<Rightarrow> ('b \<Rightarrow> (string \<times> field_options) list) \<Rightarrow> bool" where
  "builder_law sapi entries \<longleftrightarrow>
     (\<forall>b n opts b'. sa_add sapi b n opts = Ret b' \<longrightarrow> entries b' = entries b @ [(n, opts)])"

definition source_law ::
    "('b, 'x, 'w, 'd, 'i, 'rd, 'doc, 'f, 'wr) deps \<Rightarrow>
     ('rd, 'sv, 'q, 'g, 'ia, 'ar, 'addr, 'sc) search_api \<Rightarrow> ('b \<Rightarrow> (string \<times> field_options) list) \<Rightarrow>
     ('doc \<Rightarrow> string) \<Rightarrow> (json \<Rightarrow> json) \<Rightarrow> bool" where
  "source_law dp api entries to_text kept \<longleftrightarrow>
     (\<forall>b s doc root v. (''_source'', AddJsonStored) \<in> set (entries b) \<and>
        sj_to_string (dp_json dp) (JObject root) = Inr s \<and> map_of root ''_source'' = Some v \<and>
        wa_parse_json (dp_writer dp) (sa_build (dp_schema dp) b) s = Inr doc \<longrightarrow>
        (\<exists>parsed. sa_json api (to_text doc) = Some parsed \<and>
           json_get parsed ''_source'' = Some (JArray [kept v])))"

text \<open>
  The documents a writer's committed operations leave alive: a deletion removes the documents
  before it whose date is older. A reader, once reloaded, ranks for the query for everything exactly
  the documents given.
\<close>

definition live :: "('f \<Rightarrow> int \<Rightarrow> 'doc \<Rightarrow> bool) \<Rightarrow> ('doc + 'f \<times> int) list \<Rightarrow> 'doc list" where
  "live older ops =
     foldl (\<lambda>docs op. case op of Inl doc \<Rightarrow> docs @ [doc] | Inr (f, t) \<Rightarrow> filter (\<lambda>doc. \<not> older f t doc) docs) [] ops"

definition shows_docs ::
    "('rd, 'sv, 'q, 'g, 'ia, 'ar, 'addr, 'sc) search_api \<Rightarrow> 'rd \<Rightarrow> nat \<Rightarrow> ('doc \<Rightarrow> string) \<Rightarrow> 'doc list \<Rightarrow> bool" where
  "shows_docs api rd cap to_text docs \<longleftrightarrow>
     (\<exists>ranking doc_at. ranks api rd ''*'' cap ranking (to_text \<circ> doc_at) \<and>
        mset (map (doc_at \<circ> snd) ranking) = mset docs)"

section \<open>The source of a document\<close>

lemma add_all_entries:
  "builder_law sapi entries \<Longrightarrow> add_all sapi b es = Ret b' \<Longrightarrow> entries b' = entries b @ es"
proof (induction es arbitrary: b)
  case (Cons e es)
  obtain n opts where e: "e = (n, opts)" by (cases e)
  obtain b1 where b1: "sa_add sapi b n opts = Ret b1" "add_all sapi b1 es = Ret b'"
    using Cons.prems(2) by (auto simp: e run_simps)
  have "entries b1 = entries b @ [e]"
    using Cons.prems(1) b1(1) by (auto simp: builder_law_def e)
  with Cons.IH [OF Cons.prems(1) b1(2)] show ?case by simp
qed simp

lemma built_has_source:
  assumes "builder_law sapi entries" "built sapi x"
  obtains b where "x = sa_build sapi b" "(''_source'', AddJsonStored) \<in> set (entries b)"
proof -
  obtain d where "build_schema sapi d = Ret (Inr x)"
    using assms(2) by (auto simp: built_def)
  then obtain b where "add_all sapi (sa_builder sapi) (schema_entries d) = Ret b" "x = sa_build sapi b"
    by (auto simp: build_schema_entries run_simps)
  with that add_all_entries [OF assms(1)] show ?thesis
    by (fastforce simp: schema_entries_def)
qed

lemma root_source: "map_of (build_root sj d (JObject m)) ''_source'' = Some (JObject m)"
  by (simp add: build_root_def Let_def split_def)

text \<open>What was posted.\<close>

definition posted :: "serde_api \<Rightarrow> IngestEvent \<Rightarrow> json" where
  "posted sj ev = (case sj_from_slice sj (ev_payload ev) of Inl _ \<Rightarrow> JNull | Inr v \<Rightarrow> v)"

text \<open>The source a hit takes from the text of its document.\<close>

definition text_source :: "json option \<Rightarrow> json" where
  "text_source parsed = (case parsed of Some v \<Rightarrow> source_of v | None \<Rightarrow> JNull)"

lemma hit_source_text [simp]: "hit_source (make_hit score parsed) = text_source parsed"
  by (simp add: make_hit_def text_source_def)

lemma doc_source:
  assumes "index_law (dp_index dp)" "builder_law (dp_schema dp) entries" "source_law dp api entries to_text kept"
    and "doc_for dp ev doc"
  shows "text_source (sa_json api (to_text doc)) = kept (posted (dp_json dp) ev)"
proof -
  obtain d m s i where e: "sj_from_slice (dp_json dp) (ev_payload ev) = Inr (JObject m)"
      "sj_to_string (dp_json dp) (JObject (build_root (dp_json dp) d (JObject m))) = Inr s"
      "wa_parse_json (dp_writer dp) (ix_schema (dp_index dp) i) s = Inr doc"
      "built (dp_schema dp) (ix_schema (dp_index dp) i)"
    using assms(1,4) unfolding doc_for_def by blast
  obtain b where b: "ix_schema (dp_index dp) i = sa_build (dp_schema dp) b"
      "(''_source'', AddJsonStored) \<in> set (entries b)"
    by (rule built_has_source [OF assms(2) e(4)])
  obtain parsed where "sa_json api (to_text doc) = Some parsed"
      "json_get parsed ''_source'' = Some (JArray [kept (JObject m)])"
    using assms(3) b e(2,3) root_source unfolding source_law_def by metis
  with e(1) show ?thesis
    by (simp add: text_source_def source_of_def posted_def)
qed

section \<open>The search for everything\<close>

lemma live_simps [simp]:
  "live older [] = []"
  "live older (ops @ [Inl doc]) = live older ops @ [doc]"
  "live older (ops @ [Inr (f, t)]) = filter (\<lambda>doc. \<not> older f t doc) (live older ops)"
  by (simp_all add: live_def)

lemma live_documents: "deletions ops = [] \<Longrightarrow> live older ops = documents ops"
proof (induction ops rule: rev_induct)
  case (snoc op ops)
  then show ?case by (cases op) simp_all
qed simp

lemma live_subset: "mset (live older ops) \<subseteq># mset (documents ops)"
proof (induction ops rule: rev_induct)
  case (snoc op ops)
  show ?case
  proof (cases op)
    case (Inl doc)
    with snoc show ?thesis by simp
  next
    case (Inr del)
    then have "mset (live older (ops @ [op])) \<subseteq># mset (live older ops)"
      by (cases del) simp
    with snoc Inr show ?thesis
      using subset_mset.order_trans by fastforce
  qed
qed simp

lemma sources_of_docs:
  assumes "index_law (dp_index dp)" "builder_law (dp_schema dp) entries" "source_law dp api entries to_text kept"
    and "list_all2 (doc_for dp) evs docs"
  shows "map (text_source \<circ> sa_json api \<circ> to_text) docs = map (kept \<circ> posted (dp_json dp)) evs"
  using assms(4) by (induction rule: list_all2_induct) (simp_all add: doc_source [OF assms(1-3)])

lemma search_everything:
  assumes "shows_docs api rd cap to_text docs" "length docs \<le> unat size0" "unat size0 \<le> cap"
  shows "\<exists>resp. execute_search api took [rd] ''*'' 0 size0 None = Ret (Inr resp) \<and>
    sr_total_value resp = of_nat (length docs) \<and>
    mset (map hit_source (sr_hits resp)) =
      mset (map (text_source \<circ> sa_json api \<circ> to_text) docs)"
proof -
  obtain ranking doc_at where r: "ranks api rd ''*'' cap ranking (to_text \<circ> doc_at)"
      "mset (map (doc_at \<circ> snd) ranking) = mset docs"
    using assms(1) by (auto simp: shows_docs_def)
  have len: "length ranking = length docs"
    using r(2) by (metis length_map size_mset)
  obtain resp where resp: "execute_search api took [rd] ''*'' 0 size0 None = Ret (Inr resp)"
      "sr_total_value resp = of_nat (length ranking)"
      "sr_hits resp = map (\<lambda>(score, addr). make_hit score (sa_json api ((to_text \<circ> doc_at) addr))) ranking"
    using search_hits [OF r(1), of 0 size0 took] assms(2,3) len by auto
  have "map hit_source (sr_hits resp) = map (text_source \<circ> sa_json api \<circ> to_text) (map (doc_at \<circ> snd) ranking)"
    unfolding resp(3) by auto
  then have "mset (map hit_source (sr_hits resp)) =
      image_mset (text_source \<circ> sa_json api \<circ> to_text) (mset (map (doc_at \<circ> snd) ranking))"
    by (metis mset_map)
  with resp(1,2) len r(2) show ?thesis by simp
qed

lemma hits_are_posted:
  assumes "writer_law (dp_writer dp) pend comm pay" "reliable (dp_writer dp)"
    and "index_law (dp_index dp)" "builder_law (dp_schema dp) entries" "source_law dp api entries to_text kept"
    and "\<And>base. opened (dp_writer dp) comm base \<Longrightarrow> base = []"
    and "start_program yaml env pf = Ret (Inr p)" "boot p = Some s0"
    and "try_fold (system_step crc chr dp) s0 es = Some s"
    and "sy_delivered s = length (ap_sent (sy_appender s))"
    and "system_step crc chr dp s Timer = Some s'"
    and "map_of (ac_writers (sy_indexer s')) index = Some wr"
    and "get_reader (dp_schema dp) (dp_index dp) r mw index = Ret (m', w', Inr rd)"
    and "shows_docs api rd cap to_text (live older (comm wr))"
    and "extract_query_string params body = ''*''" "sp_size params = Some size0" "sp_from params = None"
    and "Option.bind body sb_from = None" "Option.bind body sb_aggs = None"
    and "length (accepted (sy_results s) index) \<le> unat size0" "unat size0 \<le> cap"
  shows "\<exists>resp. index_search_handler (dp_schema dp) (dp_index dp) api took r mw index params body =
      Ret (m', w', Inr resp) \<and>
    sr_total_value resp = of_nat (length (sr_hits resp)) \<and>
    mset (map hit_source (sr_hits resp)) \<subseteq>#
      mset (map (kept \<circ> posted (dp_json dp)) (accepted (sy_results s) index)) \<and>
    (purges_done (sy_purged s) index = [] \<longrightarrow>
       mset (map hit_source (sr_hits resp)) =
         mset (map (kept \<circ> posted (dp_json dp)) (accepted (sy_results s) index)))"
proof -
  have all: "\<forall>n. case map_of (ac_writers (sy_indexer s')) n of
      None \<Rightarrow> answers_for dp s n []
    | Some wr \<Rightarrow> pend wr = [] \<and>
        (\<exists>base ops. opened (dp_writer dp) comm base \<and> comm wr = base @ ops \<and> answers_for dp s n ops)"
    using committed_once [OF assms(1,2,7-10)] assms(11) by auto
  obtain base ops where ops: "opened (dp_writer dp) comm base" "comm wr = base @ ops" "answers_for dp s index ops"
    using all [rule_format, of index] assms(12) by auto
  then have docs: "list_all2 (doc_for dp) (accepted (sy_results s) index) (documents (comm wr))"
    and none: "purges_done (sy_purged s) index = [] \<Longrightarrow> deletions (comm wr) = []"
    using assms(6) [OF ops(1)] by (auto simp: answers_for_def)
  let ?src = "text_source \<circ> sa_json api \<circ> to_text" and ?docs = "documents (comm wr)"
  have "size (mset (live older (comm wr))) \<le> size (mset ?docs)"
    using live_subset size_mset_mono by blast
  then have "length (live older (comm wr)) \<le> unat size0"
    using assms(20) list_all2_lengthD [OF docs] by simp
  then obtain resp where resp: "execute_search api took [rd] ''*'' 0 size0 None = Ret (Inr resp)"
      "sr_total_value resp = of_nat (length (live older (comm wr)))"
      "mset (map hit_source (sr_hits resp)) = mset (map ?src (live older (comm wr)))"
    using search_everything [OF assms(14), of size0 took] assms(21) by auto
  have handled: "index_search_handler (dp_schema dp) (dp_index dp) api took r mw index params body = Ret (m', w', Inr resp)"
    using resp(1) assms(13,15-19) by (simp add: index_search_handler_def or_default_def)
  have count: "length (sr_hits resp) = length (live older (comm wr))"
    using resp(3) by (metis length_map size_mset)
  have sources: "map ?src ?docs = map (kept \<circ> posted (dp_json dp)) (accepted (sy_results s) index)"
    by (rule sources_of_docs [OF assms(3-5) docs])
  have "image_mset ?src (mset (live older (comm wr))) \<subseteq># image_mset ?src (mset ?docs)"
    using live_subset by (rule image_mset_subseteq_mono)
  then have "mset (map hit_source (sr_hits resp)) \<subseteq># mset (map ?src ?docs)"
    using resp(3) by simp
  then show ?thesis
    using handled resp(2,3) count none live_documents [of "comm wr" older] unfolding sources [symmetric] by auto
qed

text \<open>
  The hits are the posted documents. Start the program over empty index directories and let
  anything happen, in any order and with any I/O errors on the log; once all that was sent to the
  indexing task is delivered and its timer has ticked, search an index for everything, with a page
  large enough. The sources of the hits are among the documents that were posted for that index and
  accepted by the task, as the store keeps them: nothing else and nothing twice. If nothing was
  purged from the index, they are all of them.
\<close>

theorem posted_is_found:
  assumes "writer_law (dp_writer dp) pend comm pay" "reliable (dp_writer dp)"
    and "index_law (dp_index dp)" "builder_law (dp_schema dp) entries" "source_law dp api entries to_text kept"
    and "\<And>base. opened (dp_writer dp) comm base \<Longrightarrow> base = []"
    and "start_program yaml env pf = Ret (Inr p)" "boot p = Some s0"
    and "try_fold (system_step crc chr dp) s0 es = Some s"
    and "sy_delivered s = length (ap_sent (sy_appender s))"
    and "system_step crc chr dp s Timer = Some s'"
    and "map_of (ac_writers (sy_indexer s')) index = Some wr"
    and "get_reader (dp_schema dp) (dp_index dp) r mw index = Ret (m', w', Inr rd)"
    and "shows_docs api rd cap to_text (live older (comm wr))"
    and "extract_query_string params body = ''*''" "sp_size params = Some size0" "sp_from params = None"
    and "Option.bind body sb_from = None" "Option.bind body sb_aggs = None"
    and "length (accepted (sy_results s) index) \<le> unat size0" "unat size0 \<le> cap"
  shows "\<exists>resp. index_search_handler (dp_schema dp) (dp_index dp) api took r mw index params body =
      Ret (m', w', Inr resp) \<and>
    sr_total_value resp = of_nat (length (sr_hits resp)) \<and>
    mset (map hit_source (sr_hits resp)) \<subseteq>#
      mset (map (kept \<circ> posted (dp_json dp)) (accepted (sy_results s) index)) \<and>
    (purges_done (sy_purged s) index = [] \<longrightarrow>
       mset (map hit_source (sr_hits resp)) =
         mset (map (kept \<circ> posted (dp_json dp)) (accepted (sy_results s) index)))"
  by (rule hits_are_posted [OF assms])

section \<open>Witness\<close>

text \<open>
  The run of \<open>demo_system_run\<close> with its one document, and a search whose readers show it. The JSON library
  of the instance knows one document, which is what its store keeps of any value.
\<close>

definition found_text :: string where
  "found_text = ''{}''"

definition demo_reader_search :: "(u64, unit, unit, unit, unit, unit, string, nat) search_api" where
  "demo_reader_search =
     \<lparr>sa_searcher = (\<lambda>_. ()), sa_later_searcher = (\<lambda>_. ()), sa_has_field = (\<lambda>_ f. f = ''_source''),
      sa_parse = (\<lambda>_ _ _. Inr ()), sa_all = (),
      sa_search = (\<lambda>_ _ limit. Inr (1, take (unat limit) [(5, found_text)])),
      sa_search_aggs = (\<lambda>_ _ _ _. Inl ''none''), sa_merge = (\<lambda>_ _. ()), sa_final = (\<lambda>_ _. None),
      sa_doc = (\<lambda>_ addr. Inr addr),
      sa_json = (\<lambda>s. Some (JObject [(''_source'', JArray [JObject host_document])])),
      sa_cmp = default\<rparr>"

lemma demo_shows: "shows_docs demo_reader_search rd 1000 (\<lambda>s. s) [found_text]"
proof -
  have "ranks demo_reader_search rd ''*'' 1000 [(5, found_text)] ((\<lambda>s. s) \<circ> (\<lambda>s. s))"
    by (auto simp: ranks_def demo_reader_search_def default_query_field_def build_query_def trim_solid solid_def)
  then show ?thesis
    unfolding shows_docs_def by (intro exI [of _ "[(5, found_text)]"] exI [of _ "\<lambda>s. s"]) simp
qed

lemma demo_index_law: "index_law (dp_index demo_deps)"
  by (auto simp: index_law_def demo_deps_def demo_index_api_def)

lemma demo_builder_law: "builder_law (dp_schema demo_deps) (\<lambda>b. b)"
  by (auto simp: builder_law_def demo_deps_def list_api_def split: if_splits)

lemma demo_source_law:
  "source_law demo_deps demo_reader_search (\<lambda>b. b) (\<lambda>s. s) (\<lambda>_. JObject host_document)"
  by (simp add: source_law_def demo_reader_search_def json_get_def)

definition find_all :: SearchQueryParams where
  "find_all = \<lparr>sp_q = None, sp_from = None, sp_size = Some 10\<rparr>"

theorem posted_is_found_witness:
  "\<exists>p s0 s m w resp. start_program (\<lambda>_. Inl []) here empty_platform = Ret (Inr p) \<and> boot p = Some s0 \<and>
    try_fold (system_step (\<lambda>_. 7) demo_chrono demo_deps) s0 demo_events = Some s \<and>
    index_search_handler list_api demo_index_api demo_reader_search 0 logs_registry
      (new_manager ''d'' 20, []) ''logs'' find_all None = Ret (m, w, Inr resp) \<and>
    sr_total_value resp = 1 \<and> mset (map hit_source (sr_hits resp)) = {# JObject host_document #}"
proof -
  obtain p s0 s off where d: "start_program (\<lambda>_. Inl []) here empty_platform = Ret (Inr p)" "boot p = Some s0"
      "try_fold (system_step (\<lambda>_. 7) demo_chrono demo_deps) s0 demo_events = Some s"
      "sy_indexer s = demo_actor ([Inl ''{}''], [], None) [(''logs'', off)] 1" "sy_delivered s = 1"
      "sy_results s = [(logs_event, Inr ())]" "ap_sent (sy_appender s) = [(logs_event, off)]" "sy_purged s = []"
    by (rule demo_system_run)
  let ?s' = "s\<lparr>sy_indexer := (demo_actor ([], [Inl ''{}''], Some (decimal_text (unat off))) [] 1)\<lparr>ac_docs_since_commit := 0\<rparr>\<rparr>"
  have tick: "system_step (\<lambda>_. 7) demo_chrono demo_deps s Timer = Some ?s'"
    using demo_commit [of "[Inl ''{}'']" "[]" None off 1] by (simp add: with_indexer_def d(4)) (simp add: demo_actor_def)
  have reader: "get_reader (dp_schema demo_deps) (dp_index demo_deps) logs_registry (new_manager ''d'' 20, []) ''logs'' =
      Ret ((new_manager ''d'' 20)\<lparr>im_indexes := [(''logs'', (''d/indexes/logs'', logs_schema))],
        im_readers := [(''logs'', 20)]\<rparr>, [''d/indexes/logs''], Inr 20)"
    using demo_lookup by (simp add: get_reader_def demo_deps_def demo_index_api_def new_manager_def)
  have fresh: "base = []" if "opened (dp_writer demo_deps) (fst \<circ> snd) base" for base
    using that by (auto simp: opened_def demo_deps_def demo_writer_api_def)
  have one: "accepted (sy_results s) ''logs'' = [logs_event]"
    by (simp add: d(6) accepted_def logs_event_def)
  let ?wr = "([], [Inl ''{}''], Some (decimal_text (unat off)))"
  obtain resp where "index_search_handler list_api demo_index_api demo_reader_search 0 logs_registry
      (new_manager ''d'' 20, []) ''logs'' find_all None =
        Ret ((new_manager ''d'' 20)\<lparr>im_indexes := [(''logs'', (''d/indexes/logs'', logs_schema))],
          im_readers := [(''logs'', 20)]\<rparr>, [''d/indexes/logs''], Inr resp)"
      "sr_total_value resp = of_nat (length (sr_hits resp))"
      "mset (map hit_source (sr_hits resp)) = mset (map (\<lambda>_. JObject host_document) [logs_event])"
    using posted_is_found [OF demo_law demo_reliable demo_index_law demo_builder_law demo_source_law fresh d(1-3) _
        tick _ reader, of ?wr 1000 "\<lambda>_ _ _. False" find_all None 10 0]
      d(5,7,8) one demo_shows [unfolded found_text_def, of 20]
    by (auto simp: demo_actor_def find_all_def extract_query_string_def purges_done_def demo_deps_def comp_def live_def)
  moreover from this have "length (sr_hits resp) = 1"
    by (metis length_Cons length_map list.size(3) One_nat_def size_mset)
  ultimately show ?thesis
    using d(1-3) by fastforce
qed

end
