(* ===== verification/Clients.thy ===== *)
theory Clients
  imports Server_Run Posted_Found
begin

text \<open>
  What the clients of the running server can rely on: the properties of \<open>Server_Run\<close> as theorems about
  the requests they send and the answers they get, with a run of the server that shows they apply.
\<close>

section \<open>The server and the tasks\<close>

text \<open>
  C6. The server implements the system. Whatever requests clients send, in any order and interleaved in
  any way with the tasks, the state of the running server is one the system of the tasks reaches by
  itself, with requests to the appender that have distinct identities; and every answer to an
  ingestion request, which has the key and an address the table names, is the one its handler makes
  from the appender's answers to exactly the documents it sent.
\<close>

theorem server_runs_system:
  assumes "try_fold (server_step su crc chr dp) (start_server s0 files outcomes) es = Some s"
  shows "\<exists>ts. try_fold (system_step crc chr dp) s0 ts = Some (sv_system s) \<and>
    distinct (map req_id (requests ts)) \<and>
    (\<forall>req resp. (req, IngestReply resp) \<in> set (sv_answers s) \<longrightarrow>
       (\<exists>kind sent answers. asked su req kind \<and> set sent \<subseteq> set (requests ts) \<and>
          list_all2 (\<lambda>r answer. (req_id r, answer) \<in> set (ap_replies (sy_appender (sv_system s)))) sent answers \<and>
          ask su kind answers = (map req_event sent, resp)))"
proof -
  obtain ts where "tracks su crc chr dp s0 ts s"
    using assms by (rule run_tracks)
  then show ?thesis
    unfolding tracks_def ingest_ok_def by (intro exI [of _ ts]) simp
qed

text \<open>Every answered document of the run is stored.\<close>

lemma answered_is_stored:
  assumes "writer_law (dp_writer dp) pend comm pay" "reliable (dp_writer dp)"
    and "start_program yaml env pf = Ret (Inr p)" "boot p = Some s0"
    and "\<And>path f. pf_log_files pf path = Some f \<Longrightarrow> lf_synced f \<le> length (lf_bytes f)"
    and "try_fold (server_step su crc chr dp) (start_server s0 files outcomes) es = Some s"
    and "(req, IngestReply resp) \<in> set (sv_answers s)"
    and "sy_delivered (sv_system s) = length (ap_sent (sy_appender (sv_system s)))"
  obtains kind evs answers where "asked su req kind" "ask su kind answers = (evs, resp)" "length answers = length evs"
    "\<And>i. i < length evs \<Longrightarrow> answers ! i = Acked \<Longrightarrow> stored crc chr dp pend comm (sv_system s) (evs ! i)"
proof -
  obtain ts where ts: "tracks su crc chr dp s0 ts s"
    using assms(6) by (rule run_tracks)
  then have ids: "distinct (map req_id (requests ts))"
    by (simp add: tracks_def)
  obtain kind sent answers where a: "asked su req kind" "set sent \<subseteq> set (requests ts)"
      "list_all2 (\<lambda>r answer. (req_id r, answer) \<in> set (ap_replies (sy_appender (sv_system s)))) sent answers"
      "ask su kind answers = (map req_event sent, resp)"
    using ts assms(7) unfolding tracks_def ingest_ok_def by blast
  have "stored crc chr dp pend comm (sv_system s) (map req_event sent ! i)"
    if "i < length sent" "answers ! i = Acked" for i
  proof -
    have "sent ! i \<in> set (requests ts)" "(req_id (sent ! i), Acked) \<in> set (ap_replies (sy_appender (sv_system s)))"
      using a(2,3) that by (auto simp: list_all2_conv_all_nth dest: nth_mem)
    then have "stored crc chr dp pend comm (sv_system s) (req_event (sent ! i))"
      by (intro acked_is_stored [OF assms(1-4) _ _ ids]) (use ts assms(5,8) in \<open>auto simp: tracks_def\<close>)
    with that show ?thesis by simp
  qed
  then show thesis
    using list_all2_lengthD [OF a(3)] by (intro that [OF a(1,4)]) simp_all
qed




section \<open>What is indexed and found\<close>



section \<open>Witnesses\<close>

text \<open>
  A server without a key, in front of the program of \<open>demo_program\<close>: an index is created, then a
  document is posted.
\<close>

definition demo_site ::
    "(string list, unit, u64, unit, unit, unit, unit, string, nat) site" where
  "demo_site =
     \<lparr>su_path = Inr, su_text = (\<lambda>req. Inr (str_of_bytes (hq_body req))),
      su_definition = (\<lambda>_. Inr logs_definition), su_params = (\<lambda>_. Inr find_all),
      su_search_body = (\<lambda>_. Inr None), su_pick = demo_pick, su_codec = demo_codec,
      su_from_str = (\<lambda>_. Some (JObject [(''index'', JObject [(''_index'', JString ''logs'')])])),
      su_search = demo_reader_search, su_stats = demo_stats, su_api_key = None, su_management = None,
      su_data_dir = ''d'', su_wipe = (\<lambda>_ w. w), su_version = ([], [], []), su_metrics = []\<rparr>"

definition put_logs :: http_request where
  "put_logs = \<lparr>hq_method = PUT, hq_path = ''/indexes/logs'', hq_headers = [], hq_query = [], hq_body = []\<rparr>"

definition post_doc :: http_request where
  "post_doc =
     \<lparr>hq_method = POST, hq_path = ''/logs/_doc'', hq_headers = [], hq_query = [], hq_body = as_bytes ''{}''\<rparr>"

definition post_bulk :: http_request where
  "post_bulk =
     \<lparr>hq_method = POST, hq_path = ''/_bulk'', hq_headers = [], hq_query = [],
      hq_body = as_bytes (''{index}'' @ [LF] @ ''{}'' @ [LF])\<rparr>"

lemma demo_routes:
  "app_router demo_pick PUT ''/indexes/logs'' = Some (CreateIndexHandler, Some ''logs'')"
  "app_router demo_pick POST ''/logs/_doc'' = Some (IngestDocHandler, Some ''logs'')"
  "app_router demo_pick POST ''/_bulk'' = Some (BulkHandler, None)"
  by (code_simp, code_simp, code_simp)

lemma demo_key: "auth_middleware None cell headers response = (Some None, Inr response)"
  if "cell = None \<or> cell = Some None"
  using that by (auto simp: auth_middleware_def get_expected_auth_header_def auth_header_of_def)

lemma demo_put:
  assumes "sy_registry s0 = new_registry"
  shows "\<exists>s1. serve_http demo_site demo_deps put_logs 0 (start_server s0 [] []) = Some s1 \<and>
    sv_system s1 = s0\<lparr>sy_registry := logs_registry\<rparr> \<and> sv_jobs s1 = [] \<and> sv_next s1 = 0 \<and> sv_cell s1 = Some None"
proof -
  have up: "upsert new_registry logs_definition = Ret (logs_registry, Inr ())"
    using logs_definition_passes
    by (simp add: upsert_def passes_check_def logs_registry_def new_registry_def)
  show ?thesis
    by (simp add: serve_http_def serve_def put_logs_def demo_site_def demo_routes demo_key start_server_def
        on_state_def with_path_def with_extracted_def serve_create_def create_index_handler_def api_of_def
        assms up fs_create_dir_all_def fs_write_def fs_pop_def demo_codec_def set_api_def logs_renamed)
qed

text \<open>The question of the two requests.\<close>

lemma demo_posts:
  assumes "sv_cell s = Some None" "sv_jobs s = []"
  shows "\<exists>s1. serve_http demo_site demo_deps post_doc 0 s = Some s1 \<and> s1 = s\<lparr>sv_jobs := sv_jobs s1\<rparr> \<and>
      sv_jobs s1 = [new_job demo_site post_doc (DocJob ''logs'' ''{}'')]"
    and "\<exists>s1. serve_http demo_site demo_deps post_bulk 0 s = Some s1 \<and> s1 = s\<lparr>sv_jobs := sv_jobs s1\<rparr> \<and>
      sv_jobs s1 = [new_job demo_site post_bulk (BulkJob (''{index}'' @ [LF] @ ''{}'' @ [LF]))]"
  using assms
  by (simp_all add: serve_http_def serve_def post_doc_def post_bulk_def demo_site_def demo_routes demo_key
      on_state_def with_path_def with_extracted_def add_job_def)

definition demo_requests :: "http_request \<Rightarrow> string list server_event list" where
  "demo_requests req = [Http put_logs 0, Http req 0, SendNext 0]"

definition demo_turns :: "string list server_event list" where
  "demo_turns = [Background WalLoop, Background Deliver, Respond 0]"

abbreviation demo_serve where
  "demo_serve \<equiv> server_step demo_site (\<lambda>_. 7) demo_chrono demo_deps"

lemma demo_server_run:
  assumes post: "\<And>s. sv_cell s = Some None \<Longrightarrow> sv_jobs s = [] \<Longrightarrow>
      \<exists>s1. serve_http demo_site demo_deps req 0 s = Some s1 \<and> s1 = s\<lparr>sv_jobs := sv_jobs s1\<rparr> \<and>
        sv_jobs s1 = [new_job demo_site req kind]"
    and one: "fst (ask demo_site kind []) = [logs_event]"
  obtains p s0 s3 s off where "start_program (\<lambda>_. Inl []) here empty_platform = Ret (Inr p)" "boot p = Some s0"
    "try_fold demo_serve (start_server s0 [] []) (demo_requests req) = Some s3"
    "sv_jobs s3 \<noteq> []" "jb_request (sv_jobs s3 ! 0) = req"
    "try_fold demo_serve (start_server s0 [] []) (demo_requests req @ demo_turns) = Some s"
    "(req, IngestReply (snd (ask demo_site kind [Acked]))) \<in> set (sv_answers s)"
    "sy_delivered (sv_system s) = length (ap_sent (sy_appender (sv_system s)))"
    "sy_results (sv_system s) = [(logs_event, Inr ())]" "sy_purged (sv_system s) = []"
    "sy_indexer (sv_system s) = demo_actor ([Inl ''{}''], [], None) [(''logs'', off)] 1" "sy_removed (sv_system s) = []"
    "ap_sent (sy_appender (sv_system s)) = [(logs_event, off)]"
proof -
  obtain p s0 t off where d: "start_program (\<lambda>_. Inl []) here empty_platform = Ret (Inr p)" "boot p = Some s0"
      "try_fold (system_step (\<lambda>_. 7) demo_chrono demo_deps) s0 (demo_events_of 0) = Some t"
      "sy_delivered t = 1" "sy_results t = [(logs_event, Inr ())]" "ap_sent (sy_appender t) = [(logs_event, off)]"
      "ap_replies (sy_appender t) = [(0, Acked)]" "sy_purged t = []" "sy_removed t = []"
      "sy_indexer t = demo_actor ([Inl ''{}''], [], None) [(''logs'', off)] 1"
    by (rule demo_run_of [of 0]) blast
  have reg: "sy_registry s0 = new_registry"
    using demo_program d(1,2) by (auto simp: boot_def initial_def)
  define r :: WalRequest where "r = \<lparr>req_id = 0, req_event = logs_event\<rparr>"
  define t1 where "t1 = s0\<lparr>sy_registry := logs_registry\<rparr>"
  define t2 where "t2 = t1\<lparr>sy_appender := appender_step (\<lambda>_. 7) (sy_appender t1) (Arrive r)\<rparr>"
  have "system_step (\<lambda>_. 7) demo_chrono demo_deps s0 (Define (Upsert logs_definition)) = Some t1"
    using demo_define by (simp add: t1_def reg del: reg_step.simps)
  moreover have request: "system_step (\<lambda>_. 7) demo_chrono demo_deps t1 (Request r) = Some t2"
    by (simp add: t2_def)
  ultimately obtain t3 where turns: "system_step (\<lambda>_. 7) demo_chrono demo_deps t2 WalLoop = Some t3"
      "system_step (\<lambda>_. 7) demo_chrono demo_deps t3 Deliver = Some t"
    using d(3) unfolding demo_events_of_def r_def [symmetric]
    by (auto simp del: system_step.simps split: option.splits)
  obtain s1 where s1: "demo_serve (start_server s0 [] []) (Http put_logs 0) = Some s1" "sv_system s1 = t1"
      "sv_jobs s1 = []" "sv_next s1 = 0" "sv_cell s1 = Some None"
    using demo_put [OF reg] by (auto simp: t1_def)
  obtain s2 where s2: "demo_serve s1 (Http req 0) = Some s2" "s2 = s1\<lparr>sv_jobs := sv_jobs s2\<rparr>"
      "sv_jobs s2 = [new_job demo_site req kind]"
    using post [OF s1(5,3)] by auto
  have "sv_system s2 = t1" "sv_next s2 = 0"
    using s1(2,4) by (subst s2(2), simp)+
  define s3 where "s3 = s2\<lparr>sv_system := t2, sv_next := 1, sv_jobs := [(new_job demo_site req kind)\<lparr>jb_pending := [], jb_ids := [0]\<rparr>]\<rparr>"
  have s3: "demo_serve s2 (SendNext 0) = Some s3"
    using request \<open>sv_system s2 = t1\<close> \<open>sv_next s2 = 0\<close> s2(3) one
    by (simp add: send_next_def new_job_def s3_def r_def del: system_step.simps)
  define s where "s = respond demo_site 0 (s3\<lparr>sv_system := t\<rparr>)"
  have s4: "demo_serve s3 (Background WalLoop) = Some (s3\<lparr>sv_system := t3\<rparr>)"
    using turns(1) by (simp add: s3_def del: system_step.simps)
  have s5: "demo_serve (s3\<lparr>sv_system := t3\<rparr>) (Background Deliver) = Some (s3\<lparr>sv_system := t\<rparr>)"
    using turns(2) by (simp del: system_step.simps)
  have s: "sv_system s = t" "(req, IngestReply (snd (ask demo_site kind [Acked]))) \<in> set (sv_answers s)"
    using d(7) by (simp_all add: s_def respond_def s3_def new_job_def replies_to_def)
  have "try_fold demo_serve (start_server s0 [] []) (demo_requests req @ demo_turns) = Some s"
    using s1(1) s2(1) s3 s4 s5
    by (simp add: demo_requests_def demo_turns_def s_def del: server_step.simps) (simp add: s_def)
  moreover have "try_fold demo_serve (start_server s0 [] []) (demo_requests req) = Some s3"
    using s1(1) s2(1) s3 by (simp add: demo_requests_def del: server_step.simps)
  ultimately show ?thesis
    using d s by (intro that [of p s0 s3 s off]) (simp_all add: s3_def new_job_def)
qed

lemma demo_asks:
  "ask demo_site (DocJob ''logs'' ''{}'') [Acked] = ([logs_event], Inr (201, created_body ''logs''))"
  "ask demo_site (BulkJob (''{index}'' @ [LF] @ ''{}'' @ [LF])) [Acked] =
    ([logs_event], Inr (200, bulk_body [bulk_item ''logs'' 201] False))"
  by (simp_all add: ingest_doc_handler_def ingest_event_def logs_event_def as_bytes_def bulk_handler_def str_lines_def
      strip_eol_def strip_last_def blank_def demo_site_def meta_index_def json_get_def trim_solid solid_def)

lemma demo_doc_run:
  obtains p s0 s3 s off where "start_program (\<lambda>_. Inl []) here empty_platform = Ret (Inr p)" "boot p = Some s0"
    "try_fold demo_serve (start_server s0 [] []) (demo_requests post_doc) = Some s3"
    "sv_jobs s3 \<noteq> []" "jb_request (sv_jobs s3 ! 0) = post_doc"
    "try_fold demo_serve (start_server s0 [] []) (demo_requests post_doc @ demo_turns) = Some s"
    "(post_doc, IngestReply (Inr (201, created_body ''logs''))) \<in> set (sv_answers s)"
    "sy_delivered (sv_system s) = length (ap_sent (sy_appender (sv_system s)))"
    "sy_results (sv_system s) = [(logs_event, Inr ())]" "sy_purged (sv_system s) = []"
    "sy_indexer (sv_system s) = demo_actor ([Inl ''{}''], [], None) [(''logs'', off)] 1" "sy_removed (sv_system s) = []"
    "ap_sent (sy_appender (sv_system s)) = [(logs_event, off)]"
proof -
  have "fst (ask demo_site (DocJob ''logs'' ''{}'') []) = [logs_event]"
    using ask_sends [of demo_site "DocJob ''logs'' ''{}''" "[Acked]"] demo_asks(1) by (simp only: fst_conv)
  from demo_server_run [OF demo_posts(1) this] show ?thesis
    unfolding demo_asks snd_conv using that by blast
qed

theorem server_runs_system_witness:
  "\<exists>s0 s ts. try_fold demo_serve (start_server s0 [] []) (demo_requests post_doc @ demo_turns) = Some s \<and>
    try_fold (system_step (\<lambda>_. 7) demo_chrono demo_deps) s0 ts = Some (sv_system s) \<and>
    requests ts \<noteq> [] \<and> asked demo_site post_doc (DocJob ''logs'' ''{}'')"
proof -
  obtain s0 s where d: "try_fold demo_serve (start_server s0 [] []) (demo_requests post_doc @ demo_turns) = Some s"
      "(post_doc, IngestReply (Inr (201, created_body ''logs''))) \<in> set (sv_answers s)"
    by (rule demo_doc_run) blast
  from server_runs_system [OF d(1)] d(2) obtain ts kind sent answers where ts:
      "try_fold (system_step (\<lambda>_. 7) demo_chrono demo_deps) s0 ts = Some (sv_system s)"
      "asked demo_site post_doc kind" "set sent \<subseteq> set (requests ts)"
      "ask demo_site kind answers = (map req_event sent, Inr (201, created_body ''logs''))"
    by blast
  obtain index body where kind: "kind = DocJob index body"
    using ts(4) by (cases kind) (auto simp: bulk_handler_def split: prod.splits bool.splits)
  with ts(3,4) have "requests ts \<noteq> []"
    by (auto simp: ingest_doc_handler_def)
  moreover have "index = ''logs'' \<and> body = ''{}''"
    using ts(2) kind by (auto simp: asked_def concerns_def post_doc_def demo_site_def demo_routes)
  ultimately show ?thesis
    using d(1) ts(1,2) kind by blast
qed





definition find_logs :: http_request where
  "find_logs =
     \<lparr>hq_method = GET, hq_path = ''/indexes/logs/_search'', hq_headers = [], hq_query = ''size=10'', hq_body = []\<rparr>"

lemma demo_search_route:
  "app_router demo_pick GET ''/indexes/logs/_search'' = Some (IndexSearchHandler, Some ''logs'')"
  by code_simp

lemma demo_reader:
  "\<exists>m w. get_reader list_api demo_index_api r
      (ac_manager (demo_actor wr dirty docs), ac_world (demo_actor wr dirty docs)) ''logs'' = Ret (m, w, Inr 20)"
proof -
  have "map_of (im_readers (ac_manager (demo_actor wr dirty docs))) ''logs'' = None"
    by (simp add: demo_actor_def new_manager_def)
  then show ?thesis
    by (simp add: get_reader_def demo_cached) (simp add: demo_actor_def demo_index_api_def new_manager_def)
qed


end
