(* ===== verification/Server_Safe.thy ===== *)
theory Server_Safe
  imports Clients
begin

text \<open>
  When the process survives: a release build ends at the first panic, so this says which requests and
  which definitions can end the server, and that no others can, in whatever order they come.
\<close>

section \<open>Definitions and requests that cannot end the process\<close>

text \<open>
  A schema can be built for the definition, its retention string does not end inside a character, and
  if it is accepted the period is one chrono can subtract from the current time.
\<close>

definition tame :: "('b, 'x) schema_api \<Rightarrow> int \<Rightarrow> IndexDefinition \<Rightarrow> bool" where
  "tame sapi reach d \<longleftrightarrow>
     build_schema sapi d \<noteq> Panicked \<and>
     (\<forall>rs. idx_retention d = Some rs \<longrightarrow>
        \<not> (1 < length rs \<and> continuation (of_char (last rs))) \<and>
        (retention_form rs \<longrightarrow> int (retention_secs rs) \<le> max_seconds \<and> int (retention_secs rs) \<le> reach))"

definition tame_op :: "('b, 'x) schema_api \<Rightarrow> int \<Rightarrow> reg_op \<Rightarrow> bool" where
  "tame_op sapi reach op \<longleftrightarrow>
     (case op of Register d \<Rightarrow> tame sapi reach d | Upsert d \<Rightarrow> tame sapi reach d | Remove n \<Rightarrow> True)"

definition tame_event :: "('b, 'x) schema_api \<Rightarrow> int \<Rightarrow> 'w system_event \<Rightarrow> bool" where
  "tame_event sapi reach e \<longleftrightarrow> (\<forall>op. e = Define op \<longrightarrow> tame_op sapi reach op)"

text \<open>A request carries no other definition, and its page does not wrap to an empty one.\<close>

definition page_fits :: "SearchQueryParams \<Rightarrow> 'g SearchRequestBody option \<Rightarrow> bool" where
  "page_fits params body \<longleftrightarrow>
     (let from0 = or_default (sp_from params) (Option.bind body sb_from) 0;
          size0 = or_default (sp_size params) (Option.bind body sb_size) 10
      in size0 = 0 \<or> from0 + size0 \<noteq> 0)"

definition tame_request ::
    "('w, 'g, 'rd, 'sv, 'q, 'ia, 'ar, 'addr, 'sc) site \<Rightarrow> ('b, 'x) schema_api \<Rightarrow> int \<Rightarrow> 'w server_event \<Rightarrow> bool" where
  "tame_request su sapi reach e \<longleftrightarrow>
     (\<forall>req took. e = Http req took \<longrightarrow>
        (\<forall>d. su_definition su req = Inr d \<longrightarrow> tame sapi reach d) \<and>
        (\<forall>params body. su_params su req = Inr params \<longrightarrow> su_search_body su req = Inr body \<longrightarrow>
           page_fits params body))"

section \<open>The tasks\<close>

definition calm :: "('b, 'x) schema_api \<Rightarrow> int \<Rightarrow> ('w, 'i, 'rd, 'wr) system \<Rightarrow> bool" where
  "calm sapi reach s \<longleftrightarrow>
     actor_inv (sy_indexer s) \<and> reg_inv (sy_registry s) \<and>
     (\<forall>(n, d) \<in> set (reg_indexes (sy_registry s)). tame sapi reach d)"

lemma tame_rename [simp]: "tame sapi reach (d\<lparr>idx_name := n\<rparr>) = tame sapi reach d"
  by (simp add: tame_def build_schema_def)

lemma tame_validate: "tame sapi reach d \<Longrightarrow> validate d \<noteq> Panicked"
  by (auto simp: tame_def validate_def validate_schema_def is_valid_retention_outcomes split: option.split)

lemma calm_builds: "calm sapi reach s \<Longrightarrow> builds sapi (sy_registry s) n"
  by (auto simp: calm_def builds_def reg_get_def tame_def split: if_splits dest!: map_of_SomeD)

lemma reg_step_entries:
  assumes "reg_step (Ret r) op = Ret r'" "(n, d) \<in> set (reg_indexes r')"
  shows "(n, d) \<in> set (reg_indexes r) \<or> op \<in> {Register d, Upsert d}"
proof (cases op)
  case (Register e)
  then obtain res where "register r e = Ret (r', res)"
    using assms(1) by (auto simp: run_bind_case split: run.splits)
  then have "r' = r \<or> reg_indexes r' = AList.update (idx_name e) e (reg_indexes r)"
    by (auto simp: register_def run_bind_case split: run.splits sum.splits if_splits)
  with assms(2) Register show ?thesis
    by (auto dest: set_update_cases)
next
  case (Upsert e)
  then obtain res where "upsert r e = Ret (r', res)"
    using assms(1) by (auto simp: run_bind_case split: run.splits)
  then have "r' = r \<or> reg_indexes r' = AList.update (idx_name e) e (reg_indexes r)"
    by (auto simp: upsert_def run_bind_case split: run.splits sum.splits if_splits)
  with assms(2) Upsert show ?thesis
    by (auto dest: set_update_cases)
next
  case (Remove k)
  then have "r' = fst (reg_remove r k)"
    using assms(1) by simp
  then have "r' = r \<or> reg_indexes r' = AList.delete k (reg_indexes r)"
    by (auto simp: reg_remove_def split: option.splits)
  with assms(2) show ?thesis
    by (auto dest: set_delete_subset)
qed

lemma calm_registry:
  assumes "calm sapi reach s" "tame_op sapi reach op"
  shows "\<exists>r. reg_step (Ret (sy_registry s)) op = Ret r \<and> calm sapi reach (s\<lparr>sy_registry := r\<rparr>)"
proof -
  have ret: "reg_step (Ret (sy_registry s)) op \<noteq> Panicked"
    using assms(2) tame_validate
    by (cases op) (auto simp: tame_op_def register_def upsert_def run_bind_case split: run.splits sum.splits)
  then obtain r where r: "reg_step (Ret (sy_registry s)) op = Ret r"
    by (cases "reg_step (Ret (sy_registry s)) op") auto
  have "reg_inv r"
    using reg.step_inv [of "Ret (sy_registry s)" op] r assms(1) by (simp add: run_inv_def calm_def)
  moreover have "tame sapi reach d" if "(n, d) \<in> set (reg_indexes r)" for n d
  proof -
    have "(n, d) \<in> set (reg_indexes (sy_registry s)) \<or> op \<in> {Register d, Upsert d}"
      using reg_step_entries [OF r that] .
    with assms show ?thesis by (auto simp: calm_def tame_op_def)
  qed
  ultimately show ?thesis
    using r assms(1) by (auto simp: calm_def)
qed

lemma reader_returns:
  assumes "builds sapi r n"
  obtains m w res where "get_reader sapi iapi r mw n = Ret (m, w, res)"
proof -
  obtain m w x where "get_or_create_index sapi iapi r mw n = Ret (m, w, x)"
    by (rule get_or_create_builds [OF assms])
  then have "get_reader sapi iapi r mw n \<noteq> Panicked"
    by (simp add: get_reader_def split: option.split sum.split)
  with that show ?thesis by (cases "get_reader sapi iapi r mw n") auto
qed

lemma calm_indexer:
  "calm sapi reach s \<Longrightarrow> actor_inv a \<Longrightarrow> calm sapi reach (s\<lparr>sy_indexer := a\<rparr>)"
  by (simp add: calm_def)

lemma calm_frame [simp]:
  "calm sapi reach (s\<lparr>sy_appender := ap\<rparr>) = calm sapi reach s"
  "calm sapi reach (s\<lparr>sy_delivered := k\<rparr>) = calm sapi reach s"
  "calm sapi reach (s\<lparr>sy_results := res\<rparr>) = calm sapi reach s"
  "calm sapi reach (s\<lparr>sy_purges := ps\<rparr>) = calm sapi reach s"
  "calm sapi reach (s\<lparr>sy_purged := qs\<rparr>) = calm sapi reach s"
  "calm sapi reach (s\<lparr>sy_removed := rs\<rparr>) = calm sapi reach s"
  by (simp_all add: calm_def)

lemma calm_actor_step:
  assumes "calm (dp_schema dp) reach s"
  shows "\<exists>a. actor_step dp (Ret (sy_indexer s)) (sy_registry s, e) = Ret a \<and> actor_inv a"
proof -
  have inv: "actor_inv (sy_indexer s)"
    using assms by (simp add: calm_def)
  have "actor_step dp (Ret (sy_indexer s)) (sy_registry s, e) \<noteq> Panicked"
    using process_event_builds [OF calm_builds [OF assms]] purge_builds [OF calm_builds [OF assms] inv]
    by (cases e) (auto simp: run_simps Let_def split: if_splits simp del: run_bind.simps)
  then obtain a where a: "actor_step dp (Ret (sy_indexer s)) (sy_registry s, e) = Ret a"
    by (cases "actor_step dp (Ret (sy_indexer s)) (sy_registry s, e)") auto
  have "actor_inv a"
    using a inv
    by (cases e) (auto simp: run_simps Let_def split: if_splits sum.splits simp del: run_bind.simps
        dest: process_event_keeps purge_keeps intro!: commit_all_keeps, blast intro: process_event_keeps)
  with a show ?thesis by blast
qed

lemma calm_system_step:
  assumes "chrono_law chr mk reach before" "calm (dp_schema dp) reach s" "tame_event (dp_schema dp) reach e"
  shows "\<exists>s'. system_step crc chr dp s e = Some s' \<and> calm (dp_schema dp) reach s'"
proof (cases e)
  case Deliver
  show ?thesis
  proof (cases "sy_delivered s < length (ap_sent (sy_appender s))")
    case True
    obtain ev off where ev: "ap_sent (sy_appender s) ! sy_delivered s = (ev, off)" by fastforce
    obtain a1 res where "process_event dp (sy_registry s) (sy_indexer s) ev off = Ret (a1, res)"
      using process_event_builds [OF calm_builds [OF assms(2)]]
      by (cases "process_event dp (sy_registry s) (sy_indexer s) ev off") auto
    moreover obtain a where "actor_step dp (Ret (sy_indexer s)) (sy_registry s, Receive ev off) = Ret a" "actor_inv a"
      using calm_actor_step [OF assms(2)] by blast
    ultimately show ?thesis
      using True ev assms(2) Deliver
      by (simp add: deliver_def with_indexer_def calm_indexer del: actor_step.simps)
  qed (use assms(2) Deliver in \<open>simp add: deliver_def\<close>)
next
  case DeliverPurge
  show ?thesis
  proof (cases "sy_purges s")
    case (Cons cmd purges)
    obtain n cutoff where cmd: "cmd = (n, cutoff)" by (cases cmd)
    have "actor_inv (sy_indexer s)"
      using assms(2) by (simp add: calm_def)
    then obtain a1 res where "purge_old_docs dp (sy_registry s) (sy_indexer s) n cutoff = Ret (a1, res)"
      using purge_builds [OF calm_builds [OF assms(2)]]
      by (cases "purge_old_docs dp (sy_registry s) (sy_indexer s) n cutoff") auto
    moreover obtain a where "actor_step dp (Ret (sy_indexer s)) (sy_registry s, PurgeCommand n cutoff) = Ret a" "actor_inv a"
      using calm_actor_step [OF assms(2)] by blast
    ultimately show ?thesis
      using Cons cmd assms(2) DeliverPurge
      by (simp add: deliver_purge_def with_indexer_def calm_indexer del: actor_step.simps)
  qed (use assms(2) DeliverPurge in \<open>simp add: deliver_purge_def\<close>)
next
  case Timer
  obtain a where "actor_step dp (Ret (sy_indexer s)) (sy_registry s, Tick) = Ret a" "actor_inv a"
    using calm_actor_step [OF assms(2)] by blast
  with assms(2) Timer show ?thesis
    by (simp add: with_indexer_def calm_indexer del: actor_step.simps)
next
  case (Define op)
  with calm_registry [OF assms(2), of op] assms(3) show ?thesis
    by (auto simp: tame_event_def simp del: reg_step.simps)
next
  case (RetentionRound index_dir data_dir removes)
  have "passes_check d" if "d \<in> set (reg_list (sy_registry s))" for d
    using assms(2) that by (auto simp: calm_def reg_list_def reg_inv_def split: if_splits)
  moreover have "int (retention_secs rs) \<le> max_seconds \<and> int (retention_secs rs) \<le> reach"
    if "d \<in> set (reg_list (sy_registry s))" "idx_retention d = Some rs" for d rs
  proof -
    have "tame (dp_schema dp) reach d"
      using assms(2) that(1) by (auto simp: calm_def reg_list_def split: if_splits)
    moreover have "retention_form rs"
      using \<open>\<And>d. d \<in> set (reg_list (sy_registry s)) \<Longrightarrow> passes_check d\<close> [OF that(1)] that(2)
      by (auto simp: passes_check_def validate_def validate_schema_def is_valid_retention_outcomes split: if_splits)
    ultimately show ?thesis
      using that(2) by (simp add: tame_def)
  qed
  ultimately obtain cmds where "apply_retention chr (sy_registry s) = Ret cmds"
    using retention_loop_commands [OF assms(1), of "reg_list (sy_registry s)"] by (simp add: apply_retention_def)
  with assms(2) RetentionRound show ?thesis
    by (simp add: retention_round_def retention_tick_def)
next
  case (OpenReader n)
  obtain m w res where "get_reader (dp_schema dp) (dp_index dp) (sy_registry s)
      (ac_manager (sy_indexer s), ac_world (sy_indexer s)) n = Ret (m, w, res)"
    by (rule reader_returns [OF calm_builds [OF assms(2)]])
  with assms(2) OpenReader show ?thesis
    by (simp add: open_reader_def calm_def)
qed (use assms(2) in \<open>simp_all add: calm_def\<close>)

interpretation calm_system: refining_machine "system_step crc chr dp" "\<lambda>_ _. ()"
    "\<lambda>_ s. chrono_law chr mk reach before \<and> calm (dp_schema dp) reach s" "tame_event (dp_schema dp) reach"
  for crc chr dp mk reach before
  by unfold_locales (use calm_system_step in blast)

section \<open>The handlers\<close>

lemma serve_search_returns:
  assumes "calm (dp_schema dp) reach (sv_system s)" "page_fits params body"
  shows "fst (serve_search su dp took index params body s) \<noteq> None"
proof -
  obtain m w res where g: "get_reader (dp_schema dp) (dp_index dp) (sy_registry (sv_system s)) (manager_of s) index = Ret (m, w, res)"
    by (rule reader_returns [OF calm_builds [OF assms(1)]])
  let ?readers = "case res of Inr reader \<Rightarrow> [reader] | Inl _ \<Rightarrow> []"
  have "execute_search (su_search su) took ?readers q
      (or_default (sp_from params) (Option.bind body sb_from) 0)
      (or_default (sp_size params) (Option.bind body sb_size) 10) aggs \<noteq> Panicked" for q aggs
  proof (cases res)
    case (Inl e)
    then show ?thesis by (simp add: execute_search_def Let_def split: sum.split)
  next
    case (Inr rd)
    with assms(2) show ?thesis by (auto simp: one_reader_panics page_fits_def Let_def)
  qed
  then show ?thesis
    by (auto simp: serve_search_def index_search_handler_def g Let_def run_bind_case split: run.split sum.split)
qed

lemma stats_loop_returns:
  "\<forall>n. builds sapi r n \<Longrightarrow> stats_loop sapi iapi api r data_dir mw acc defs \<noteq> Panicked"
proof (induction defs arbitrary: mw acc)
  case (Cons d defs)
  obtain a b c where acc: "acc = (a, b, c)" by (cases acc)
  obtain m w res where "get_reader sapi iapi r mw (idx_name d) = Ret (m, w, res)"
    using Cons.prems reader_returns by metis
  with Cons acc show ?case by (simp add: Let_def split: sum.split)
qed simp

lemma cat_rows_returns:
  "\<forall>n. builds sapi r n \<Longrightarrow> cat_rows sapi iapi api r data_dir mw defs \<noteq> Panicked"
proof (induction defs arbitrary: mw)
  case (Cons d defs)
  obtain m w res where "get_reader sapi iapi r mw (idx_name d) = Ret (m, w, res)"
    using Cons.prems reader_returns by metis
  with Cons show ?case by (simp add: Let_def run_bind_case split: run.split)
qed simp

lemma serve_create_returns:
  assumes "tame sapi reach payload"
  shows "fst (serve_create su index payload s) \<noteq> None"
proof -
  have "validate (payload\<lparr>idx_name := index\<rparr>) \<noteq> Panicked"
    by (rule tame_validate) (use assms in simp)
  then obtain st resp where
      "create_index_handler (su_codec su) (su_management su) (api_of (su_data_dir su) s) index payload = Ret (st, resp)"
    using create_returns by blast
  then show ?thesis
    by (simp add: serve_create_def split: prod.split)
qed

lemma handle_returns:
  assumes "calm (dp_schema dp) reach (sv_system s)" "tame_request su (dp_schema dp) reach (Http req took)"
  shows "fst (handle su dp req took e cap s) \<noteq> None"
proof -
  have all: "\<forall>n. builds (dp_schema dp) (sy_registry (sv_system s)) n"
    using calm_builds [OF assms(1)] by blast
  have path: "fst (with_path f cap s g) \<noteq> None" if "\<And>index. fst (g index) \<noteq> None" for f g
    using that by (simp add: with_path_def split: option.split sum.split)
  show ?thesis
  proof (cases e)
    case StatsHandler
    have "stats_loop (dp_schema dp) (dp_index dp) (su_stats su) (sy_registry (sv_system s)) (su_data_dir su)
        (manager_of s) (0, 0, 0) (reg_list (sy_registry (sv_system s))) \<noteq> Panicked"
      by (rule stats_loop_returns [OF all])
    with StatsHandler show ?thesis
      by (auto simp: serve_stats_def stats_handler_def run_bind_case split: run.split)
  next
    case CatIndexesHandler
    have "cat_rows (dp_schema dp) (dp_index dp) (su_stats su) (sy_registry (sv_system s)) (su_data_dir su)
        (manager_of s) (reg_list (sy_registry (sv_system s))) \<noteq> Panicked"
      by (rule cat_rows_returns [OF all])
    with CatIndexesHandler show ?thesis
      by (auto simp: serve_cat_def cat_indexes_handler_def split: run.split)
  next
    case CreateIndexHandler
    have "fst (with_extracted (su_definition su req) s (\<lambda>payload. serve_create su index payload s)) \<noteq> None" for index
      using assms(2) serve_create_returns [of "dp_schema dp" reach _ su index s]
      by (cases "su_definition su req") (auto simp: with_extracted_def tame_request_def)
    then show ?thesis
      unfolding CreateIndexHandler handle.simps by (rule path)
  next
    case IndexSearchHandler
    have "fst (with_extracted (su_params su req) s (\<lambda>params.
        with_extracted (su_search_body su req) s (\<lambda>body. serve_search su dp took index params body s))) \<noteq> None" for index
      using assms(2) serve_search_returns [OF assms(1), of _ _ su took index]
      by (cases "su_params su req"; cases "su_search_body su req") (auto simp: with_extracted_def tame_request_def)
    then show ?thesis
      unfolding IndexSearchHandler handle.simps by (rule path)
  qed (simp_all add: with_extracted_def add_job_def serve_delete_def Let_def path with_path_def
      split: prod.split sum.split option.split)
qed

text \<open>What the handlers leave to the tasks is calm again.\<close>

lemma calm_registry_only:
  "calm sapi reach s \<Longrightarrow> r = sy_registry s \<or> (\<exists>op. tame_op sapi reach op \<and> reg_step (Ret (sy_registry s)) op = Ret r) \<Longrightarrow>
   calm sapi reach (s\<lparr>sy_registry := r\<rparr>)"
  using calm_registry by fastforce

text \<open>What a handler leaves to the tasks is calm again.\<close>

lemma calm_registry_change:
  assumes "calm sapi reach s"
    and "r = sy_registry s \<or> (\<exists>op. tame_op sapi reach op \<and> reg_step (Ret (sy_registry s)) op = Ret r)"
  shows "calm sapi reach (s\<lparr>sy_registry := r\<rparr>)"
  using assms(2)
proof
  assume "r = sy_registry s"
  with assms(1) show ?thesis by simp
next
  assume "\<exists>op. tame_op sapi reach op \<and> reg_step (Ret (sy_registry s)) op = Ret r"
  then obtain op where op: "tame_op sapi reach op" "reg_step (Ret (sy_registry s)) op = Ret r" by blast
  with calm_registry [OF assms(1) op(1)] show ?thesis by (auto simp del: reg_step.simps)
qed

lemma calm_manager [simp]: "calm sapi reach (sv_system (set_manager m w s)) = calm sapi reach (sv_system s)"
  by (simp add: calm_def set_manager_def)

lemma serve_create_calm:
  assumes "serve_create su index payload s = (Some s', out)" "calm sapi reach (sv_system s)" "tame sapi reach payload"
  shows "calm sapi reach (sv_system s')"
proof -
  obtain st status body where h: "create_index_handler (su_codec su) (su_management su) (api_of (su_data_dir su) s)
      index payload = Ret (st, status, body)" and s': "s' = set_api st s"
    using assms(1) by (auto simp: serve_create_def split: run.splits)
  have "as_registry st = sy_registry (sv_system s) \<or>
      (\<exists>op. tame_op sapi reach op \<and> reg_step (Ret (sy_registry (sv_system s))) op = Ret (as_registry st))"
    using create_registry [OF h] assms(3) unfolding api_of_def
    by (auto simp: tame_op_def simp del: reg_step.simps intro!: exI [of _ "Upsert (payload\<lparr>idx_name := index\<rparr>)"])
  then show ?thesis
    using calm_registry_change [OF assms(2)] by (simp add: s' set_api_def)
qed

lemma serve_delete_calm:
  assumes "serve_delete su index s = (Some s', out)" "calm sapi reach (sv_system s)"
  shows "calm sapi reach (sv_system s')"
proof -
  obtain st status body where h: "delete_index_handler (su_codec su) (su_management su) (api_of (su_data_dir su) s)
      index = (st, status, body)"
    by (metis prod_cases3)
  have "as_registry st = sy_registry (sv_system s) \<or>
      (\<exists>op. tame_op sapi reach op \<and> reg_step (Ret (sy_registry (sv_system s))) op = Ret (as_registry st))"
    using delete_registry [OF h] unfolding api_of_def
    by (cases "status = 200") (auto simp: tame_op_def simp del: reg_step.simps intro!: exI [of _ "Remove index"])
  then have "calm sapi reach (sv_system (set_api st s))"
    using calm_registry_change [OF assms(2)] by (simp add: set_api_def)
  then show ?thesis
    using assms(1) h by (auto simp: serve_delete_def Let_def split: if_splits)
qed

lemma handle_calm:
  assumes "handle su dp req took e cap s = (Some s', out)" "calm (dp_schema dp) reach (sv_system s)"
    and "tame_request su (dp_schema dp) reach (Http req took)"
  shows "calm (dp_schema dp) reach (sv_system s')"
proof -
  let ?calm = "calm (dp_schema dp) reach (sv_system s')"
  have path: ?calm if "with_path f cap s g = (Some s', out)" "\<And>index. g index = (Some s', out) \<Longrightarrow> ?calm" for f g
    using that(1) by (cases rule: with_path_cases) (use that(2) assms(2) in auto)
  show ?thesis
  proof (cases e)
    case StatsHandler
    with assms(1,2) show ?thesis by (auto simp: serve_stats_def split: run.splits)
  next
    case CatIndexesHandler
    with assms(1,2) show ?thesis by (auto simp: serve_cat_def split: run.splits)
  next
    case BulkHandler
    from assms(1) [unfolded BulkHandler handle.simps] show ?thesis
      by (cases rule: with_extracted_cases) (use assms(2) in \<open>auto simp: add_job_def\<close>)
  next
    case IngestDocHandler
    show ?thesis
      by (rule path [OF assms(1) [unfolded IngestDocHandler handle.simps]], erule with_extracted_cases)
        (use assms(2) in \<open>auto simp: add_job_def\<close>)
  next
    case GetIndexHandler
    show ?thesis
      by (rule path [OF assms(1) [unfolded GetIndexHandler handle.simps]])
        (use assms(2) in \<open>auto split: prod.splits\<close>)
  next
    case CreateIndexHandler
    show ?thesis
      by (rule path [OF assms(1) [unfolded CreateIndexHandler handle.simps]], erule with_extracted_cases)
        (use assms(2,3) serve_create_calm in \<open>auto simp: tame_request_def\<close>)
  next
    case DeleteIndexHandler
    show ?thesis
      by (rule path [OF assms(1) [unfolded DeleteIndexHandler handle.simps]])
        (use assms(2) serve_delete_calm in blast)
  next
    case IndexSearchHandler
    show ?thesis
      by (rule path [OF assms(1) [unfolded IndexSearchHandler handle.simps]], erule with_extracted_cases,
          use assms(2) in simp, erule with_extracted_cases)
        (use assms(2) in \<open>auto simp: serve_search_def split: run.splits\<close>)
  qed (use assms(1,2) in \<open>auto split: prod.splits\<close>)
qed

section \<open>The server\<close>

lemma auth_either:
  "\<exists>cell'. auth_middleware env cell headers response \<in> {(cell', Inl 401), (cell', Inr response)}"
  by (auto simp: auth_middleware_def split: prod.split option.split)

lemma calm_http:
  assumes "calm (dp_schema dp) reach (sv_system s)" "tame_request su (dp_schema dp) reach (Http req took)"
  shows "\<exists>s'. serve_http su dp req took s = Some s' \<and> calm (dp_schema dp) reach (sv_system s')"
proof (cases "app_router (su_pick su) (hq_method req) (hq_path req)")
  case None
  with assms(1) show ?thesis by (simp add: serve_http_def serve_def)
next
  case (Some route)
  obtain e cap where route: "route = (e, cap)" by (cases route)
  obtain s1 out where h: "handle su dp req took e cap s = (Some s1, out)"
    using handle_returns [OF assms, of e cap] by (cases "handle su dp req took e cap s") auto
  note s1 = handle_calm [OF h assms]
  obtain cell' where "auth_middleware (su_api_key su) (sv_cell s) (hq_headers req) (Some s1, out) \<in>
      {(cell', Inl 401), (cell', Inr (Some s1, out))}"
    using auth_either [of "su_api_key su" "sv_cell s" "hq_headers req" "(Some s1, out)"] by blast
  then show ?thesis
    using s1 assms(1) Some route h by (auto simp: serve_http_def serve_def on_state_def)
qed

lemma calm_server_step:
  assumes "chrono_law chr mk reach before" "calm (dp_schema dp) reach (sv_system s)"
    and "tame_request su (dp_schema dp) reach e"
  shows "\<exists>s'. server_step su crc chr dp s e = Some s' \<and> calm (dp_schema dp) reach (sv_system s')"
proof (cases e)
  case (Http req took)
  with calm_http [OF assms(2)] assms(3) show ?thesis by simp
next
  case (SendNext k)
  with assms(2) show ?thesis by (simp add: send_next_def split: list.split)
next
  case (Respond k)
  with assms(2) show ?thesis by (simp add: respond_def split: option.split)
next
  case (Background b)
  show ?thesis
  proof (cases "background b")
    case True
    then have "tame_event (dp_schema dp) reach b"
      by (auto simp: tame_event_def)
    with calm_system_step [OF assms(1,2) this, of crc] True Background show ?thesis by auto
  qed (use assms(2) Background in simp)
qed

interpretation calm_server: refining_machine "server_step su crc chr dp" "\<lambda>_ _. ()"
    "\<lambda>_ s. chrono_law chr mk reach before \<and> calm (dp_schema dp) reach (sv_system s)"
    "tame_request su (dp_schema dp) reach"
  for su crc chr dp mk reach before
  by unfold_locales (use calm_server_step in blast)


lemma demo_tame: "tame (dp_schema demo_deps) 100000000000 logs_definition"
  using logs_builds by (simp add: tame_def demo_deps_def) (simp add: logs_definition_def index_of_fields_def)


end
