(* ===== verification/Wal_Crash.thy ===== *)
theory Wal_Crash
  imports Wal_Durable
begin

text \<open>
  What a crash leaves of the log. The power may go at any system call of a batch; of each file
  the bytes that were synced survive, and any part of the rest. The reader then gets back every
  event that was acknowledged, in order, and possibly the next ones, never anything else.
\<close>

section \<open>Reading a log that was cut\<close>

lemma prefix_concat_cases:
  assumes "prefix p (concat (map enc xs))"
  shows "\<exists>ys zs k. xs = ys @ zs \<and>
    (p = concat (map enc ys) \<or>
     (\<exists>z us. zs = z # us \<and> p = concat (map enc ys) @ take k (enc z) \<and> 0 < k \<and> k < length (enc z)))"
  using assms
proof (induction xs arbitrary: p)
  case (Cons x xs)
  show ?case
  proof (cases "length p < length (enc x)")
    case True
    have "p = take (length p) (enc x @ concat (map enc xs))"
      using Cons.prems by (metis append_eq_conv_conj concat.simps(2) list.simps(9) prefix_def)
    then have p: "p = take (length p) (enc x)"
      using True by simp
    show ?thesis
    proof (cases "p = []")
      case False
      with True p show ?thesis
        by (intro exI [of _ "[]"] exI [of _ "x # xs"] exI [of _ "length p"]) auto
    qed (intro exI [of _ "[]"] exI [of _ "x # xs"], simp)
  next
    case False
    then have "prefix (enc x) p"
      using Cons.prems prefix_length_prefix [of "enc x" "enc x @ concat (map enc xs)" p] by simp
    then obtain q where q: "p = enc x @ q" "prefix q (concat (map enc xs))"
      using Cons.prems by (auto elim!: prefixE)
    from Cons.IH [OF q(2)] obtain ys zs k where "xs = ys @ zs"
        "q = concat (map enc ys) \<or>
         (\<exists>z us. zs = z # us \<and> q = concat (map enc ys) @ take k (enc z) \<and> 0 < k \<and> k < length (enc z))"
      by blast
    with q(1) show ?thesis
      by (intro exI [of _ "x # ys"] exI [of _ zs] exI [of _ k]) auto
  qed
qed simp

context framed_log
begin

text \<open>Any prefix of the items written after \<open>ws\<close>: the whole ones are read, the reader then stops.\<close>

lemma read_cut:
  assumes "prefix p (concat (map enc xs))" "list_all ok (ws @ xs)"
  shows "\<exists>ys err. prefix ys xs \<and>
    read_log nxt (Suc (length (ws @ ys))) (at (concat (map enc ws) @ p) off) = Some (stamped adv off (ws @ ys), err)"
proof -
  obtain ys zs k where xs: "xs = ys @ zs"
      and p: "p = concat (map enc ys) \<or>
        (\<exists>z us. zs = z # us \<and> p = concat (map enc ys) @ take k (enc z) \<and> 0 < k \<and> k < length (enc z))"
    using prefix_concat_cases [OF assms(1)] by blast
  have ok: "list_all ok (ws @ ys)"
    using assms(2) by (simp add: xs)
  from p have "\<exists>err. read_log nxt (Suc (length (ws @ ys))) (at (concat (map enc ws) @ p) off) =
      Some (stamped adv off (ws @ ys), err)"
  proof
    assume "p = concat (map enc ys)"
    with read_back [OF ok] show ?thesis by simp
  next
    assume "\<exists>z us. zs = z # us \<and> p = concat (map enc ys) @ take k (enc z) \<and> 0 < k \<and> k < length (enc z)"
    then obtain z us where z: "zs = z # us" "p = concat (map enc ys) @ take k (enc z)" "0 < k" "k < length (enc z)"
      by blast
    then have "ok z"
      using assms(2) by (simp add: xs)
    from read_torn [OF ok this z(3,4)] z(2) show ?thesis by auto
  qed
  moreover have "prefix ys xs"
    by (simp add: xs)
  ultimately show ?thesis
    by blast
qed

end

section \<open>Reading a log that has grown\<close>

text \<open>What was read of a file is read again when more has been written behind it.\<close>

lemma read_exact_more: "read_exact n bs = (r, Some x) \<Longrightarrow> read_exact n (bs @ extra) = (r @ extra, Some x)"
  by (auto simp: read_exact_def split: if_splits)

lemma next_frame_more:
  assumes "next_frame \<lparr>rd_rest = bs, rd_current_offset = off\<rparr> = (r', Inr (Some x))"
  shows "next_frame \<lparr>rd_rest = bs @ extra, rd_current_offset = off\<rparr> =
    (r'\<lparr>rd_rest := rd_rest r' @ extra\<rparr>, Inr (Some x))"
proof -
  have "length (take 2 bs) = 2"
    using assms by (auto simp: next_frame_def Let_def split: if_splits)
  then have "take 2 (bs @ extra) = take 2 bs" "drop 2 (bs @ extra) = drop 2 bs @ extra"
    by simp_all
  with assms show ?thesis
    by (auto simp: next_frame_def Let_def read_exact_more split: if_splits prod.splits option.splits)
qed

lemma read_log_more:
  "read_log next_frame fuel r = Some (items, err) \<Longrightarrow>
   read_log next_frame fuel' (r\<lparr>rd_rest := rd_rest r @ extra\<rparr>) = Some (items', err') \<Longrightarrow> prefix items items'"
proof (induction fuel arbitrary: r items items' fuel')
  case (Suc fuel)
  obtain r1 res where nf: "next_frame r = (r1, res)" by fastforce
  show ?case
  proof (cases "\<exists>x. res = Inr (Some x)")
    case False
    with Suc.prems(1) nf show ?thesis by (auto split: sum.splits option.splits)
  next
    case True
    then obtain x where x: "res = Inr (Some x)" by blast
    with Suc.prems(1) nf obtain rest where rest: "items = x # rest" "read_log next_frame fuel r1 = Some (rest, err)"
      by auto
    have "next_frame (r\<lparr>rd_rest := rd_rest r @ extra\<rparr>) = (r1\<lparr>rd_rest := rd_rest r1 @ extra\<rparr>, Inr (Some x))"
      using next_frame_more [of "rd_rest r" "rd_current_offset r" r1 x extra] nf x by (cases r) simp
    with Suc.prems(2) obtain n rest' where "items' = x # rest'"
        "read_log next_frame n (r1\<lparr>rd_rest := rd_rest r1 @ extra\<rparr>) = Some (rest', err')"
      by (cases fuel') auto
    with rest Suc.IH [OF rest(2)] show ?thesis by auto
  qed
qed simp

text \<open>The events a recovery of the whole file finds; the fuel is enough for any contents.\<close>

definition file_events :: "u8 list \<Rightarrow> IngestEvent list" where
  "file_events bytes =
     (case read_log next_frame (Suc (length bytes)) (wal_reader_new bytes 0) of
        None \<Rightarrow> [] | Some (items, _) \<Rightarrow> map fst items)"

lemma read_all:
  obtains items err where "read_log next_frame (Suc (length bytes)) (wal_reader_new bytes 0) = Some (items, err)"
    "file_events bytes = map fst items"
proof -
  obtain items err where r: "read_log next_frame (Suc (length bytes)) (wal_reader_new bytes 0) = Some (items, err)"
    using read_log_ends [of "wal_reader_new bytes 0"] by (auto simp: wal_reader_new_def)
  then show thesis
    by (rule that) (simp add: file_events_def r del: read_log.simps)
qed

lemma file_events_eq:
  assumes "read_log next_frame fuel (wal_reader_new bytes 0) = Some (items, err)"
  shows "file_events bytes = map fst items"
proof -
  obtain items' err' where i: "read_log next_frame (Suc (length bytes)) (wal_reader_new bytes 0) = Some (items', err')"
      "file_events bytes = map fst items'"
    by (rule read_all)
  have same: "(wal_reader_new bytes 0)\<lparr>rd_rest := rd_rest (wal_reader_new bytes 0) @ []\<rparr> = wal_reader_new bytes 0"
    by simp
  have "prefix items items'" "prefix items' items"
    using read_log_more [OF assms, where extra = "[]"] read_log_more [OF i(1), where extra = "[]"] assms i(1)
    unfolding same by blast+
  then have "items = items'" by (rule prefix_order.antisym)
  with i(2) show ?thesis by simp
qed

lemma file_events_prefix:
  assumes "prefix bytes bytes'"
  shows "prefix (file_events bytes) (file_events bytes')"
proof -
  obtain extra where extra: "bytes' = bytes @ extra"
    using assms by (auto simp: prefix_def)
  obtain items err where i: "read_log next_frame (Suc (length bytes)) (wal_reader_new bytes 0) = Some (items, err)"
      "file_events bytes = map fst items"
    by (rule read_all)
  obtain items' err' where i': "read_log next_frame (Suc (length bytes')) (wal_reader_new bytes' 0) = Some (items', err')"
      "file_events bytes' = map fst items'"
    by (rule read_all)
  have "wal_reader_new bytes' 0 = (wal_reader_new bytes 0)\<lparr>rd_rest := rd_rest (wal_reader_new bytes 0) @ extra\<rparr>"
    by (simp add: wal_reader_new_def extra)
  then have "prefix items items'"
    using read_log_more [OF i(1)] i'(1) by metis
  then show ?thesis
    unfolding i(2) i'(2) by (rule map_mono_prefix)
qed

section \<open>The crash\<close>

text \<open>
  What is found on the disk afterwards: the same files, each cut somewhere after the bytes that
  were synced.
\<close>

definition crash_cut :: "(string \<Rightarrow> log_file option) \<Rightarrow> (string \<Rightarrow> u8 list option) \<Rightarrow> bool" where
  "crash_cut files disk \<longleftrightarrow>
     (\<forall>p. case files p of
        None \<Rightarrow> disk p = None
      | Some f \<Rightarrow> \<exists>n. lf_synced f \<le> n \<and> disk p = Some (take n (lf_bytes f)))"

lemma crash_cut_dom: "crash_cut files disk \<Longrightarrow> dom disk = dom files"
  unfolding crash_cut_def dom_def by (force split: option.splits)

lemma crash_cut_synced:
  assumes "crash_cut files disk" "files p = Some f" "lf_synced f = length (lf_bytes f)"
  shows "disk p = Some (lf_bytes f)"
  using assms(1) [unfolded crash_cut_def, rule_format, of p] assms(2,3) by auto

text \<open>A batch that is not acknowledged leaves a part of its frames behind the old bytes of the open file.\<close>

lemma unfinished_batch:
  assumes "process_batch crc st batch = (st', replies, sent)" "\<And>i. (i, Acked) \<notin> set replies" "batch \<noteq> []"
  shows "same_place st st'"
    and "\<exists>p. stream st' = stream st @ p \<and> prefix p (concat (map (encode_frame crc \<circ> req_event) batch))"
proof -
  obtain st1 to_index ok1 where w: "write_batch crc st batch = (st1, to_index, ok1)"
    by (cases "write_batch crc st batch") auto
  obtain st2 e2 where fl: "flush_buf st1 = (st2, e2)" by fastforce
  obtain st3 e3 where sy: "sync_data st2 = (st3, e3)" by fastforce
  note wb = write_batch_stream [OF w] and f = flush_buf_stream [OF fl] and s = sync_data_stream [OF sy]
  have "replies \<noteq> []"
    using process_batch_ids [OF assms(1)] assms(3) by auto
  have "\<not> (ok1 \<and> e2 = None \<and> e3 = None)"
  proof
    assume "ok1 \<and> e2 = None \<and> e3 = None"
    then have "replies = map (\<lambda>(req, _). (req_id req, Acked)) to_index"
      using assms(1) w fl sy by (simp add: process_batch_def Let_def)
    with \<open>replies \<noteq> []\<close> assms(2) show False by (cases to_index) auto
  qed
  then have st': "st' = st1 \<or> st' = st2 \<or> st' = st3"
    using assms(1) w fl sy by (auto simp: process_batch_def Let_def split: if_splits)
  then have streams: "stream st' = stream st1"
    using f(3) s(3) by auto
  show "same_place st st'"
    using st' wb f(1) s(1) same_place_trans by metis
  show "\<exists>p. stream st' = stream st @ p \<and> prefix p (concat (map (encode_frame crc \<circ> req_event) batch))"
    using wb unfolding streams by auto
qed

text \<open>Rotation, whatever fails, leaves the files alone or adds an empty one.\<close>

lemma rotate_files:
  assumes "ws_buf st = []" "ws_files st (ws_target st) = Some f" "lf_synced f = length (lf_bytes f)"
    and "ws_files st (wal_file_name (ws_current_offset st)) = None"
  shows "ws_files (rotate_file st) \<in>
    {ws_files st, (ws_files st)(wal_file_name (ws_current_offset st) \<mapsto> \<lparr>lf_bytes = [], lf_synced = 0\<rparr>)}"
proof -
  have flush: "fst (flush_buf st) = st"
    using assms(1) by (simp add: flush_buf_def)
  obtain st2 r2 where sync: "sync_data st = (st2, r2)" by fastforce
  let ?path = "wal_file_name (ws_current_offset st2)"
  let ?st3 = "st2\<lparr>ws_file_start_offset := ws_current_offset st2, ws_path := ?path\<rparr>"
  obtain st4 r4 where opn: "open_append ?path ?st3 = (st4, r4)" by fastforce
  note s = sync_data_stream [OF sync]
  have "ws_files st2 p = ws_files st p" for p
    using sync_data_keeps [OF sync assms(2,3)] assms(2) s(1) by (cases "p = ws_target st") (auto simp: same_place_def)
  then have "ws_files st2 = ws_files st" ..
  moreover have "ws_current_offset st2 = ws_current_offset st"
    using s(2) by (simp add: same_counters_def)
  ultimately have "ws_files st4 \<in>
      {ws_files st, (ws_files st)(wal_file_name (ws_current_offset st) \<mapsto> \<lparr>lf_bytes = [], lf_synced = 0\<rparr>)}"
    using opn assms(4)
    by (auto simp: open_append_def create_if_absent_def dest!: pop_io_eq split: prod.splits io_outcome.splits)
  then show ?thesis
    using flush sync opn by (simp add: rotate_file_def Let_def split: option.split)
qed

lemma holds_segments_io: "holds_segments crc st segs \<Longrightarrow> holds_segments crc (st\<lparr>ws_io := []\<rparr>) segs"
  by (simp add: holds_segments_def healthy_def)

text \<open>What the reader finds on the disk: the events \<open>segs\<close>, one segment per file.\<close>

definition recovers :: "(string \<Rightarrow> u8 list option) \<Rightarrow> IngestEvent list list \<Rightarrow> bool" where
  "recovers disk segs \<longleftrightarrow>
     dom disk = (\<lambda>k. wal_file_name (seg_start segs k)) ` {..< length segs} \<and>
     (\<forall>k < length segs. \<exists>bytes err. disk (wal_file_name (seg_start segs k)) = Some bytes \<and>
        read_log next_frame (Suc (length (segs ! k))) (wal_reader_new bytes 0) =
          Some (stamped advance 0 (segs ! k), err) \<and> (err = None \<or> Suc k = length segs))"

lemma holds_segments_dom:
  "holds_segments crc st segs \<Longrightarrow>
   dom (ws_files st) = (\<lambda>k. wal_file_name (seg_start segs k)) ` {..< length segs}"
  by (fastforce simp: holds_segments_def)

lemma holds_segments_synced: "holds_segments crc st segs \<Longrightarrow> synced_ok (st\<lparr>ws_io := io\<rparr>)"
  using holds_segments_dom [of crc st segs]
  by (force simp: synced_ok_def holds_segments_def seg_file_def length_frames)

lemma recovers_segments:
  assumes "holds_segments crc st segs" "list_all frame_ok (concat segs)" "crash_cut (ws_files st) disk"
  shows "recovers disk segs"
  unfolding recovers_def
proof (intro conjI allI impI)
  show "dom disk = (\<lambda>k. wal_file_name (seg_start segs k)) ` {..< length segs}"
    using crash_cut_dom [OF assms(3)] holds_segments_dom [OF assms(1)] by simp
next
  fix k
  assume k: "k < length segs"
  have "disk (wal_file_name (seg_start segs k)) = Some (lf_bytes (seg_file crc (segs ! k)))"
    using assms(1) k by (intro crash_cut_synced [OF assms(3)]) (auto simp: holds_segments_def seg_file_def length_frames)
  moreover have "list_all frame_ok (segs ! k)"
    using assms(2) k by (auto simp: list_all_iff)
  ultimately show "\<exists>bytes err. disk (wal_file_name (seg_start segs k)) = Some bytes \<and>
      read_log next_frame (Suc (length (segs ! k))) (wal_reader_new bytes 0) =
        Some (stamped advance 0 (segs ! k), err) \<and> (err = None \<or> Suc k = length segs)"
    using wal_log.read_back [of "segs ! k" crc 0] by (simp add: seg_file_def wal_reader_new_def)
qed

section \<open>A crash in a batch\<close>

text \<open>The batch is acknowledged: every file is on the disk, and rotation may have added an empty one.\<close>

lemma crash_after_batch:
  assumes inv: "holds_segments crc st segs" and ne: "batch \<noteq> []"
    and p: "process_batch crc (st\<lparr>ws_io := io\<rparr>) batch = (st', replies, sent)" "(i, Acked) \<in> set replies"
    and bound: "frames_len (concat segs @ map req_event batch) < 2 ^ 64"
  shows "\<exists>st'' segs'. ws_files st'' = ws_files st' \<and> holds_segments crc st'' segs' \<and>
    concat segs' = concat segs @ map req_event batch"
  using p(1)
proof (cases rule: process_batch_cases)
  case (acked st3)
  obtain old cur where segs: "segs = old @ [cur]"
    using inv by (metis append_butlast_last_id holds_segments_def)
  let ?segs' = "old @ [cur @ map req_event batch]" and ?quiet = "st3\<lparr>ws_io := []\<rparr>"
  have stream: "stream (st\<lparr>ws_io := io\<rparr>) = stream st"
    by (simp add: stream_def)
  have ext: "holds_segments crc ?quiet ?segs'"
    by (rule extend_segment [OF inv [unfolded segs], of _ ?quiet])
      (use acked ne bound segs stream in \<open>cases "cur_file st3"; simp add: comp_def same_place_def healthy_def\<close>)+
  have all: "concat ?segs' = concat segs @ map req_event batch"
    by (simp add: segs)
  have full: "[] \<notin> set ?segs'" "frames_len (concat ?segs') < 2 ^ 64"
    using inv ne bound unfolding all by (simp_all add: segs holds_segments_def)
  have fresh: "ws_files st3 (wal_file_name (ws_current_offset st3)) = None"
    using next_name_fresh [OF ext full] by simp
  have target: "ws_files st3 (ws_target st3) = Some (cur_file st3)"
    using acked(3,7) by (simp add: same_place_def)
  have rotated: "holds_segments crc (rotate_file ?quiet) (?segs' @ [[]])"
    by (rule rotate_segment [OF ext full])
  have "ws_files (rotate_file ?quiet) =
      (ws_files st3)(wal_file_name (ws_current_offset st3) \<mapsto> \<lparr>lf_bytes = [], lf_synced = 0\<rparr>)"
    using rotate_healthy [of ?quiet "cur_file st3"] acked(4,6) target fresh by (simp add: healthy_def)
  then have "ws_files st' = ws_files ?quiet \<or> ws_files st' = ws_files (rotate_file ?quiet)"
    using rotate_files [OF acked(4) target acked(6) fresh] acked(9) by auto
  then show ?thesis
    using ext rotated all by (metis append_Nil2 concat.simps(1,2) concat_append)
next
  case (failed written)
  with p(2) show ?thesis by auto
qed

text \<open>The batch is cut short: the open file ends in a part of its frames.\<close>

lemma crash_open_file:
  assumes inv: "holds_segments crc st (old @ [cur])" and ne: "batch \<noteq> []"
    and p: "process_batch crc (st\<lparr>ws_io := io\<rparr>) batch = (st', replies, sent)" "\<And>i. (i, Acked) \<notin> set replies"
    and cut: "crash_cut (ws_files st') disk"
  shows "ws_files st' (wal_file_name (seg_start old (length old))) \<noteq> None"
    and "\<exists>r. disk (wal_file_name (seg_start old (length old))) = Some (concat (map (encode_frame crc) cur) @ r) \<and>
      prefix r (concat (map (encode_frame crc) (map req_event batch)))"
proof -
  let ?name = "wal_file_name (seg_start old (length old))"
  let ?old_bytes = "concat (map (encode_frame crc) cur)"
  have target: "ws_target st = ?name" "ws_buf st = []"
    using inv by (simp_all add: holds_segments_def)
  have opened: "ws_files st ?name = Some (seg_file crc cur)"
    using inv by (auto simp: holds_segments_def nth_append)
  have stream: "stream (st\<lparr>ws_io := io\<rparr>) = ?old_bytes"
    using target opened by (simp add: stream_def cur_file_def seg_file_def)
  note unfinished = unfinished_batch [OF p ne]
  obtain q where q: "stream st' = ?old_bytes @ q" "prefix q (concat (map (encode_frame crc) (map req_event batch)))"
    using unfinished(2) stream by auto
  have "synced_ok (st\<lparr>ws_io := io\<rparr>)"
    using inv by (rule holds_segments_synced)
  then have "grows (st\<lparr>ws_io := io\<rparr>) st'"
    using safe_process_batch [OF p(1)] by (simp add: safe_step_def)
  then obtain f where f: "ws_files st' ?name = Some f" "prefix ?old_bytes (lf_bytes f)" "length ?old_bytes \<le> lf_synced f"
    using opened by (force simp: grows_def seg_file_def length_frames)
  then obtain r where r: "lf_bytes f = ?old_bytes @ r" by (auto elim: prefixE)
  have "cur_file st' = f"
    using unfinished(1) target f(1) by (simp add: same_place_def cur_file_def)
  then have rq: "prefix r q"
    using q(1) r by (auto simp: stream_def)
  obtain n where n: "lf_synced f \<le> n" "disk ?name = Some (take n (lf_bytes f))"
    using cut [unfolded crash_cut_def, rule_format, of ?name] f(1) by auto
  have "disk ?name = Some (?old_bytes @ take (n - length ?old_bytes) r)"
    using n f(3) r by simp
  moreover have "prefix (take (n - length ?old_bytes) r) (concat (map (encode_frame crc) (map req_event batch)))"
    using rq q(2) take_is_prefix prefix_order.trans by metis
  ultimately show "\<exists>r. disk ?name = Some (?old_bytes @ r) \<and>
      prefix r (concat (map (encode_frame crc) (map req_event batch)))" by blast
  show "ws_files st' ?name \<noteq> None" using f(1) by simp
qed

text \<open>The other files keep what they hold.\<close>

lemma crash_other_files:
  assumes inv: "holds_segments crc st (old @ [cur])" and bound: "frames_len (concat old @ cur) < 2 ^ 64"
    and place: "\<And>x. x \<noteq> ws_target st \<Longrightarrow> ws_files st' x = ws_files st x"
    and cut: "crash_cut (ws_files st') disk" and k: "k < length old"
  shows "disk (wal_file_name (seg_start old k)) = Some (lf_bytes (seg_file crc (old ! k)))"
proof (intro crash_cut_synced [OF cut])
  have "seg_start old k \<noteq> seg_start old (length old)"
    using seg_start_neq [of k old] k inv bound by (auto simp: holds_segments_def)
  then show "ws_files st' (wal_file_name (seg_start old k)) = Some (seg_file crc (old ! k))"
    using place inv k by (auto simp: holds_segments_def wal_file_name_inj nth_append)
qed (simp_all add: seg_file_def length_frames)

lemma crash_in_batch:
  assumes inv: "holds_segments crc st segs" and ne: "batch \<noteq> []"
    and p: "process_batch crc (st\<lparr>ws_io := io\<rparr>) batch = (st', replies, sent)" "\<And>i. (i, Acked) \<notin> set replies"
    and ok: "list_all frame_ok (concat segs @ map req_event batch)"
    and bound: "frames_len (concat segs) < 2 ^ 64"
    and cut: "crash_cut (ws_files st') disk"
  shows "\<exists>segs' evs. recovers disk segs' \<and> concat segs' = concat segs @ evs \<and> prefix evs (map req_event batch)"
proof -
  obtain old cur where segs: "segs = old @ [cur]"
    using inv by (metis append_butlast_last_id holds_segments_def)
  let ?name = "wal_file_name (seg_start old (length old))"
  note place = unfinished_batch(1) [OF p ne]
  note open_file = crash_open_file [OF inv [unfolded segs] ne p cut]
  obtain r where left: "disk ?name = Some (concat (map (encode_frame crc) cur) @ r)"
      "prefix r (concat (map (encode_frame crc) (map req_event batch)))"
    using open_file(2) by blast
  have "list_all frame_ok (cur @ map req_event batch)"
    using ok by (simp add: segs)
  then obtain evs err where evs: "prefix evs (map req_event batch)"
      "read_log next_frame (Suc (length (cur @ evs))) (wal_reader_new (concat (map (encode_frame crc) cur) @ r) 0) =
        Some (stamped advance 0 (cur @ evs), err)"
    using wal_log.read_cut [of r crc "map req_event batch" cur 0] left(2) unfolding wal_reader_new_def by fastforce
  let ?segs' = "old @ [cur @ evs]"
  have others: "disk (wal_file_name (seg_start old k)) = Some (lf_bytes (seg_file crc (old ! k)))" if "k < length old" for k
  proof (rule crash_other_files [OF inv [unfolded segs] _ _ cut that])
    show "frames_len (concat old @ cur) < 2 ^ 64"
      using bound by (simp add: segs)
    show "ws_files st' x = ws_files st x" if "x \<noteq> ws_target st" for x
      using place that by (simp add: same_place_def)
  qed
  have "(ws_files st' x = None) = (ws_files st x = None)" for x
  proof (cases "x = ?name")
    case True
    have "ws_files st ?name = Some (seg_file crc cur)"
      using inv by (auto simp: holds_segments_def segs nth_append)
    with True open_file(1) show ?thesis by simp
  next
    case False
    moreover have "ws_target st = ?name"
      using inv by (simp add: holds_segments_def segs)
    ultimately show ?thesis
      using place by (simp add: same_place_def)
  qed
  then have "dom disk = (\<lambda>k. wal_file_name (seg_start segs k)) ` {..< length segs}"
    using crash_cut_dom [OF cut] holds_segments_dom [OF inv] by (auto simp: dom_def)
  also have "\<dots> = (\<lambda>k. wal_file_name (seg_start ?segs' k)) ` {..< length ?segs'}"
    by (rule image_cong) (simp_all add: segs)
  finally have names: "dom disk = (\<lambda>k. wal_file_name (seg_start ?segs' k)) ` {..< length ?segs'}" .
  have "\<exists>bytes err. disk (wal_file_name (seg_start ?segs' k)) = Some bytes \<and>
      read_log next_frame (Suc (length (?segs' ! k))) (wal_reader_new bytes 0) =
        Some (stamped advance 0 (?segs' ! k), err) \<and> (err = None \<or> Suc k = length ?segs')"
    if "k < length ?segs'" for k
  proof (cases "k = length old")
    case True
    with left(1) evs(2) show ?thesis by simp
  next
    case False
    with that have k: "k < length old" by simp
    then have "list_all frame_ok (old ! k)"
      using ok by (auto simp: segs list_all_iff)
    then show ?thesis
      using others [OF k] k wal_log.read_back [of "old ! k" crc 0]
      by (simp add: nth_append seg_file_def wal_reader_new_def)
  qed
  then have "recovers disk ?segs'"
    using names unfolding recovers_def by blast
  then show ?thesis
    using evs(1) by (intro exI [of _ ?segs'] exI [of _ evs]) (simp add: segs)
qed

text \<open>Either way what is left begins with what was acknowledged.\<close>

lemma batch_survives:
  assumes inv: "holds_segments crc st segs" and ne: "batch \<noteq> []"
    and p: "process_batch crc (st\<lparr>ws_io := io\<rparr>) batch = (st', replies, sent)"
    and ok: "list_all frame_ok (concat segs @ map req_event batch)"
    and bound: "frames_len (concat segs @ map req_event batch) < 2 ^ 64"
    and cut: "crash_cut (ws_files st') disk"
  shows "\<exists>segs' evs. recovers disk segs' \<and> concat segs' = concat segs @ evs \<and> prefix evs (map req_event batch) \<and>
    prefix (acked_events batch replies) evs"
proof (cases "\<exists>i. (i, Acked) \<in> set replies")
  case True
  then obtain i where i: "(i, Acked) \<in> set replies" by blast
  obtain st'' segs' where s: "ws_files st'' = ws_files st'" "holds_segments crc st'' segs'"
      "concat segs' = concat segs @ map req_event batch"
    using crash_after_batch [OF inv ne p i bound] by blast
  have "acked_events batch replies = map req_event batch"
    using process_batch_durable(2) [OF p i] batch_sent_acked(2) [OF p] by simp
  moreover have "recovers disk segs'"
    using recovers_segments [OF s(2)] s(1,3) ok cut by simp
  ultimately show ?thesis
    using s(3) by (intro exI [of _ segs'] exI [of _ "map req_event batch"]) simp
next
  case False
  then have none: "\<And>i. (i, Acked) \<notin> set replies" by blast
  have "acked_events batch replies = []"
    by (rule acked_events_none) (rule none)
  moreover have "frames_len (concat segs) < 2 ^ 64"
    using bound by simp
  ultimately show ?thesis
    using crash_in_batch [OF inv ne p none ok _ cut] by auto
qed

text \<open>
  C4. No acknowledged event is lost in a crash. Start the appender on an empty directory and let
  any requests arrive and be processed in any interleaving with no failing call; then, in one more
  turn of its loop, any system call fails or stops half way, and the power goes: of each file at
  least the synced bytes survive. On what is left the reader finds, segment by segment, a list of
  events that begins with all acknowledged ones and is itself a beginning of those that arrived: in
  order, nothing twice and nothing torn. Only the last file can end in an error.
\<close>

theorem crash_keeps_acked:
  assumes "start_wal 0 Map.empty ios = Some w" "set ios \<subseteq> {IoOk}"
    and "list_all (frame_ok \<circ> req_event) (arrivals es)"
    and "frames_len (map req_event (arrivals es)) < 2 ^ 64"
    and "a = foldl (appender_step crc) \<lparr>ap_queue = [], ap_wal = w, ap_replies = [], ap_sent = []\<rparr> es"
    and "a' = appender_step crc (a\<lparr>ap_wal := (ap_wal a)\<lparr>ws_io := io\<rparr>\<rparr>) RunLoopBody"
    and "crash_cut (ws_files (ap_wal a')) disk"
  shows "\<exists>segs. recovers disk segs \<and>
    prefix (acked_events (arrivals es) (ap_replies a')) (concat segs) \<and>
    prefix (concat segs) (map req_event (arrivals es))"
proof -
  obtain "done" segs where d: "arrivals es = done @ ap_queue a" "ap_replies a = map (\<lambda>req. (req_id req, Acked)) done"
      "concat segs = map req_event done" "holds_segments crc (ap_wal a) segs"
    using healthy_run_holds [OF assms(1,2,4,5)] by blast
  have acked: "acked_events done (ap_replies a) = map req_event done"
    unfolding d(2) by (induction "done") (simp_all add: acked_events_def)
  have ok: "list_all frame_ok (map req_event (arrivals es))"
    using assms(3) by (simp add: list_all_iff)
  show ?thesis
  proof (cases "ap_queue a")
    case Nil
    then have "crash_cut (ws_files (ap_wal a)) disk" "ap_replies a' = ap_replies a"
      using assms(6,7) by simp_all
    then show ?thesis
      using recovers_segments [OF d(4)] ok d(1,3) acked Nil by (intro exI [of _ segs]) simp
  next
    case (Cons req queue)
    obtain batch queue' where dr: "drain_queue [req] queue = (batch, queue')" by fastforce
    obtain st replies sent where p: "process_batch crc (ap_wal a\<lparr>ws_io := io\<rparr>) batch = (st, replies, sent)"
      by (cases "process_batch crc (ap_wal a\<lparr>ws_io := io\<rparr>) batch") auto
    have arrived: "arrivals es = (done @ batch) @ queue'"
      using d(1) Cons drain_queue_append [OF dr] by simp
    have ne: "batch \<noteq> []"
      using drain_queue_take [of "[req]" queue] dr by simp
    have bound: "frames_len (concat segs @ map req_event batch) < 2 ^ 64"
      using assms(4) d(3) arrived by simp
    have ok': "list_all frame_ok (concat segs @ map req_event batch)"
      using ok d(3) arrived by simp
    have a': "ap_replies a' = ap_replies a @ replies" "ap_wal a' = st"
      using assms(6) Cons dr p by simp_all
    have "length (done @ batch) = length (ap_replies a @ replies)"
      using d(2) batch_sent_acked(1) [OF p] by simp
    then have answers: "acked_events (arrivals es) (ap_replies a') = map req_event done @ acked_events batch replies"
      unfolding arrived a'(1) using d(2) acked by (subst acked_events_extra) (simp_all add: acked_events_append)
    obtain segs' evs where s: "recovers disk segs'" "concat segs' = concat segs @ evs"
        "prefix evs (map req_event batch)" "prefix (acked_events batch replies) evs"
      using batch_survives [OF d(4) ne p ok' bound assms(7) [unfolded a'(2)]] by blast
    then show ?thesis
      using answers d(3) arrived by (intro exI [of _ segs']) (auto intro: prefix_prefix)
  qed
qed

section \<open>A torn tail is not cut off\<close>

text \<open>
  The appender starts behind whatever the last process has left. When that is a part of a frame, cut in
  its payload by a crash, the frames written after it are acknowledged and synced, but as long as they
  are shorter than what is missing the reader takes them for the rest of the payload: a recovery finds the
  events from before the crash and none of the new ones.
\<close>

theorem torn_tail_hides_acked:
  assumes "list_all frame_ok evs" "frame_ok torn"
    and "files (wal_file_name 0) = Some f"
    and "lf_bytes f = concat (map (encode_frame crc) evs) @ take (length (frame_head torn) + k) (encode_frame crc torn)"
    and "k + frame_len (req_event req) < length (ev_payload torn)"
    and "start_wal 0 files io = Some w" "set io \<subseteq> {IoOk}"
    and "process_batch crc w [req] = (w', replies, sent)"
  shows "replies = [(req_id req, Acked)] \<and>
    (\<exists>f'. ws_files w' (wal_file_name 0) = Some f' \<and> lf_synced f' = length (lf_bytes f') \<and> file_events (lf_bytes f') = evs)"
proof -
  note start = start_wal_healthy [OF assms(6,7)]
  have acked: "replies = [(req_id req, Acked)]"
    using assms(8) start(1) by (cases rule: process_batch_cases) simp_all
  then have "\<exists>f'. ws_files w' (ws_target w) = Some f' \<and>
      lf_bytes f' = stream w @ concat (map (encode_frame crc \<circ> req_event) [req]) \<and> lf_synced f' = length (lf_bytes f')"
    using process_batch_durable [OF assms(8), of "req_id req"] by simp
  moreover have "stream w = lf_bytes f"
    using start(3-5) assms(3) by (simp add: stream_def cur_file_def)
  moreover have "take (length (frame_head torn) + k) (encode_frame crc torn) = frame_head torn @ take k (ev_payload torn)"
    using assms(5) by (simp add: encode_frame_def frame_parts_def frame_head_def Let_def)
  ultimately obtain f' where f': "ws_files w' (wal_file_name 0) = Some f'" "lf_synced f' = length (lf_bytes f')"
      "lf_bytes f' = concat (map (encode_frame crc) evs) @ frame_head torn @ take k (ev_payload torn) @ encode_frame crc (req_event req)"
    using start(3) assms(4) by auto
  have "\<exists>r'. next_frame \<lparr>rd_rest = frame_head torn @ take k (ev_payload torn) @ encode_frame crc (req_event req),
      rd_current_offset = foldl advance 0 evs\<rparr> = (r', Inl IoUnexpectedEof)"
    by (rule next_frame_short_payload [OF assms(2)]) (use assms(5) in \<open>simp add: length_encode_frame\<close>)
  then have "read_log next_frame (length evs + Suc 0) (wal_reader_new (lf_bytes f') 0) =
      Some (stamped advance 0 evs, Some IoUnexpectedEof)"
    using wal_log.read_log_append [OF assms(1), of "Suc 0" crc _ 0] f'(3) by (auto simp: wal_reader_new_def)
  from file_events_eq [OF this] acked f' show ?thesis
    by auto
qed

section \<open>Witness\<close>

text \<open>
  One request is acknowledged; while the next is written the flush fails after four bytes, the
  process dies, and only the synced bytes are left.
\<close>

definition synced_part :: "(string \<Rightarrow> log_file option) \<Rightarrow> string \<Rightarrow> u8 list option" where
  "synced_part files p = map_option (\<lambda>f. take (lf_synced f) (lf_bytes f)) (files p)"

lemma synced_part_cut: "crash_cut files (synced_part files)"
  by (auto simp: crash_cut_def synced_part_def split: option.split)

definition crashed_run :: "wal_state \<Rightarrow> appender" where
  "crashed_run w =
     (let a = foldl (appender_step (\<lambda>_. 7)) \<lparr>ap_queue = [], ap_wal = w, ap_replies = [], ap_sent = []\<rparr>
        [Arrive req1, RunLoopBody, Arrive req1]
      in appender_step (\<lambda>_. 7) (a\<lparr>ap_wal := (ap_wal a)\<lparr>ws_io := [IoErr 4 IoOther]\<rparr>\<rparr>) RunLoopBody)"

theorem crash_keeps_acked_witness:
  "\<exists>w segs. start_wal 0 Map.empty [] = Some w \<and>
    recovers (synced_part (ws_files (ap_wal (crashed_run w)))) segs \<and>
    (concat segs = [ev1] \<or> concat segs = [ev1, ev1])"
proof -
  obtain w where w: "start_wal 0 Map.empty [] = Some w"
    using start_wal_starts by blast
  let ?es = "[Arrive req1, RunLoopBody, Arrive req1]"
  have arr: "arrivals ?es = [req1, req1]"
    by (simp add: arrivals_def)
  have ok: "list_all (frame_ok \<circ> req_event) (arrivals ?es)" "frames_len (map req_event (arrivals ?es)) < 2 ^ 64"
    using ev1_ok unfolding arr by (simp_all add: req1_def frame_len_def ev1_def)
  obtain st replies sent where p: "process_batch (\<lambda>_. 7) w [req1] = (st, replies, sent)"
    by (cases "process_batch (\<lambda>_. 7) w [req1]") auto
  have "replies = [(1, Acked)]"
    using p start_wal_healthy(1) [OF w] by (cases rule: process_batch_cases) (simp_all add: req1_def)
  then have first: "\<exists>later. ap_replies (crashed_run w) = (1, Acked) # later"
    using p by (auto simp: crashed_run_def split: prod.split)
  obtain segs where segs: "recovers (synced_part (ws_files (ap_wal (crashed_run w)))) segs"
      "prefix (acked_events (arrivals ?es) (ap_replies (crashed_run w))) (concat segs)"
      "prefix (concat segs) (map req_event (arrivals ?es))"
    using crash_keeps_acked [OF w _ ok refl crashed_run_def [unfolded Let_def] synced_part_cut] by auto
  obtain more where "prefix (ev1 # more) (concat segs)"
    using segs(2) first unfolding arr by (auto simp: acked_events_def req1_def)
  moreover have "prefix (concat segs) [ev1, ev1]"
    using segs(3) unfolding arr by (simp add: req1_def)
  ultimately have "concat segs = [ev1] \<or> concat segs = [ev1, ev1]"
    by (cases "concat segs") (auto simp: prefix_Cons)
  with w segs(1) show ?thesis by blast
qed

text \<open>An event of a hundred bytes, cut after the first; then a short one is acknowledged.\<close>

definition hundred :: IngestEvent where
  "hundred = \<lparr>ev_index = ''idx1'', ev_payload = replicate 100 0\<rparr>"

theorem torn_tail_hides_acked_witness:
  "\<exists>f w w' replies sent f'. start_wal 0 [wal_file_name 0 \<mapsto> f] [] = Some w \<and>
    process_batch (\<lambda>_. 7) w [req1] = (w', replies, sent) \<and> replies = [(1, Acked)] \<and>
    ws_files w' (wal_file_name 0) = Some f' \<and> file_events (lf_bytes f') = []"
proof -
  let ?bytes = "take (length (frame_head hundred) + 1) (encode_frame (\<lambda>_. 7) hundred)"
  let ?f = "\<lparr>lf_bytes = ?bytes, lf_synced = length ?bytes\<rparr>"
  obtain w where w: "start_wal 0 [wal_file_name 0 \<mapsto> ?f] [] = Some w"
    using start_wal_starts by blast
  obtain w' replies sent where p: "process_batch (\<lambda>_. 7) w [req1] = (w', replies, sent)"
    by (cases "process_batch (\<lambda>_. 7) w [req1]") auto
  have ok: "frame_ok hundred"
    by (simp add: hundred_def frame_ok_def is_ascii_is_str is_ascii_def)
  have "replies = [(req_id req1, Acked)] \<and>
    (\<exists>f'. ws_files w' (wal_file_name 0) = Some f' \<and> lf_synced f' = length (lf_bytes f') \<and> file_events (lf_bytes f') = [])"
    by (rule torn_tail_hides_acked [OF _ ok _ _ _ w _ p, where f = ?f and k = 1])
      (simp_all add: hundred_def req1_def ev1_def frame_len_def)
  with w p show ?thesis
    by (auto simp: req1_def)
qed

end
