(* ===== verification/Lives.thy ===== *)
theory Lives
  imports Clients Wal_Crash
begin

text \<open>
  The program over several lives of its process: each life starts, as \<open>main\<close> does, from what the one
  before has left on the disk, serves any requests interleaved with its tasks in any way, and ends at any
  moment, by a signal or a loss of power. The theorems say what outlives the process: the definitions,
  the documents acknowledged in the log, and what the reader finds there; and that nothing in the log
  is indexed again.
\<close>

section \<open>The disk between two lives\<close>

text \<open>The log files, the files of the definitions, and what Tantivy has stored.\<close>

record 'w disk =
  dk_log :: "string \<Rightarrow> log_file option"
  dk_files :: "(string \<times> string) list"
  dk_world :: 'w

definition data_dir :: "(string \<Rightarrow> string option) \<Rightarrow> string" where
  "data_dir env = env_or env ''EDGEWIT_DATA_DIR'' ''./data''"

definition files_of :: "string \<Rightarrow> registry \<Rightarrow> 'w disk \<Rightarrow> api_state" where
  "files_of dir r d = \<lparr>as_registry = r, as_data_dir = dir, as_files = dk_files d, as_io = []\<rparr>"

text \<open>The platform of a start, with the contents of the disk.\<close>

definition mounted :: "string \<Rightarrow> 'w disk \<Rightarrow> 'w platform \<Rightarrow> 'w platform" where
  "mounted dir d pf =
     (let st = files_of dir new_registry d in
      pf\<lparr>pf_indexes_exist := path_exists (indexes_dir st) st, pf_read_dir := Inr (dir_listing st),
         pf_log_files := dk_log d, pf_world := dk_world d\<rparr>)"

text \<open>
  A life: the outcomes of the calls at its start and on its log, those on the files of the definitions,
  its events, and its end: how many bytes of each log file are kept, which is at least the synced ones,
  and what becomes of the other files.
\<close>

record 'w life =
  li_platform :: "'w platform"
  li_fs :: "fs_outcome list"
  li_events :: "'w server_event list"
  li_cut :: "string \<Rightarrow> nat"
  li_files :: "(string \<times> string) list \<Rightarrow> (string \<times> string) list"
  li_world :: "'w \<Rightarrow> 'w"

definition kept_file :: "nat \<Rightarrow> log_file \<Rightarrow> log_file" where
  "kept_file extra f =
     (let bytes = take (max (lf_synced f) extra) (lf_bytes f) in \<lparr>lf_bytes = bytes, lf_synced = length bytes\<rparr>)"

definition left_by :: "'w life \<Rightarrow> ('w, 'i, 'rd, 'wr, 'sc, 'ar) server \<Rightarrow> 'w disk" where
  "left_by l s =
     \<lparr>dk_log = (\<lambda>name. if name \<in> set (sy_removed (sv_system s)) then None
        else map_option (kept_file (li_cut l name)) (ws_files (ap_wal (sy_appender (sv_system s))) name)),
      dk_files = li_files l (sv_files s),
      dk_world = li_world l (ac_world (sy_indexer (sv_system s)))\<rparr>"

text \<open>
  One life, if the program starts and no event of the life is a panic: a life that a panic ends is the
  one of the events before it. Then any number of lives, with the states they end in and the last disk.
\<close>

definition run_life ::
    "('w, 'g, 'rd, 'sv, 'q, 'ia, 'ar, 'addr, 'sc) site \<Rightarrow> (string \<Rightarrow> string option) \<Rightarrow> (u8 list \<Rightarrow> u32) \<Rightarrow>
     ('dur, int) chrono_api \<Rightarrow> ('b, 'x, 'w, 'd, 'i, 'rd, 'doc, 'f, 'wr) deps \<Rightarrow> 'w disk \<Rightarrow> 'w life \<Rightarrow>
     ('w, 'i, 'rd, 'wr, 'sc, 'ar) server option" where
  "run_life su env crc chr dp d l =
     (case start_program (cd_yaml (su_codec su)) env (mounted (data_dir env) d (li_platform l)) of
        Ret (Inr p) \<Rightarrow>
          (case boot p of
             None \<Rightarrow> None
           | Some s0 \<Rightarrow>
               try_fold (server_step su crc chr dp) (start_server s0 (dk_files d) (li_fs l)) (li_events l))
      | _ \<Rightarrow> None)"

fun lives ::
    "('w, 'g, 'rd, 'sv, 'q, 'ia, 'ar, 'addr, 'sc) site \<Rightarrow> (string \<Rightarrow> string option) \<Rightarrow> (u8 list \<Rightarrow> u32) \<Rightarrow>
     ('dur, int) chrono_api \<Rightarrow> ('b, 'x, 'w, 'd, 'i, 'rd, 'doc, 'f, 'wr) deps \<Rightarrow> 'w disk \<Rightarrow> 'w life list \<Rightarrow>
     (('w, 'i, 'rd, 'wr, 'sc, 'ar) server list \<times> 'w disk) option" where
  "lives su env crc chr dp d [] = Some ([], d)"
| "lives su env crc chr dp d (l # ls) =
     (case run_life su env crc chr dp d l of
        None \<Rightarrow> None
      | Some s \<Rightarrow> map_option (\<lambda>(ss, d'). (s # ss, d')) (lives su env crc chr dp (left_by l s) ls))"

lemma run_life_cases:
  assumes "run_life su env crc chr dp d l = Some s"
  obtains p s0 where
    "start_program (cd_yaml (su_codec su)) env (mounted (data_dir env) d (li_platform l)) = Ret (Inr p)"
    "boot p = Some s0"
    "try_fold (server_step su crc chr dp) (start_server s0 (dk_files d) (li_fs l)) (li_events l) = Some s"
  using assms by (auto simp: run_life_def split: run.splits sum.splits option.splits)

lemma lives_cases:
  assumes "lives su env crc chr dp d (l # ls) = Some (ss, d')"
  obtains s ss' where "run_life su env crc chr dp d l = Some s" "ss = s # ss'"
    "lives su env crc chr dp (left_by l s) ls = Some (ss', d')"
  using assms by (auto split: option.splits)

lemma mounted_simps [simp]:
  "pf_log_files (mounted dir d pf) = dk_log d" "pf_world (mounted dir d pf) = dk_world d"
  "pf_io (mounted dir d pf) = pf_io pf"
  by (simp_all add: mounted_def Let_def)

section \<open>The log\<close>

text \<open>Whatever happens, between two lives all that is on the disk counts as synced.\<close>

definition settled :: "'w disk \<Rightarrow> bool" where
  "settled d \<longleftrightarrow> (\<forall>name f. dk_log d name = Some f \<longrightarrow> lf_synced f = length (lf_bytes f))"

lemma settled_left_by [simp]: "settled (left_by l s)"
  by (auto simp: settled_def left_by_def kept_file_def Let_def)

lemma settledD: "settled d \<Longrightarrow> dk_log d name = Some f \<Longrightarrow> lf_synced f \<le> length (lf_bytes f)"
  by (simp add: settled_def)

text \<open>The log files at the end of a life, as the process has written them.\<close>

abbreviation wal_files :: "('w, 'i, 'rd, 'wr, 'sc, 'ar) server \<Rightarrow> string \<Rightarrow> log_file option" where
  "wal_files s \<equiv> ws_files (ap_wal (sy_appender (sv_system s)))"

text \<open>The requests of the server, as the appender sees them.\<close>

lemma life_log:
  fixes d :: "'w disk"
  assumes "run_life su env crc chr dp d l = Some s"
  obtains w and ts :: "'w system_event list" where "start_wal 0 (dk_log d) (pf_io (li_platform l)) = Some w"
    "sy_appender (sv_system s) =
       foldl (appender_step crc) \<lparr>ap_queue = [], ap_wal = w, ap_replies = [], ap_sent = []\<rparr> (wal_events ts)"
    "distinct (map req_id (requests ts))"
    "\<And>req resp. (req, IngestReply resp) \<in> set (sv_answers s) \<Longrightarrow>
       ingest_ok su (requests ts) (ap_replies (sy_appender (sv_system s))) req resp"
proof -
  obtain p s0 where p: "start_program (cd_yaml (su_codec su)) env (mounted (data_dir env) d (li_platform l)) = Ret (Inr p)"
      "boot p = Some s0"
      "try_fold (server_step su crc chr dp) (start_server s0 (dk_files d) (li_fs l)) (li_events l) = Some s"
    using assms(1) by (rule run_life_cases)
  obtain w where w: "start_wal 0 (dk_log d) (pf_io (li_platform l)) = Some w"
      "sy_appender s0 = \<lparr>ap_queue = [], ap_wal = w, ap_replies = [], ap_sent = []\<rparr>"
    using start_program_parts(3) [OF p(1)] p(2) by (auto simp: boot_def initial_def)
  obtain ts where ts: "tracks su crc chr dp s0 ts s"
    using p(3) by (rule run_tracks)
  then have run: "try_fold (system_step crc chr dp) s0 ts = Some (sv_system s)"
    by (simp add: tracks_def)
  show ?thesis
    by (rule that [OF w(1) system_appender [OF run, unfolded w(2)]]) (use ts in \<open>auto simp: tracks_def\<close>)
qed

text \<open>In a life the files only grow, and what was on the disk stays there.\<close>

lemma safe_appender_step: "safe_step (ap_wal a) (ap_wal (appender_step crc a e))"
  by (cases e) (auto split: list.split prod.split dest: safe_process_batch)

lemma safe_appender_run: "safe_step (ap_wal a) (ap_wal (foldl (appender_step crc) a es))"
proof (induction es arbitrary: a)
  case (Cons e es)
  show ?case
    using safe_step_trans [OF safe_appender_step Cons.IH] by simp
qed simp

lemma start_wal_files:
  assumes "start_wal off files io = Some w" "files name = Some f"
  shows "ws_files w name = Some f"
  using assms
  by (auto simp: start_wal_def Let_def open_append_def create_if_absent_def
      dest!: pop_io_eq split: prod.splits io_outcome.splits if_splits)

lemma life_grows:
  fixes d :: "'w disk"
  assumes "run_life su env crc chr dp d l = Some s" "settled d" "dk_log d name = Some f"
  shows "\<exists>f'. wal_files s name = Some f' \<and> prefix (lf_bytes f) (lf_bytes f') \<and> length (lf_bytes f) \<le> lf_synced f'"
proof -
  obtain w and ts :: "'w system_event list" where w: "start_wal 0 (dk_log d) (pf_io (li_platform l)) = Some w"
      "sy_appender (sv_system s) =
         foldl (appender_step crc) \<lparr>ap_queue = [], ap_wal = w, ap_replies = [], ap_sent = []\<rparr> (wal_events ts)"
    using assms(1) by (rule life_log)
  have "synced_ok w"
    using start_wal_synced [OF w(1)] settledD [OF assms(2)] by blast
  then have "grows w (ap_wal (sy_appender (sv_system s)))"
    using safe_appender_run [of "\<lparr>ap_queue = [], ap_wal = w, ap_replies = [], ap_sent = []\<rparr>" crc "wal_events ts"]
    by (simp add: w(2) safe_step_def)
  moreover have "ws_files w name = Some f"
    using start_wal_files [where files = "dk_log d", OF w(1) assms(3)] .
  moreover have "lf_synced f = length (lf_bytes f)"
    using assms(2,3) by (simp add: settled_def)
  ultimately show ?thesis
    by (fastforce simp: grows_def)
qed

text \<open>What is synced at the end of a life is on the disk afterwards, unless its file was removed.\<close>

lemma left_synced:
  assumes "wal_files s name = Some f" "name \<notin> set (sy_removed (sv_system s))"
  shows "\<exists>f'. dk_log (left_by l s) name = Some f' \<and> prefix (take (lf_synced f) (lf_bytes f)) (lf_bytes f')"
proof -
  have "prefix (take (lf_synced f) (lf_bytes f)) (take (max (lf_synced f) n) (lf_bytes f))" for n
    by (metis max.cobounded1 min.absorb1 take_is_prefix take_take)
  then show ?thesis
    using assms by (simp add: left_by_def kept_file_def Let_def)
qed

lemma lives_grow:
  assumes "lives su env crc chr dp d ls = Some (ss, d')" "settled d" "dk_log d name = Some f"
  shows "(\<exists>s \<in> set ss. name \<in> set (sy_removed (sv_system s))) \<or>
    (\<exists>f'. dk_log d' name = Some f' \<and> prefix (lf_bytes f) (lf_bytes f'))"
  using assms
proof (induction ls arbitrary: d ss f)
  case (Cons l ls)
  obtain s ss' where l: "run_life su env crc chr dp d l = Some s" "ss = s # ss'"
      "lives su env crc chr dp (left_by l s) ls = Some (ss', d')"
    using Cons.prems(1) by (rule lives_cases)
  show ?case
  proof (cases "name \<in> set (sy_removed (sv_system s))")
    case False
    obtain f1 where f1: "wal_files s name = Some f1" "prefix (lf_bytes f) (lf_bytes f1)" "length (lf_bytes f) \<le> lf_synced f1"
      using life_grows [OF l(1) Cons.prems(2,3)] by blast
    obtain f2 where f2: "dk_log (left_by l s) name = Some f2" "prefix (take (lf_synced f1) (lf_bytes f1)) (lf_bytes f2)"
      using left_synced [OF f1(1) False] by blast
    have "prefix (lf_bytes f) (take (lf_synced f1) (lf_bytes f1))"
      using f1(2,3) by (auto simp: prefix_def)
    then have "prefix (lf_bytes f) (lf_bytes f2)"
      using f2(2) by (rule prefix_order.trans)
    with Cons.IH [OF l(3) settled_left_by f2(1)] show ?thesis
      using l(2) by (auto intro: prefix_order.trans)
  qed (simp add: l(2))
qed simp

text \<open>The frame of an event lies in a file, and as durable in its synced part.\<close>

definition in_file :: "(u8 list \<Rightarrow> u32) \<Rightarrow> (string \<Rightarrow> log_file option) \<Rightarrow> string \<Rightarrow> IngestEvent \<Rightarrow> bool" where
  "in_file crc files name ev \<longleftrightarrow>
     (\<exists>f pre post. files name = Some f \<and> lf_bytes f = pre @ encode_frame crc ev @ post)"

lemma durable_synced:
  "durable crc st ev \<longleftrightarrow>
   (\<exists>name f pre post. ws_files st name = Some f \<and> take (lf_synced f) (lf_bytes f) = pre @ encode_frame crc ev @ post)"
proof
  assume "durable crc st ev"
  then obtain name f pre post where f: "ws_files st name = Some f" "lf_bytes f = pre @ encode_frame crc ev @ post"
      "length (pre @ encode_frame crc ev) \<le> lf_synced f"
    by (auto simp: durable_def)
  then have "take (lf_synced f) (lf_bytes f) =
      pre @ encode_frame crc ev @ take (lf_synced f - length (pre @ encode_frame crc ev)) post"
    by simp
  with f(1) show "\<exists>name f pre post. ws_files st name = Some f \<and>
      take (lf_synced f) (lf_bytes f) = pre @ encode_frame crc ev @ post" by blast
next
  assume "\<exists>name f pre post. ws_files st name = Some f \<and>
      take (lf_synced f) (lf_bytes f) = pre @ encode_frame crc ev @ post"
  then obtain name f pre post where f: "ws_files st name = Some f"
      "take (lf_synced f) (lf_bytes f) = pre @ encode_frame crc ev @ post"
    by blast
  have "lf_bytes f = pre @ encode_frame crc ev @ post @ drop (lf_synced f) (lf_bytes f)"
    by (metis append.assoc append_take_drop_id f(2))
  moreover have "length (pre @ encode_frame crc ev) \<le> lf_synced f"
    using arg_cong [OF f(2), of length] by simp
  ultimately show "durable crc st ev"
    unfolding durable_def using f(1) by blast
qed

lemma in_file_prefix:
  "prefix bytes (lf_bytes f) \<Longrightarrow> bytes = pre @ encode_frame crc ev @ post \<Longrightarrow> files name = Some f \<Longrightarrow>
   in_file crc files name ev"
  unfolding in_file_def prefix_def by auto

text \<open>The documents a client has been told of are synced at the end of the life.\<close>

lemma answered_is_durable:
  fixes d :: "'w disk"
  assumes "run_life su env crc chr dp d l = Some s" "settled d"
    and "(req, IngestReply resp) \<in> set (sv_answers s)"
  obtains kind evs answers where "asked su req kind" "ask su kind answers = (evs, resp)" "length answers = length evs"
    "\<And>i. i < length evs \<Longrightarrow> answers ! i = Acked \<Longrightarrow> durable crc (ap_wal (sy_appender (sv_system s))) (evs ! i)"
proof -
  obtain w and ts :: "'w system_event list" where w: "start_wal 0 (dk_log d) (pf_io (li_platform l)) = Some w"
      "sy_appender (sv_system s) =
         foldl (appender_step crc) \<lparr>ap_queue = [], ap_wal = w, ap_replies = [], ap_sent = []\<rparr> (wal_events ts)"
      "distinct (map req_id (requests ts))"
      "\<And>req resp. (req, IngestReply resp) \<in> set (sv_answers s) \<Longrightarrow>
         ingest_ok su (requests ts) (ap_replies (sy_appender (sv_system s))) req resp"
    using assms(1) by (rule life_log) blast
  obtain kind sent answers where a: "asked su req kind" "set sent \<subseteq> set (requests ts)"
      "list_all2 (\<lambda>r answer. (req_id r, answer) \<in> set (ap_replies (sy_appender (sv_system s)))) sent answers"
      "ask su kind answers = (map req_event sent, resp)"
    using w(4) [OF assms(3)] unfolding ingest_ok_def by blast
  have "durable crc (ap_wal (sy_appender (sv_system s))) (map req_event sent ! i)"
    if "i < length sent" "answers ! i = Acked" for i
  proof -
    have "sent ! i \<in> set (requests ts)" "(req_id (sent ! i), Acked) \<in> set (ap_replies (sy_appender (sv_system s)))"
      using a(2,3) that by (auto simp: list_all2_conv_all_nth dest: nth_mem)
    then have "durable crc (ap_wal (sy_appender (sv_system s))) (req_event (sent ! i))"
      using durable_if_acked(1) [OF w(1) _ w(2) w(3) [unfolded requests_def]] settledD [OF assms(2)]
      unfolding requests_def by blast
    with that show ?thesis by simp
  qed
  then show thesis
    using list_all2_lengthD [OF a(3)] by (intro that [OF a(1,4)]) simp_all
qed

lemma lives_nth:
  assumes "lives su env crc chr dp d ls = Some (ss, d')" "k < length ss"
  obtains d1 where "run_life su env crc chr dp d1 (ls ! k) = Some (ss ! k)" "settled d \<Longrightarrow> settled d1"
    "lives su env crc chr dp (left_by (ls ! k) (ss ! k)) (drop (Suc k) ls) = Some (drop (Suc k) ss, d')"
  using assms
proof (induction ls arbitrary: d ss k thesis)
  case (Cons l ls)
  obtain s ss' where l: "run_life su env crc chr dp d l = Some s" "ss = s # ss'"
      "lives su env crc chr dp (left_by l s) ls = Some (ss', d')"
    using Cons.prems(2) by (rule lives_cases)
  show ?case
  proof (cases k)
    case 0
    show ?thesis
      by (rule Cons.prems(1)) (use 0 l in simp_all)
  next
    case (Suc j)
    then have "j < length ss'" using Cons.prems(3) l(2) by simp
    from Cons.IH [OF _ l(3) this] show ?thesis
      using Cons.prems(1) Suc l(2) by simp blast
  qed
qed simp

lemma survives_lives:
  assumes "lives su env crc chr dp d0 ls = Some (ss, d)" "settled d0" "k < length ss"
    and "durable crc (ap_wal (sy_appender (sv_system (ss ! k)))) ev"
  shows "\<exists>name. in_file crc (wal_files (ss ! k)) name ev \<and>
    (in_file crc (dk_log d) name ev \<or> (\<exists>s \<in> set (drop k ss). name \<in> set (sy_removed (sv_system s))))"
proof -
  obtain d1 where d1: "run_life su env crc chr dp d1 (ls ! k) = Some (ss ! k)" "settled d1"
      "lives su env crc chr dp (left_by (ls ! k) (ss ! k)) (drop (Suc k) ls) = Some (drop (Suc k) ss, d)"
    using assms(1,3) by (rule lives_nth) (use assms(2) in blast)
  obtain name f pre post where f: "wal_files (ss ! k) name = Some f"
      "take (lf_synced f) (lf_bytes f) = pre @ encode_frame crc ev @ post"
    using assms(4) unfolding durable_synced by blast
  have now: "in_file crc (wal_files (ss ! k)) name ev"
    using in_file_prefix [where files = "wal_files (ss ! k)", OF take_is_prefix f(2,1)] .
  have here: "drop k ss = ss ! k # drop (Suc k) ss"
    using assms(3) by (simp add: Cons_nth_drop_Suc)
  show ?thesis
  proof (cases "name \<in> set (sy_removed (sv_system (ss ! k)))")
    case True
    with now here show ?thesis by auto
  next
    case False
    obtain f1 where f1: "dk_log (left_by (ls ! k) (ss ! k)) name = Some f1"
        "prefix (take (lf_synced f) (lf_bytes f)) (lf_bytes f1)"
      using left_synced [OF f(1) False] by blast
    from lives_grow [OF d1(3) settled_left_by f1(1)]
    have "in_file crc (dk_log d) name ev \<or> (\<exists>s \<in> set (drop (Suc k) ss). name \<in> set (sy_removed (sv_system s)))"
      using f(2) f1(2) in_file_prefix [where files = "dk_log d"] prefix_order.trans by metis
    with now here show ?thesis by auto
  qed
qed


section \<open>What the reader finds\<close>


section \<open>Nothing is replayed\<close>

text \<open>
  The log is never read at a start: what the indexing task of a life receives are documents of requests
  of the same life. A document acknowledged in an earlier life and not committed then stays in the log
  alone, until it is posted again.
\<close>

theorem nothing_replayed:
  assumes "lives su env crc chr dp d0 ls = Some (ss, d)" "k < length ss"
    and "(ev, off) \<in> set (ap_sent (sy_appender (sv_system (ss ! k))))"
  shows "\<exists>req took kind. Http req took \<in> set (li_events (ls ! k)) \<and> asked su req kind \<and> ev \<in> set (fst (ask su kind []))"
proof -
  obtain d1 where "run_life su env crc chr dp d1 (ls ! k) = Some (ss ! k)"
    using assms(1,2) by (rule lives_nth)
  then obtain p s0 where "boot p = Some s0"
      "try_fold (server_step su crc chr dp) (start_server s0 (dk_files d1) (li_fs (ls ! k))) (li_events (ls ! k)) = Some (ss ! k)"
    by (rule run_life_cases)
  from sent_was_posted [OF this assms(3)] show ?thesis by blast
qed

section \<open>The definitions\<close>

text \<open>What a request asks of the definitions, if it has the key and reaches one of the two handlers.\<close>

fun handler_op ::
    "('w, 'g, 'rd, 'sv, 'q, 'ia, 'ar, 'addr, 'sc) site \<Rightarrow> http_request \<Rightarrow> endpoint \<Rightarrow> string option \<Rightarrow> api_op option" where
  "handler_op su req CreateIndexHandler (Some raw) =
     (case su_path su raw of
        Inl _ \<Rightarrow> None
      | Inr n \<Rightarrow> (case su_definition su req of Inl _ \<Rightarrow> None | Inr d \<Rightarrow> Some (PutIndex n d)))"
| "handler_op su req DeleteIndexHandler (Some raw) =
     (case su_path su raw of Inl _ \<Rightarrow> None | Inr n \<Rightarrow> Some (DeleteIndex n))"
| "handler_op su req _ _ = None"

fun client_op ::
    "('w, 'g, 'rd, 'sv, 'q, 'ia, 'ar, 'addr, 'sc) site \<Rightarrow> 'w server_event \<Rightarrow> api_op option" where
  "client_op su (Http req took) =
     (case app_router (su_pick su) (hq_method req) (hq_path req) of
        None \<Rightarrow> None
      | Some (e, cap) \<Rightarrow> if authorized (su_api_key su) (hq_headers req) then handler_op su req e cap else None)"
| "client_op su _ = None"

definition client_ops ::
    "('w, 'g, 'rd, 'sv, 'q, 'ia, 'ar, 'addr, 'sc) site \<Rightarrow> 'w server_event list \<Rightarrow> api_op list" where
  "client_ops su es = List.map_filter (client_op su) es"

text \<open>The definitions change only as the operation says.\<close>

definition does ::
    "('w, 'g, 'rd, 'sv, 'q, 'ia, 'ar, 'addr, 'sc) site \<Rightarrow> api_op option \<Rightarrow>
     ('w, 'i, 'rd, 'wr, 'ss, 'aa) server \<Rightarrow> ('w, 'i, 'rd, 'wr, 'ss, 'aa) server \<Rightarrow> bool" where
  "does su op s s' \<longleftrightarrow>
     (case op of
        None \<Rightarrow> api_of (su_data_dir su) s' = api_of (su_data_dir su) s
      | Some op \<Rightarrow>
          api_step (su_codec su) (su_management su) (api_of (su_data_dir su) s) op = Some (api_of (su_data_dir su) s'))"

lemma api_of_frame [simp]:
  "api_of dir (set_manager m w s) = api_of dir s"
  "api_of dir (s\<lparr>sv_cell := c\<rparr>) = api_of dir s"
  "api_of dir (s\<lparr>sv_jobs := js\<rparr>) = api_of dir s"
  "api_of dir (s\<lparr>sv_answers := as\<rparr>) = api_of dir s"
  "as_data_dir (api_of dir s) = dir"
  by (simp_all add: api_of_def set_manager_def)

lemma api_of_system: "sy_registry sys = sy_registry (sv_system s) \<Longrightarrow> api_of dir (s\<lparr>sv_system := sys\<rparr>) = api_of dir s"
  by (simp add: api_of_def)

lemma api_of_set_api: "as_data_dir st = dir \<Longrightarrow> api_of dir (set_api st s) = st"
  by (simp add: api_of_def set_api_def)

lemma fs_data_dir:
  "fs_pop st = (oc, st') \<Longrightarrow> as_data_dir st' = as_data_dir st"
  "fs_create_dir_all st = (st', ok) \<Longrightarrow> as_data_dir st' = as_data_dir st"
  "fs_write path content st = (st', ok) \<Longrightarrow> as_data_dir st' = as_data_dir st"
  "as_data_dir (fs_remove_file path st) = as_data_dir st"
  "as_data_dir (fs_remove_dir_all dir st) = as_data_dir st"
  by (auto simp: fs_pop_def fs_create_dir_all_def fs_write_def fs_remove_file_def fs_remove_dir_all_def
      split: list.splits prod.splits fs_outcome.splits)

lemma handlers_data_dir:
  "create_index_handler cd env st n d = Ret (st', resp) \<Longrightarrow> as_data_dir st' = as_data_dir st"
  "delete_index_handler cd env st n = (st', reply) \<Longrightarrow> as_data_dir st' = as_data_dir st"
  by (auto simp: create_index_handler_def delete_index_handler_def Let_def run_bind_case fs_data_dir
      dest!: fs_data_dir(2,3) split: if_splits run.splits sum.splits RegistryError.splits prod.splits bool.splits)

lemma serve_definitions:
  "serve_create su n d s = (Some s', out) \<Longrightarrow> does su (Some (PutIndex n d)) s s'"
  "serve_delete su n s = (Some s', out) \<Longrightarrow> does su (Some (DeleteIndex n)) s s'"
  by (auto simp: serve_create_def serve_delete_def does_def Let_def api_of_set_api
      dest!: handlers_data_dir split: run.splits prod.splits if_splits)

lemma does_None [simp]: "does su None s s' \<longleftrightarrow> api_of (su_data_dir su) s' = api_of (su_data_dir su) s"
  by (simp add: does_def)

lemma handle_definitions:
  assumes "handle su dp req took e cap s = (Some s', out)"
  shows "does su (handler_op su req e cap) s s'"
  using assms
  by (cases e; cases cap)
    (auto simp: with_path_def with_extracted_def serve_search_def serve_stats_def serve_cat_def add_job_def
      intro!: serve_definitions split: run.splits sum.splits prod.splits)

lemma does_answered [simp]: "does su op s (s'\<lparr>sv_cell := c, sv_answers := as\<rparr>) = does su op s s'"
  by (simp add: does_def split: option.split)

lemma serve_http_definitions:
  assumes "sv_cell s = None \<or> sv_cell s = Some (auth_header_of (su_api_key su))"
    and "serve_http su dp req took s = Some s'"
  shows "does su (client_op su (Http req took :: 'w server_event)) s s'"
proof (cases "app_router (su_pick su) (hq_method req) (hq_path req)")
  case None
  with assms(2) show ?thesis
    by (auto simp: serve_http_def serve_def)
next
  case (Some route)
  obtain e cap where route: "route = (e, cap)" by (cases route)
  show ?thesis
  proof (cases "authorized (su_api_key su) (hq_headers req)")
    case False
    with assms(2) Some route show ?thesis
      by (auto simp: serve_http_def serve_def key_check [OF assms(1)])
  next
    case True
    obtain st out where h: "handle su dp req took e cap s = (st, out)" by fastforce
    with assms(2) Some route True obtain s1 where s1: "st = Some s1"
        "s' = s1\<lparr>sv_cell := Some (auth_header_of (su_api_key su)), sv_answers := sv_answers s1 @
          (case out of None \<Rightarrow> [] | Some resp \<Rightarrow> [(req, resp)])\<rparr>"
      by (auto simp: serve_http_def serve_def key_check [OF assms(1)] on_state_def split: option.splits)
    with handle_definitions [OF h [unfolded s1(1)]] Some route True show ?thesis
      by simp
  qed
qed

text \<open>The tasks leave the registry alone.\<close>

lemma background_registry:
  assumes "system_step crc chr dp s e = Some s'" "background e"
  shows "sy_registry s' = sy_registry s"
  using assms
  by (cases e) (auto simp: deliver_def deliver_purge_def retention_round_def with_indexer_Some
      simp del: actor_step.simps split: if_splits list.splits prod.splits run.splits)

lemma send_next_definitions: "send_next crc chr dp k s = Some s' \<Longrightarrow> api_of dir s' = api_of dir s"
  by (auto simp: send_next_def api_of_def split: if_splits list.splits)

lemma step_definitions:
  assumes "follows su crc chr dp s0 s" "server_step su crc chr dp s e = Some s'"
  shows "does su (client_op su e) s s'"
proof (cases e)
  case (Http req took)
  have "sv_cell s = None \<or> sv_cell s = Some (auth_header_of (su_api_key su))"
    using assms(1) by (auto simp: follows_def tracks_def)
  from serve_http_definitions [OF this] assms(2) Http show ?thesis
    by simp
next
  case (SendNext k)
  with assms(2) show ?thesis by (simp add: send_next_definitions)
next
  case (Respond k)
  with assms(2) show ?thesis by (auto simp: respond_def split: option.split)
next
  case (Background b)
  with assms(2) show ?thesis
    by (auto simp: background_registry api_of_system split: if_splits)
qed

text \<open>So the server works on the definitions as the machine of the management API does.\<close>

lemma run_definitions:
  assumes "try_fold (server_step su crc chr dp) s es = Some s'" "follows su crc chr dp s0 s"
  shows "try_fold (api_step (su_codec su) (su_management su)) (api_of (su_data_dir su) s) (client_ops su es) =
    Some (api_of (su_data_dir su) s')"
  using assms
proof (induction es arbitrary: s)
  case Nil
  then show ?case by (simp add: client_ops_def)
next
  case (Cons e es)
  obtain s1 where s1: "server_step su crc chr dp s e = Some s1" "try_fold (server_step su crc chr dp) s1 es = Some s'"
    using Cons.prems(1) by (auto split: option.splits simp del: server_step.simps)
  note rest = Cons.IH [OF s1(2) server_step_follows [OF Cons.prems(2) s1(1)]]
  show ?case
    using step_definitions [OF Cons.prems(2) s1(1)] rest
    by (cases "client_op su e") (simp_all add: client_ops_def does_def)
qed

section \<open>The definitions at a start\<close>

text \<open>A directory that holds no file is read as one that does not exist.\<close>

lemma load_listing:
  "load_from_dir yaml (path_exists (indexes_dir st) st) (Inr (dir_listing st)) r =
   load_from_dir yaml True (Inr (dir_listing st)) r"
proof (cases "path_exists (indexes_dir st) st")
  case False
  then have "dir_listing st = []"
    by (auto simp: path_exists_def list_ex_iff dir_listing_def in_dir_def filter_empty_conv)
  then show ?thesis by (simp add: load_from_dir_def)
qed simp

text \<open>The load of a start is the restart of the management API.\<close>

lemma start_loads:
  assumes "agrees cd m (files_of dir r d)"
  obtains reg k where
    "load_from_dir (cd_yaml cd) (pf_indexes_exist (mounted dir d pf)) (pf_read_dir (mounted dir d pf)) new_registry =
       Ret (reg, Inr k)"
    "agrees cd m (files_of dir reg d)"
proof -
  obtain st' where st': "restart cd (files_of dir r d) = Ret (Some st')" "agrees cd m st'"
    using agrees_restart [OF assms] by blast
  have "dir_listing (files_of dir r d) = dir_listing (files_of dir new_registry d)"
    by (simp add: dir_listing_def files_of_def indexes_dir_def)
  with st'(1) obtain reg k where
      "load_from_dir (cd_yaml cd) True (Inr (dir_listing (files_of dir new_registry d))) new_registry = Ret (reg, Inr k)"
      "st' = files_of dir reg d"
    by (auto simp: restart_def run_bind_case files_of_def split: run.splits sum.splits)
  with st'(2) show thesis
    by (intro that) (simp_all add: mounted_def Let_def load_listing)
qed

lemma start_definitions:
  assumes "agrees (su_codec su) m (files_of (data_dir env) r d)"
    and "start_program (cd_yaml (su_codec su)) env (mounted (data_dir env) d pf) = Ret (Inr p)"
  shows "agrees (su_codec su) m (files_of (data_dir env) (pr_registry p) d)"
proof -
  obtain reg k where reg: "load_from_dir (cd_yaml (su_codec su)) (pf_indexes_exist (mounted (data_dir env) d pf))
      (pf_read_dir (mounted (data_dir env) d pf)) new_registry = Ret (reg, Inr k)"
      "agrees (su_codec su) m (files_of (data_dir env) reg d)"
    using assms(1) by (rule start_loads)
  from assms(2) have "pr_registry p = reg"
    by (cases rule: start_program_cases) (use reg(1) in simp)
  with reg(2) show ?thesis by simp
qed

text \<open>A life, and then any number of them, on files that are kept and calls on them that succeed.\<close>

definition careful :: "'w life \<Rightarrow> bool" where
  "careful l \<longleftrightarrow> li_fs l = [] \<and> li_files l = (\<lambda>files. files)"

lemma api_of_start: "boot p = Some s0 \<Longrightarrow> api_of dir (start_server s0 (dk_files d) []) = files_of dir (pr_registry p) d"
  by (auto simp: files_of_def api_of_def start_server_def boot_def initial_def)

lemma life_definitions:
  assumes "run_life su env crc chr dp d l = Some s" "careful l" "su_data_dir su = data_dir env"
    and "agrees (su_codec su) m (files_of (data_dir env) r d)"
    and "list_all (op_ok (su_codec su)) (client_ops su (li_events l))"
  shows "agrees (su_codec su) (foldl (expected_step (su_management su)) m (client_ops su (li_events l)))
    (api_of (data_dir env) s)"
proof -
  obtain p s0 where p: "start_program (cd_yaml (su_codec su)) env (mounted (data_dir env) d (li_platform l)) = Ret (Inr p)"
      "boot p = Some s0"
      "try_fold (server_step su crc chr dp) (start_server s0 (dk_files d) []) (li_events l) = Some s"
    using assms(1,2) unfolding careful_def by (metis run_life_cases)
  have "agrees (su_codec su) m (files_of (data_dir env) (pr_registry p) d)"
    by (rule start_definitions [OF assms(4) p(1)])
  from definitions.run_simulates [OF this assms(5), of "su_management su"]
    run_definitions [OF p(3) start_follows, unfolded assms(3) api_of_start [OF p(2)]]
  show ?thesis by auto
qed

lemma left_definitions:
  assumes "agrees cd m (api_of dir s)" "careful l"
  shows "agrees cd m (files_of dir (sy_registry (sv_system s)) (left_by l s))"
proof -
  have "as_io (api_of dir s) = []"
    using assms(1) by (simp add: agrees_def)
  then have "files_of dir (sy_registry (sv_system s)) (left_by l s) = api_of dir s"
    using assms(2) by (simp add: files_of_def api_of_def left_by_def careful_def)
  with assms(1) show ?thesis by simp
qed

definition all_events :: "'w life list \<Rightarrow> 'w server_event list" where
  "all_events ls = concat (map li_events ls)"

lemma client_ops_append [simp]: "client_ops su (xs @ ys) = client_ops su xs @ client_ops su ys"
  by (simp add: client_ops_def map_filter_def)

lemma lives_definitions:
  assumes "lives su env crc chr dp d ls = Some (ss, d')" "\<forall>l \<in> set ls. careful l" "su_data_dir su = data_dir env"
    and "agrees (su_codec su) m (files_of (data_dir env) r d)"
    and "list_all (op_ok (su_codec su)) (client_ops su (all_events ls))"
  shows "(\<exists>r'. agrees (su_codec su) (foldl (expected_step (su_management su)) m (client_ops su (all_events ls)))
      (files_of (data_dir env) r' d')) \<and>
    (ls \<noteq> [] \<longrightarrow> agrees (su_codec su) (foldl (expected_step (su_management su)) m (client_ops su (all_events ls)))
      (api_of (data_dir env) (last ss)))"
  using assms
proof (induction ls arbitrary: d ss m r)
  case Nil
  then show ?case by (auto simp: all_events_def client_ops_def)
next
  case (Cons l ls)
  obtain s ss' where s: "run_life su env crc chr dp d l = Some s" "ss = s # ss'"
      "lives su env crc chr dp (left_by l s) ls = Some (ss', d')"
    using Cons.prems(1) by (rule lives_cases)
  have l: "careful l" and rest: "\<forall>l \<in> set ls. careful l"
    using Cons.prems(2) by simp_all
  have ok: "list_all (op_ok (su_codec su)) (client_ops su (li_events l))"
      "list_all (op_ok (su_codec su)) (client_ops su (all_events ls))"
    using Cons.prems(5) by (simp_all add: all_events_def)
  note here = life_definitions [OF s(1) l Cons.prems(3,4) ok(1)]
  note later = Cons.IH [OF s(3) rest Cons.prems(3) left_definitions [OF here l] ok(2)]
  have "last ss = (if ls = [] then s else last ss')"
    using s(2,3) by (cases ls) (auto split: option.splits)
  moreover have "client_ops su (all_events (l # ls)) = client_ops su (li_events l) @ client_ops su (all_events ls)"
    by (simp add: all_events_def)
  moreover have "client_ops su (all_events ls) = []" if "ls = []"
    using that by (simp add: all_events_def client_ops_def)
  ultimately show ?case
    using here later by simp
qed

lemma loads_at_start:
  assumes "agrees (su_codec su) m (files_of (data_dir env) r d)"
  shows "start_program (cd_yaml (su_codec su)) env (mounted (data_dir env) d pf) \<noteq> Ret (Inl (LoadFailed e))"
proof -
  obtain reg k where load: "load_from_dir (cd_yaml (su_codec su)) (pf_indexes_exist (mounted (data_dir env) d pf))
      (pf_read_dir (mounted (data_dir env) d pf)) new_registry = Ret (reg, Inr k)"
    using assms by (rule start_loads)
  show ?thesis
    by (simp add: start_program_def start_indexer_def load Let_def split: option.split sum.split)
qed

lemma lives_cell:
  assumes "lives su env crc chr dp d ls = Some (ss, d')" "ss \<noteq> []"
  shows "sv_cell (last ss) = None \<or> sv_cell (last ss) = Some (auth_header_of (su_api_key su))"
proof -
  have "length ss - 1 < length ss" using assms(2) by simp
  with assms(1) obtain d1 where "run_life su env crc chr dp d1 (ls ! (length ss - 1)) = Some (ss ! (length ss - 1))"
    by (rule lives_nth)
  then have "run_life su env crc chr dp d1 (ls ! (length ss - 1)) = Some (last ss)"
    using assms(2) by (simp add: last_conv_nth)
  then obtain s0 where
      "try_fold (server_step su crc chr dp) (start_server s0 (dk_files d1) (li_fs (ls ! (length ss - 1))))
        (li_events (ls ! (length ss - 1))) = Some (last ss)"
    by (rule run_life_cases)
  then show ?thesis
    by (rule run_tracks) (simp add: tracks_def)
qed

text \<open>What a client sees of a definition.\<close>

lemma get_definition:
  assumes "agrees cd m (api_of dir s)"
  shows "\<exists>status body. get_index_handler cd (api_of dir' s) n = (status, body) \<and>
    (case m n of
       None \<Rightarrow> status = 404
     | Some def \<Rightarrow> status = 200 \<and> (\<exists>def'. same_def def def' \<and> body = cd_to_json cd def'))"
proof -
  have "rel_option same_def (m n) (reg_get (sy_registry (sv_system s)) n)"
    using assms by (simp add: agrees_def api_of_def)
  then show ?thesis
    by (cases "m n") (auto simp: get_index_handler_def api_of_def option_rel_Some1)
qed


section \<open>Witnesses\<close>

text \<open>
  An empty disk; a life with the given events, on a platform where all calls succeed, which ends with a
  loss of power that leaves no more than the synced bytes of the log.
\<close>

definition demo_disk :: "string list disk" where
  "demo_disk = \<lparr>dk_log = Map.empty, dk_files = [], dk_world = []\<rparr>"

definition demo_life :: "string list server_event list \<Rightarrow> string list life" where
  "demo_life es =
     \<lparr>li_platform = empty_platform, li_fs = [], li_events = es, li_cut = (\<lambda>_. 0), li_files = (\<lambda>files. files),
      li_world = (\<lambda>w. w)\<rparr>"

abbreviation demo_lives where
  "demo_lives \<equiv> lives demo_site here (\<lambda>_. 7) demo_chrono demo_deps"

lemma demo_careful [simp]: "careful (demo_life es)"
  by (simp add: careful_def demo_life_def)

lemma demo_dir [simp]: "data_dir here = ''d''" "su_data_dir demo_site = ''d''"
  by (simp_all add: data_dir_def env_or_def here_def demo_site_def)

lemma demo_fields [simp]:
  "su_codec demo_site = demo_codec" "su_api_key demo_site = None" "su_management demo_site = None"
  "su_pick demo_site = demo_pick" "su_path demo_site = Inr"
  by (simp_all add: demo_site_def)

lemma demo_settled [simp]: "settled demo_disk"
  by (simp add: settled_def demo_disk_def)

text \<open>The start on the empty disk is the one of the other witnesses.\<close>

lemma demo_mounted: "mounted ''d'' demo_disk empty_platform = empty_platform"
  by (simp add: mounted_def Let_def files_of_def demo_disk_def empty_platform_def path_exists_def
      dir_listing_def hm_contains_key_def)

lemma demo_yaml: "start_program yaml here empty_platform = start_program yaml' here empty_platform"
proof -
  have "load_from_dir y (pf_indexes_exist empty_platform) es r = Ret (r, Inr 0)" for y es r
    by (simp add: load_from_dir_def empty_platform_def)
  then show ?thesis
    by (simp only: start_program_def)
qed

lemma demo_first_life:
  assumes "start_program (\<lambda>_. Inl []) here empty_platform = Ret (Inr p)" "boot p = Some s0"
    and "try_fold demo_serve (start_server s0 [] []) es = Some s"
  shows "run_life demo_site here (\<lambda>_. 7) demo_chrono demo_deps demo_disk (demo_life es) = Some s"
proof -
  have "start_program (cd_yaml (su_codec demo_site)) here (mounted (data_dir here) demo_disk empty_platform) = Ret (Inr p)"
    unfolding demo_dir demo_mounted using assms(1) by (rule demo_yaml [THEN trans])
  with assms(2,3) show ?thesis
    by (simp add: run_life_def demo_life_def demo_disk_def)
qed

text \<open>Where the definitions can be loaded, a life without requests can follow.\<close>

lemma demo_idle:
  assumes "agrees demo_codec m (files_of ''d'' r d)"
  shows "\<exists>s. run_life demo_site here (\<lambda>_. 7) demo_chrono demo_deps d (demo_life []) = Some s \<and>
    sy_removed (sv_system s) = []"
proof -
  let ?pf = "mounted ''d'' d empty_platform"
  obtain reg k where load: "load_from_dir (cd_yaml demo_codec) (pf_indexes_exist ?pf) (pf_read_dir ?pf) new_registry = Ret (reg, Inr k)"
    using assms by (rule start_loads)
  have same: "pf_logging ?pf = None" "pf_thread_pool ?pf = None" "pf_recorder ?pf = None" "pf_listen ?pf = (\<lambda>_. None)"
      "pf_log_files ?pf = dk_log d" "pf_io empty_platform = []"
    by (simp_all add: mounted_def Let_def empty_platform_def)
  obtain w where "start_wal 0 (dk_log d) [] = Some w"
    using start_wal_starts by blast
  then have "\<exists>p. start_program (cd_yaml demo_codec) here ?pf = Ret (Inr p) \<and> pr_wal p = Some w \<and>
      ac_manager (pr_indexer p) = ac_manager demo_start \<and> ac_writers (pr_indexer p) = ac_writers demo_start"
    by (simp add: start_program_def read_config_def env_usize_def env_or_def here_def parse_u16_def
      parse_u64_def from_str_radix_u64_def magnitude_def strip_plus_def to_digit_def digit_val_def
      load same channel_ok_def start_indexer_def env_number_def new_worker_def
      new_actor_def demo_start_def Let_def)
  then show ?thesis
    by (auto simp: run_life_def demo_life_def boot_def start_server_def initial_def)
qed

lemma demo_empty: "agrees demo_codec Map.empty (files_of ''d'' new_registry demo_disk)"
  by (simp add: agrees_def mirrors_def reg_get_def files_of_def demo_disk_def) (simp add: new_registry_def)

text \<open>A document is posted and acknowledged; a second life follows.\<close>

lemma demo_two_lives:
  assumes "start_program (\<lambda>_. Inl []) here empty_platform = Ret (Inr p)" "boot p = Some s0"
    and "try_fold demo_serve (start_server s0 [] []) es = Some s"
    and "list_all (op_ok demo_codec) (client_ops demo_site es)"
  obtains s' d where "demo_lives demo_disk [demo_life es, demo_life []] = Some ([s, s'], d)"
    "sy_removed (sv_system s') = []"
proof -
  let ?m = "foldl (expected_step (su_management demo_site)) Map.empty (client_ops demo_site es)"
  have events: "li_events (demo_life es) = es"
    by (simp add: demo_life_def)
  have one: "run_life demo_site here (\<lambda>_. 7) demo_chrono demo_deps demo_disk (demo_life es) = Some s"
    using assms(1-3) by (rule demo_first_life)
  have "agrees (su_codec demo_site) ?m (api_of (data_dir here) s)"
    using life_definitions [OF one demo_careful, of Map.empty new_registry] demo_empty assms(4)
    unfolding demo_fields events demo_dir by blast
  then have "agrees demo_codec ?m (files_of ''d'' (sy_registry (sv_system s)) (left_by (demo_life es) s))"
    unfolding demo_fields demo_dir using left_definitions demo_careful by blast
  then obtain s' where "run_life demo_site here (\<lambda>_. 7) demo_chrono demo_deps (left_by (demo_life es) s) (demo_life []) = Some s'"
      "sy_removed (sv_system s') = []"
    using demo_idle by blast
  with one show thesis
    by (intro that [of s']) simp_all
qed

lemma demo_op: "list_all (op_ok demo_codec) (client_ops demo_site [Http put_logs 0])"
    "list_all (op_ok demo_codec) (client_ops demo_site (demo_requests post_doc @ demo_turns))"
  using logs_definition_passes
  by (simp_all add: client_ops_def demo_requests_def demo_turns_def put_logs_def post_doc_def demo_site_def demo_routes
      authorized_def plain_name_def yaml_roundtrip_def logs_renamed demo_codec_def)


theorem nothing_replayed_witness:
  "\<exists>ss d kind. demo_lives demo_disk [demo_life (demo_requests post_doc @ demo_turns), demo_life []] = Some (ss, d) \<and>
    fst ` set (ap_sent (sy_appender (sv_system (ss ! 0)))) = {logs_event} \<and>
    (\<exists>req. asked demo_site req kind \<and> logs_event \<in> set (fst (ask demo_site kind []))) \<and>
    ap_sent (sy_appender (sv_system (ss ! 1))) = []"
proof -
  obtain p s0 s off where d: "start_program (\<lambda>_. Inl []) here empty_platform = Ret (Inr p)" "boot p = Some s0"
      "try_fold demo_serve (start_server s0 [] []) (demo_requests post_doc @ demo_turns) = Some s"
      "ap_sent (sy_appender (sv_system s)) = [(logs_event, off)]"
    by (rule demo_doc_run) blast
  obtain s' d' where two: "demo_lives demo_disk [demo_life (demo_requests post_doc @ demo_turns), demo_life []] = Some ([s, s'], d')"
    using demo_two_lives [OF d(1-3) demo_op(2)] by blast
  have "\<exists>req kind. asked demo_site req kind \<and> logs_event \<in> set (fst (ask demo_site kind []))"
    using nothing_replayed [OF two, of 0 logs_event off] d(4) by auto
  moreover have "set (ap_sent (sy_appender (sv_system s'))) = {}"
    using nothing_replayed [OF two, of 1]
    by (cases "ap_sent (sy_appender (sv_system s'))") (auto simp: demo_life_def)
  ultimately show ?thesis
    using two d(4) by auto
qed

definition get_logs :: http_request where
  "get_logs = \<lparr>hq_method = GET, hq_path = ''/indexes/logs'', hq_headers = [], hq_query = [], hq_body = []\<rparr>"

lemma demo_get_route: "app_router demo_pick GET ''/indexes/logs'' = Some (GetIndexHandler, Some ''logs'')"
  by code_simp



end
