(* ===== verification/Spec2Isabelle.thy ===== *)
theory Spec2Isabelle
  imports Server_Safe Lives
begin

text \<open>
  \<^bold>\<open>Edgewit: a model of the whole program.\<close>

  Edgewit is a small search server. Documents arrive over HTTP; an appender thread writes them to
  a write-ahead log and answers the requests once the log is on the disk; an indexing task turns
  the logged events into documents of Tantivy indexes and commits them periodically; a retention
  worker sends purge commands to the indexing task and deletes log files; a compaction worker
  merges segments. Index definitions come from YAML files and from an API and live in a registry
  that all parts share.

  \<^bold>\<open>Theories.\<close> Each part of the program has one theory (or a few), which holds
  its state as a record, its operations in the order of the code and the facts about them. The
  names are the names of the code; record fields have a prefix, because HOL's record fields are
  global.

  \<^item> \<open>Prelude\<close>: machine integers, calls that may panic (\<open>run\<close>; the
    release profile aborts on a panic, so \<open>Panicked\<close> is the end of the process), hash
    maps as association lists with distinct keys, and the interfaces
    \<open>invariant_machine\<close> (a step that keeps an invariant),
    \<open>ending_machine\<close> (the same for a process that may end),
    \<open>refining_machine\<close> (a process that implements an abstract machine) and
    \<open>unordered_loop\<close> (a loop over a hash map).
  \<^item> \<open>Rust_Str\<close>: strings as UTF-8 bytes, splitting, trimming, parsing of
    integers. \<open>Numerals\<close>: decimal texts and numbers from the environment.
    \<open>Json\<close>: \<open>serde_json::Value\<close> and its ordered maps.
  \<^item> \<open>Schema_Def\<close>, \<open>Schema_Valid\<close>, \<open>Schema_Build\<close>:
    \<open>src/schema/definition.rs\<close>, \<open>validation.rs\<close> and
    \<open>builder.rs\<close>: the definitions, their check with its exact language of retention
    strings, and the translation to a Tantivy schema.
  \<^item> \<open>Registry\<close>: \<open>src/registry.rs\<close>, all operations, refined to a
    partial map, and the loading of a directory of definitions.
  \<^item> \<open>Wal_Frame\<close>, \<open>Wal_Appender\<close>, \<open>Wal_Recovery\<close>,
    \<open>Wal_Log\<close>, \<open>Wal_Durable\<close>, \<open>Wal_Crash\<close>:
    \<open>src/wal.rs\<close>. The frame format with its reader; the appender with the standard
    library's buffered writer, file rotation and batching; what is durable when a request is
    acknowledged; the log of a healthy run, read back; durability over a whole run with errors;
    and what is read back after a loss of power.
  \<^item> \<open>Retention\<close>: \<open>src/retention.rs\<close>, durations, sizes, purge
    commands, log clean-up.
  \<^item> \<open>Ingest_Valid\<close>: \<open>src/ingestion/validation.rs\<close>, the check of
    documents, refined to a specification on maps. \<open>Ingest_Routes\<close>:
    \<open>src/ingestion/routes.rs\<close>, the single and the bulk endpoint, down to the log.
  \<^item> \<open>Index_Manager\<close>: \<open>src/index_manager.rs\<close>, the caches of
    indexes and readers.
  \<^item> \<open>Indexer\<close>, \<open>Indexer_Run\<close>, \<open>Indexer_Doc\<close>:
    \<open>src/indexer.rs\<close>, the indexing task, its runs, and the documents it builds.
  \<^item> \<open>Compaction\<close>: \<open>src/compaction.rs\<close>, beside the writers of the
    indexing task.
  \<^item> \<open>Index_Api\<close>: \<open>src/api/indexes.rs\<close>, the management of
    definitions with their files, and the restart. \<open>Search\<close>:
    \<open>src/api/search.rs\<close>. \<open>Cluster\<close>: \<open>src/api/cluster.rs\<close>.
    \<open>Auth\<close>: \<open>src/api/auth.rs\<close>. \<open>Router\<close>: the table of
    routes of \<open>src/api/mod.rs\<close> with the authentication around every handler.
  \<^item> \<open>Startup\<close>: \<open>src/main.rs\<close>, the configuration and the first
    states of all tasks.
  \<^item> \<open>System\<close>: the appender, the channels, the indexing task, the timer, the
    retention worker and the registry together, as one machine whose steps come in any order, and
    its invariant. \<open>End_To_End\<close>: what holds from one end of the program to the other.
    \<open>Exactly_Once\<close>: the committed index as a function of the requests.
    \<open>Posted_Found\<close>: from the post to the hit.
  \<^item> \<open>Server\<close>: the whole program as its clients see it. The record
    \<open>server\<close> is the system with the \<open>AppState\<close> of
    \<open>src/api/mod.rs\<close>, the requests in progress and the answers given; an HTTP request
    goes through the key check and the table of routes to its handler, and the handlers for
    ingestion send their documents one by one and wait. \<open>Server_Run\<close>: every run of
    the server is a run of the system. \<open>Clients\<close>: what clients can rely on.
    \<open>Server_Safe\<close>: which requests and definitions can end the process, and that no
    others can.
  \<^item> \<open>Lives\<close>: the data directory over several lives of the process. A life is a
    start on what the one before left (\<open>mounted\<close>), a run of the server, and an end by
    a signal, a panic or a loss of power (\<open>left_by\<close>).

  \<^bold>\<open>Effects.\<close> State is passed explicitly. The outcome of every system call of
  the appender comes from a script in its state (\<open>ws_io\<close>), so theorems over all
  scripts cover every pattern of I/O errors; a script that has run out means success, and
  \<open>healthy\<close> states that all remaining outcomes are successes. The management API has
  a script of its own (\<open>as_io\<close>), in which a directory can also be removed half-way,
  and the channel of the endpoints has one. What the file system shows elsewhere (directory
  entries, sizes, outcomes of deletions) is an argument. Concurrency is the order of events: the
  appender, the indexing task, the registry, the management API, the whole system and the server
  are machines run over arbitrary lists of events. A handler other than the two for ingestion is
  one step of the server.

  \<^bold>\<open>Libraries.\<close> Code that is not in the repository is a parameter: CRC32, the
  YAML and JSON parsers and printers, Tantivy (\<open>schema_api\<close>,
  \<open>index_api\<close>, \<open>writer_api\<close>, \<open>search_api\<close>,
  \<open>compaction_api\<close>, \<open>stats_api\<close>), chrono (\<open>chrono_api\<close>),
  the Unicode upper-case table and the path matcher and the extractors of the web framework
  (\<open>site\<close>). What the properties need of them is a predicate that states documented
  behaviour (\<open>schema_api_law\<close>, \<open>writer_law\<close>, \<open>chrono_law\<close>,
  \<open>upper_law\<close>, \<open>ranks\<close>, \<open>yaml_roundtrip\<close>,
  \<open>matcher_law\<close>; for the path from a post to a hit \<open>index_law\<close>,
  \<open>builder_law\<close>, \<open>source_law\<close> and \<open>shows_docs\<close>: an index
  keeps the schema it was created with, a schema what was added to it, a document the value of a
  stored field, and a reloaded reader ranks the documents committed and not deleted), with an
  instance that satisfies it in the witnesses.

  \<^bold>\<open>Integers.\<close> Offsets, sizes and limits are 64-bit words and wrap as in a
  release build; signed 64-bit values are integers with \<open>wrap_i64\<close>. Where a property
  needs that nothing wraps, the bound is a hypothesis (fewer than 2^64 bytes in the log, sizes
  that add up below 2^64).

  \<^bold>\<open>Fuel.\<close> Only the recovery loop \<open>read_log\<close> has fuel.
  \<open>read_log_terminates\<close> proves that one more than the number of bytes of the file is
  enough on any contents.

  \<^bold>\<open>What the properties show.\<close> For the clients: over any run of the server, a
  document answered with 201, alone or in a bulk request, is on the disk, and it is committed by
  the tick after its delivery unless the indexing task has logged an error; what a search finds is
  what was posted with the key, nothing else and nothing twice; every request in progress can be
  answered; the process survives everything but the listed ways to a panic; and the server refines
  the system of the tasks. Beneath: the committed operations of an index are one for each accepted
  event and purge, in order; a retention policy becomes a committed deletion. For the log:
  acknowledged means durable under any errors, every request gets exactly one answer, a healthy
  log is recovered exactly, and no acknowledged event is lost when the power goes, nor in any
  number of later lives of the process; what a reader of the log has found, every later reader
  finds; but a failed batch can hide later events. For the endpoints: the bulk endpoint sends
  exactly what was written; definitions created and deleted over HTTP survive restarts, life after
  life, as a refinement of a partial map; a search returns exactly the requested page; the
  statistics and the table of indexes agree; only requests with the key reach a handler. For the
  registry and the schema: refinement to a map, reachable invariants, exact outcomes, independence
  of hash map order. For documents: the check implements its specification, its errors are true;
  and the shape of the indexed document. For the indexing task: one document per event, everything
  committed at a tick when commits succeed. For retention: exact purge commands, a clean-up of the
  log, oldest files first and no more than needed. For the start and the workers: what a start
  establishes, what a compaction cycle visits. Theorems that are not numbered show where the
  program falls short: oversized events, checksums that are not checked, offsets that restart,
  commits that are not retried, purges that reset the stored offset, names that leave the data
  directory, definitions that cannot be written but stay in use, events that the next life
  acknowledges but that a torn tail of the log hides from its reader
  (\<open>torn_tail_hides_acked\<close>), and a log that no start reads back into the indexes
  (\<open>nothing_replayed\<close>).

  \<^bold>\<open>Not modelled.\<close> The generation of the OpenAPI file
  (\<open>src/bin/generate_openapi.rs\<close> and the attributes it reads), log messages, metrics,
  the hint texts of I/O errors that are only logged, and lock poisoning outside the registry,
  which a build that aborts on panics cannot reach. The extractors of the web framework are
  functions of the request, the text of the metrics is fixed, and the end of the process by a
  signal is not an event. In the server the compaction worker is a change of the files Tantivy
  sees (\<open>FilesChange\<close>); what it does is in \<open>Compaction\<close>. The files of
  the definitions and those of the indexes are two parts of the state: the removal of an index
  directory is a parameter on the second (\<open>su_wipe\<close>). A log file whose name a round
  of retention removes stays the appender's open file, as on Unix; only its name is recorded as
  removed. A life that does not get as far as its log ends the chain of lives, and a file removed
  by retention is absent in the next one. The code does not sync the files of the definitions, so
  the theorem on their survival asks for lives that do not end with the power
  (\<open>careful\<close>).
\<close>

end
